theory Spec2Isabelle
  imports Main "HOL-Library.Monad_Syntax"
begin

section \<open>The template mode of src/index.ts\<close>

text \<open>
  The source is one TypeScript module: a matcher over pattern specifications (literal
  text, regular expression or callback), a per-line layer scanner (\<open>createLayers\<close>)
  that maintains a stack of nested patterns, and a token dispatcher for the host editor.
  Mutation of the state object is modelled by passing the state and returning the updated
  one. Pattern objects refer to each other cyclically (a parenthesis pattern has itself
  among its children), so they are modelled by identity: a pattern is referred to by a
  number and looked up in a store of pattern objects.
\<close>

subsection \<open>JavaScript strings\<close>

text \<open>\<open>s.startsWith(p)\<close> and \<open>s.endsWith(p, end)\<close> of ECMAScript: the end position is
  clamped to the string, and the text before it must end with \<open>p\<close>.\<close>

definition startsWith :: "string \<Rightarrow> string \<Rightarrow> bool" where
  "startsWith s p = (take (length p) s = p)"

definition endsWith :: "string \<Rightarrow> string \<Rightarrow> int \<Rightarrow> bool" where
  "endsWith s p endPosition =
     (let e = nat (min (max endPosition 0) (int (length s)))
      in length p \<le> e \<and> take (length p) (drop (e - length p) s) = p)"

text \<open>The first index at which \<open>p\<close> occurs in \<open>s\<close>.\<close>

fun findSub :: "string \<Rightarrow> string \<Rightarrow> nat option" where
  "findSub p [] = (if p = [] then Some 0 else None)"
| "findSub p (c # cs) =
     (if take (length p) (c # cs) = p then Some 0
      else (case findSub p cs of None \<Rightarrow> None | Some k \<Rightarrow> Some (Suc k)))"

text \<open>\<open>s.indexOf(p, position)\<close>: the start is clamped to the string; the result is -1
  when there is no occurrence.\<close>

definition indexOf :: "string \<Rightarrow> string \<Rightarrow> int \<Rightarrow> int" where
  "indexOf s p position =
     (let k = nat (min (max position 0) (int (length s)))
      in case findSub p (drop k s) of None \<Rightarrow> - 1 | Some i \<Rightarrow> int (k + i))"

text \<open>The clamped start of a search.\<close>

definition clampPos :: "string \<Rightarrow> int \<Rightarrow> nat" where
  "clampPos s position = nat (min (max position 0) (int (length s)))"

text \<open>\<open>s.slice(a, b)\<close>: a negative index counts from the end; both are clamped.\<close>

definition sliceIndex :: "nat \<Rightarrow> int \<Rightarrow> nat" where
  "sliceIndex len i = (if i < 0 then nat (max (int len + i) 0) else nat (min i (int len)))"

definition slice :: "string \<Rightarrow> int \<Rightarrow> int \<Rightarrow> string" where
  "slice s a b = (let from = sliceIndex (length s) a; to = sliceIndex (length s) b
                  in take (to - from) (drop from s))"

definition sliceFrom :: "string \<Rightarrow> int \<Rightarrow> string" where
  "sliceFrom s a = drop (sliceIndex (length s) a) s"

subsection \<open>Data model\<close>

type_synonym pid = nat

datatype jsval = JUndefined | JNull | JBool bool | JNum int | JStr string
  | JObj "(string \<times> jsval) list"

datatype error = TypeError | Impossible

record RegExp =
  source :: string
  flags :: string

text \<open>The host's stream over one line: the line, the cursor and the start of the
  current token.\<close>

record StringStream =
  sstring :: string
  spos :: int
  sstart :: int

text \<open>An embedded sub-mode, as far as the module uses it: its tokenizer (optional), its
  start state (from the indentation of the stream, when there is one) and its state
  copy.\<close>

record Mode =
  mtoken :: "(StringStream \<Rightarrow> jsval \<Rightarrow> string option \<times> StringStream \<times> jsval) option"
  mstartState :: "int option \<Rightarrow> jsval"
  mcopyState :: "jsval \<Rightarrow> jsval"

record IStateContext =
  ctxMode :: Mode
  ctxState :: jsval

record ILayer =
  pos :: int
  matched :: "string option"
  isOpen :: bool
  prePattern :: pid
  nextPattern :: pid

text \<open>\<open>ITemplateState\<close>. The two linked stacks are lists, the top first; the empty
  list is the null link. \<open>layers\<close> is an optional field.\<close>

record ITemplateState =
  textBefore :: string
  patternContext :: "pid list"
  stateContext :: "IStateContext list"
  useRoot :: bool
  start :: bool
  layers :: "ILayer list option"
  regExpCache :: "string \<rightharpoonup> RegExp"
  customs :: "string \<rightharpoonup> jsval"

datatype PatternLike =
    Str string
  | Rx RegExp
  | Fn "string \<Rightarrow> int \<Rightarrow> ITemplateState \<Rightarrow> int \<times> string option"

record IPattern =
  mode :: "string option"
  "open" :: "PatternLike option"
  close :: "PatternLike option"
  escape :: "PatternLike option"
  children :: "pid list option"
  includePattern :: bool
  patternStyles :: "(string option \<times> string option) option"

record CallbackInfo =
  line :: string
  ipos :: int
  itextBefore :: string
  imatched :: "string option"
  pattern :: pid

type_synonym Callback = "ITemplateState \<Rightarrow> CallbackInfo \<Rightarrow> ITemplateState"

record ITemplateOptions = IPattern +
  codeMode :: "string option"
  beforeEnter :: "Callback option"
  afterEnter :: "Callback option"
  beforeExit :: "Callback option"
  afterExit :: "Callback option"

text \<open>What the module takes from its surroundings: the regular-expression engine of the
  JavaScript runtime (\<open>exec\<close> of the expression compiled from a source and flags, with
  \<open>lastIndex\<close> set to the given index, giving the index and text of the match), the pattern
  objects of the grammar by identity, the host's registry of modes and the indentation of a stream.\<close>

record Runtime =
  regexExec :: "string \<Rightarrow> string \<Rightarrow> nat \<Rightarrow> string \<Rightarrow> (nat \<times> string) option"
  patternObjects :: "pid \<Rightarrow> IPattern"
  getMode :: "string \<Rightarrow> Mode"
  indentation :: "StringStream \<Rightarrow> int"

text \<open>The parser configuration is itself the root pattern; it has identity 0.\<close>

definition rootId :: pid where
  "rootId = 0"

definition getPattern :: "Runtime \<Rightarrow> ITemplateOptions \<Rightarrow> pid \<Rightarrow> IPattern" where
  "getPattern R cfg p = (if p = rootId then IPattern.truncate cfg else patternObjects R p)"

text \<open>JavaScript truthiness of a matcher specification: only the empty string is falsy.\<close>

fun truthy :: "PatternLike \<Rightarrow> bool" where
  "truthy (Str s) = (s \<noteq> [])"
| "truthy (Rx r) = True"
| "truthy (Fn f) = True"

subsection \<open>Pattern-context stack\<close>

definition pushPatternContext :: "ITemplateState \<Rightarrow> pid \<Rightarrow> ITemplateState" where
  "pushPatternContext st p = st\<lparr>patternContext := p # patternContext st\<rparr>"

text \<open>Reading \<open>pre\<close> of a null context is a TypeError.\<close>

definition popPatternContext :: "ITemplateState \<Rightarrow> error + ITemplateState" where
  "popPatternContext st =
     (case patternContext st of [] \<Rightarrow> Inl TypeError
      | p # pre \<Rightarrow> Inr (st\<lparr>patternContext := pre\<rparr>))"

definition getCurrentPattern :: "ITemplateState \<Rightarrow> error + pid" where
  "getCurrentPattern st =
     (case patternContext st of [] \<Rightarrow> Inl TypeError | p # pre \<Rightarrow> Inr p)"

subsection \<open>Regular-expression normalizer and cache\<close>

datatype AnchorMode = A_NONE | A_START | A_END | A_ALL

definition makeSureAnchor :: "string \<Rightarrow> bool \<Rightarrow> bool \<Rightarrow> string" where
  "makeSureAnchor src atStart exist =
     (if atStart then
        (if exist \<and> \<not> startsWith src ''^'' then ''^'' @ src
         else if \<not> exist \<and> startsWith src ''^'' then drop 1 src
         else src)
      else
        (if exist \<and> \<not> endsWith src ''$'' (int (length src)) then src @ ''$''
         else if \<not> exist \<and> endsWith src ''$'' (int (length src)) then butlast src
         else src))"

definition anchoredSource :: "string \<Rightarrow> AnchorMode \<Rightarrow> string" where
  "anchoredSource src anchor =
     (case anchor of
        A_ALL \<Rightarrow> makeSureAnchor (makeSureAnchor src True True) False True
      | A_END \<Rightarrow> makeSureAnchor (makeSureAnchor src True False) False True
      | A_NONE \<Rightarrow> makeSureAnchor (makeSureAnchor src True False) False False
      | A_START \<Rightarrow> makeSureAnchor (makeSureAnchor src True True) False False)"

definition globalFlags :: "string \<Rightarrow> bool \<Rightarrow> string" where
  "globalFlags fl global =
     (if global \<and> CHR ''g'' \<notin> set fl then fl @ ''g''
      else if \<not> global \<and> CHR ''g'' \<in> set fl then filter (\<lambda>c. c \<noteq> CHR ''g'') fl
      else fl)"

definition cacheKey :: "string \<Rightarrow> string \<Rightarrow> string" where
  "cacheKey src fl = src @ ''tVes#aE$'' @ fl"

text \<open>\<open>getCachedRegExp\<close>: the source is normalized, the flag \<open>g\<close> is set or removed,
  and the expression is taken from the cache of the state or built and put there. The
  constructor of the runtime raises a SyntaxError for a source that is not an expression;
  the normalization can produce one (the \<open>$\<close> removed from a source that ends with an
  escaped \<open>$\<close> leaves a lone backslash at its end). The model has no compiled
  expression: the cache holds the source and the flags, which are handed to the engine
  \<open>regexExec\<close>, so it covers the runs in which the constructor accepts the normalized
  source.\<close>

definition getCachedRegExp ::
  "ITemplateState \<Rightarrow> RegExp \<Rightarrow> AnchorMode \<Rightarrow> bool \<Rightarrow> RegExp \<times> ITemplateState" where
  "getCachedRegExp st regExp anchor global =
     (let src = anchoredSource (source regExp) anchor;
          fl = globalFlags (flags regExp) global;
          key = cacheKey src fl
      in case regExpCache st key of
           Some cached \<Rightarrow> (cached, st)
         | None \<Rightarrow>
             (let cached = \<lparr>source = src, flags = fl\<rparr>
              in (cached, st\<lparr>regExpCache := (regExpCache st)(key \<mapsto> cached)\<rparr>)))"

subsection \<open>Matcher\<close>

datatype MatchMode = M_DEFAULT | M_PREFIX

definition execResult :: "(nat \<times> string) option \<Rightarrow> int \<times> string option" where
  "execResult r = (case r of Some (i, m) \<Rightarrow> (int i, Some m) | None \<Rightarrow> (- 1, None))"

fun match ::
  "Runtime \<Rightarrow> string \<Rightarrow> int \<Rightarrow> MatchMode \<Rightarrow> PatternLike \<Rightarrow> ITemplateState
     \<Rightarrow> (int \<times> string option) \<times> ITemplateState" where
  "match R ln position M_DEFAULT (Str p) st =
     (let index = indexOf ln p position
      in ((index, if index \<ge> 0 then Some p else None), st))"
| "match R ln position M_PREFIX (Str p) st =
     (if endsWith ln p position then ((position - int (length p), Some p), st)
      else ((- 1, None), st))"
| "match R ln position md (Fn f) st = (f ln position st, st)"
| "match R ln position M_DEFAULT (Rx r) st =
     (let (reg, st1) = getCachedRegExp st r A_NONE True
      in (execResult (regexExec R (source reg) (flags reg) (nat position) ln), st1))"
| "match R ln position M_PREFIX (Rx r) st =
     (let (reg, st1) = getCachedRegExp st r A_END False
      in (execResult (regexExec R (source reg) (flags reg) 0 (take (nat position) ln)), st1))"

definition checkEscape ::
  "Runtime \<Rightarrow> ITemplateState \<Rightarrow> string \<Rightarrow> int \<Rightarrow> PatternLike option
     \<Rightarrow> bool \<times> ITemplateState" where
  "checkEscape R st ln offset esc =
     (case esc of
        None \<Rightarrow> (False, st)
      | Some e \<Rightarrow>
          (if \<not> truthy e then (False, st)
           else (let ((p, m), st1) = match R ln offset M_PREFIX e st in (p \<ge> 0, st1))))"

definition matchedLength :: "string option \<Rightarrow> int" where
  "matchedLength m = (case m of None \<Rightarrow> 0 | Some t \<Rightarrow> int (length t))"

text \<open>The \<open>while\<close> loop of \<open>matchWithEscape\<close>, over its variables \<open>pos\<close>, \<open>matched\<close>
  and \<open>escaped\<close>. It need not end: not returning is the value \<open>None\<close>.\<close>

partial_function (option) escapeLoop ::
  "Runtime \<Rightarrow> string \<Rightarrow> PatternLike \<Rightarrow> PatternLike option \<Rightarrow> int \<Rightarrow> string option \<Rightarrow> bool
     \<Rightarrow> ITemplateState \<Rightarrow> ((int \<times> string option \<times> bool) \<times> ITemplateState) option" where
  "escapeLoop R ln pat esc p m escaped st =
     (if p \<noteq> - 1 then
        (case checkEscape R st ln p esc of
           (escaped1, st1) \<Rightarrow>
             if \<not> escaped1 then Some ((p, m, escaped1), st1)
             else (case match R ln (p + matchedLength m) M_DEFAULT pat st1 of
                     ((p2, m2), st2) \<Rightarrow> escapeLoop R ln pat esc p2 m2 escaped1 st2))
      else Some ((p, m, escaped), st))"

declare escapeLoop.simps [code]

definition matchWithEscape ::
  "Runtime \<Rightarrow> string \<Rightarrow> int \<Rightarrow> PatternLike \<Rightarrow> PatternLike option \<Rightarrow> ITemplateState
     \<Rightarrow> ((int \<times> string option) \<times> ITemplateState) option" where
  "matchWithEscape R ln position pat esc st =
     (case match R ln position M_DEFAULT pat st of
        ((p0, m0), st0) \<Rightarrow>
          (case escapeLoop R ln pat esc p0 m0 False st0 of
             None \<Rightarrow> None
           | Some ((p, m, escaped), st1) \<Rightarrow>
               (let p' = (if escaped then - 1 else p)
                in Some ((p', if p' \<noteq> - 1 then m else None), st1))))"

subsection \<open>Layer scanner\<close>

datatype FoundMode = F_PUSH | F_POP | F_NONE

text \<open>The variables of one pass of the scan: \<open>found\<close>, \<open>pos\<close>, \<open>matched\<close>,
  \<open>nextPattern\<close> and the state.\<close>

type_synonym scanVars = "FoundMode \<times> int \<times> string option \<times> pid \<times> ITemplateState"

text \<open>The closer of the current pattern (\<open>if (close) ...\<close>).\<close>

definition tryClose ::
  "Runtime \<Rightarrow> string \<Rightarrow> int \<Rightarrow> IPattern \<Rightarrow> pid \<Rightarrow> string option \<Rightarrow> ITemplateState
     \<Rightarrow> scanVars option" where
  "tryClose R ln offset pat cur m st =
     (case close pat of
        None \<Rightarrow> Some (F_NONE, - 1, m, cur, st)
      | Some c \<Rightarrow>
          if \<not> truthy c then Some (F_NONE, - 1, m, cur, st)
          else (case matchWithEscape R ln offset c (escape pat) st of
                  None \<Rightarrow> None
                | Some ((tmpPos, tmpMatched), st1) \<Rightarrow>
                    if tmpPos \<ge> 0 then Some (F_POP, tmpPos, tmpMatched, cur, st1)
                    else Some (F_NONE, - 1, m, cur, st1)))"

text \<open>The \<open>for\<close> loop over the children; \<open>esc\<close> is the \<open>escape\<close> read from the current
  pattern before the loop.\<close>

fun tryChildren ::
  "Runtime \<Rightarrow> ITemplateOptions \<Rightarrow> string \<Rightarrow> int \<Rightarrow> PatternLike option \<Rightarrow> pid list
     \<Rightarrow> scanVars \<Rightarrow> scanVars option" where
  "tryChildren R cfg ln offset esc [] v = Some v"
| "tryChildren R cfg ln offset esc (child # rest) (found, p, m, nxt, st) =
     (case open (getPattern R cfg child) of
        None \<Rightarrow> tryChildren R cfg ln offset esc rest (found, p, m, nxt, st)
      | Some opn \<Rightarrow>
          if \<not> truthy opn then tryChildren R cfg ln offset esc rest (found, p, m, nxt, st)
          else (case matchWithEscape R ln offset opn esc st of
                  None \<Rightarrow> None
                | Some ((tmpPos, tmpMatched), st1) \<Rightarrow>
                    if tmpPos \<ge> 0 \<and> (p = - 1 \<or> tmpPos < p)
                    then tryChildren R cfg ln offset esc rest
                           (F_PUSH, tmpPos, tmpMatched, child, st1)
                    else tryChildren R cfg ln offset esc rest (found, p, m, nxt, st1)))"

text \<open>The search for the next transition: the part of the loop body before
  \<open>if (found !== FoundMode.NONE)\<close>.\<close>

definition findTransition ::
  "Runtime \<Rightarrow> ITemplateOptions \<Rightarrow> string \<Rightarrow> int \<Rightarrow> string option \<Rightarrow> pid \<Rightarrow> ITemplateState
     \<Rightarrow> scanVars option" where
  "findTransition R cfg ln offset m cur st =
     (let pat = getPattern R cfg cur
      in case tryClose R ln offset pat cur m st of
           None \<Rightarrow> None
         | Some v \<Rightarrow>
             (case children pat of
                None \<Rightarrow> Some v
              | Some kids \<Rightarrow> tryChildren R cfg ln offset (escape pat) kids v))"

definition runHook :: "Callback option \<Rightarrow> ITemplateState \<Rightarrow> CallbackInfo \<Rightarrow> ITemplateState" where
  "runHook h st info = (case h of None \<Rightarrow> st | Some f \<Rightarrow> f st info)"

definition hookInfo :: "ITemplateState \<Rightarrow> string \<Rightarrow> int \<Rightarrow> string option \<Rightarrow> pid \<Rightarrow> CallbackInfo" where
  "hookInfo st ln p m pat =
     \<lparr>line = ln, ipos = p, itextBefore = textBefore st, imatched = m, pattern = pat\<rparr>"

definition enterPattern ::
  "ITemplateOptions \<Rightarrow> ITemplateState \<Rightarrow> string \<Rightarrow> int \<Rightarrow> string option \<Rightarrow> pid
     \<Rightarrow> ITemplateState" where
  "enterPattern cfg st ln p m pat =
     (let st1 = runHook (beforeEnter cfg) st (hookInfo st ln p m pat);
          st2 = pushPatternContext st1 pat
      in runHook (afterEnter cfg) st2 (hookInfo st2 ln p m pat))"

definition exitPattern ::
  "ITemplateOptions \<Rightarrow> ITemplateState \<Rightarrow> string \<Rightarrow> int \<Rightarrow> string option \<Rightarrow> pid
     \<Rightarrow> error + (ITemplateState \<times> pid)" where
  "exitPattern cfg st ln p m pat =
     (let st1 = runHook (beforeExit cfg) st (hookInfo st ln p m pat)
      in case popPatternContext st1 of
           Inl e \<Rightarrow> Inl e
         | Inr st2 \<Rightarrow>
             (let st3 = runHook (afterExit cfg) st2 (hookInfo st2 ln p m pat)
              in case getCurrentPattern st3 of
                   Inl e \<Rightarrow> Inl e
                 | Inr nxt \<Rightarrow> Inr (st3, nxt)))"

text \<open>The part of the loop body under \<open>if (found !== FoundMode.NONE)\<close>, up to the reset
  of \<open>textBefore\<close>; it gives the state and the layer's \<open>nextPattern\<close>.\<close>

definition applyTransition ::
  "ITemplateOptions \<Rightarrow> string \<Rightarrow> int \<Rightarrow> pid \<Rightarrow> FoundMode \<Rightarrow> int \<Rightarrow> string option \<Rightarrow> pid
     \<Rightarrow> ITemplateState \<Rightarrow> error + (ITemplateState \<times> pid)" where
  "applyTransition cfg ln offset cur found p m nxt st =
     (let st1 = st\<lparr>textBefore := textBefore st @ slice ln offset p\<rparr>
      in case (if found = F_PUSH then Inr (enterPattern cfg st1 ln p m nxt, nxt)
               else exitPattern cfg st1 ln p m cur) of
           Inl e \<Rightarrow> Inl e
         | Inr (st2, nxt2) \<Rightarrow> Inr (st2\<lparr>textBefore := []\<rparr>, nxt2))"

text \<open>The \<open>while\<close> loop of \<open>createLayers\<close> over \<open>offset\<close>, \<open>layers\<close>, \<open>matched\<close> and
  the state. It need not end: not returning is the value \<open>None\<close>.\<close>

partial_function (option) createLayersLoop ::
  "Runtime \<Rightarrow> ITemplateOptions \<Rightarrow> string \<Rightarrow> int \<Rightarrow> ILayer list \<Rightarrow> string option
     \<Rightarrow> ITemplateState \<Rightarrow> (error + (ILayer list \<times> ITemplateState)) option" where
  "createLayersLoop R cfg ln offset ls m st =
     (if offset < int (length ln) then
        (case getCurrentPattern st of
           Inl e \<Rightarrow> Some (Inl e)
         | Inr cur \<Rightarrow>
             (case findTransition R cfg ln offset m cur st of
                None \<Rightarrow> None
              | Some (found, p, m1, nxt, st1) \<Rightarrow>
                  if found \<noteq> F_NONE then
                    (case applyTransition cfg ln offset cur found p m1 nxt st1 of
                       Inl e \<Rightarrow> Some (Inl e)
                     | Inr (st2, nxt2) \<Rightarrow>
                         createLayersLoop R cfg ln (p + matchedLength m1)
                           (ls @ [\<lparr>pos = p, matched = m1, isOpen = (found = F_PUSH),
                                   prePattern = cur, nextPattern = nxt2\<rparr>])
                           m1 st2)
                  else Some (Inr (ls, st1\<lparr>textBefore := textBefore st1 @ sliceFrom ln offset\<rparr>))))
      else Some (Inr (ls, st)))"

declare createLayersLoop.simps [code]

definition createLayers ::
  "Runtime \<Rightarrow> ITemplateOptions \<Rightarrow> ITemplateState \<Rightarrow> string \<Rightarrow> int
     \<Rightarrow> (error + (ILayer list \<times> ITemplateState)) option" where
  "createLayers R cfg st ln offset = createLayersLoop R cfg ln offset [] None st"

subsection \<open>Token dispatcher\<close>

definition jsTruthy :: "jsval \<Rightarrow> bool" where
  "jsTruthy v =
     (case v of JUndefined \<Rightarrow> False | JNull \<Rightarrow> False | JBool b \<Rightarrow> b | JNum n \<Rightarrow> n \<noteq> 0
      | JStr t \<Rightarrow> t \<noteq> [] | JObj fs \<Rightarrow> True)"

definition modeTruthy :: "string option \<Rightarrow> bool" where
  "modeTruthy m = (case m of None \<Rightarrow> False | Some t \<Rightarrow> t \<noteq> [])"

definition sol :: "StringStream \<Rightarrow> bool" where
  "sol stream = (spos stream = 0)"

definition eol :: "StringStream \<Rightarrow> bool" where
  "eol stream = (spos stream \<ge> int (length (sstring stream)))"

definition pushStateContext ::
  "Runtime \<Rightarrow> ITemplateState \<Rightarrow> string \<Rightarrow> StringStream option \<Rightarrow> ITemplateState" where
  "pushStateContext R st md stream =
     (let modeObj = getMode R md;
          context = \<lparr>ctxMode = modeObj,
                     ctxState = mstartState modeObj (map_option (indentation R) stream)\<rparr>
      in st\<lparr>stateContext := context # stateContext st\<rparr>)"

definition popStateContext :: "ITemplateState \<Rightarrow> error + ITemplateState" where
  "popStateContext st =
     (case stateContext st of [] \<Rightarrow> Inl TypeError
      | c # pre \<Rightarrow> Inr (st\<lparr>stateContext := pre\<rparr>))"

definition getLocalMode :: "ITemplateState \<Rightarrow> Mode option" where
  "getLocalMode st = (case stateContext st of [] \<Rightarrow> None | c # pre \<Rightarrow> Some (ctxMode c))"

definition getLocalState :: "ITemplateState \<Rightarrow> jsval" where
  "getLocalState st =
     (case stateContext st of [] \<Rightarrow> JNull
      | c # pre \<Rightarrow> if jsTruthy (ctxState c) then ctxState c else JNull)"

text \<open>A sub-mode's tokenizer mutates the stream and its own state object in place; a
  state that is not an object cannot be mutated.\<close>

definition setLocalState :: "ITemplateState \<Rightarrow> jsval \<Rightarrow> ITemplateState" where
  "setLocalState st v =
     (case stateContext st of [] \<Rightarrow> st
      | c # pre \<Rightarrow>
          (case ctxState c of
             JObj fs \<Rightarrow> st\<lparr>stateContext := c\<lparr>ctxState := v\<rparr> # pre\<rparr>
           | _ \<Rightarrow> st))"

definition syncState :: "Runtime \<Rightarrow> ITemplateOptions \<Rightarrow> ITemplateState \<Rightarrow> StringStream
    \<Rightarrow> ILayer \<Rightarrow> error + ITemplateState" where
  "syncState R cfg st stream layer =
     (if isOpen layer \<and> modeTruthy (mode (getPattern R cfg (nextPattern layer)))
      then Inr (pushStateContext R st (the (mode (getPattern R cfg (nextPattern layer))))
                  (Some stream))
      else if \<not> isOpen layer \<and> modeTruthy (mode (getPattern R cfg (prePattern layer)))
      then popStateContext st
      else Inr st)"

definition shiftLayers :: "ITemplateState \<Rightarrow> ITemplateState" where
  "shiftLayers st = st\<lparr>layers := map_option tl (layers st)\<rparr>"

definition firstLayer :: "ITemplateState \<Rightarrow> ILayer option" where
  "firstLayer st = (case layers st of None \<Rightarrow> None | Some [] \<Rightarrow> None | Some (l # ls) \<Rightarrow> Some l)"

definition newlineAtEol :: "StringStream \<Rightarrow> ITemplateState \<Rightarrow> ITemplateState" where
  "newlineAtEol stream st =
     (if eol stream then st\<lparr>textBefore := textBefore st @ [CHR 0x0A]\<rparr> else st)"

type_synonym tokenResult = "error + (string option \<times> StringStream \<times> ITemplateState)"

definition tokenPattern :: "Runtime \<Rightarrow> ITemplateOptions \<Rightarrow> StringStream \<Rightarrow> ITemplateState
    \<Rightarrow> tokenResult" where
  "tokenPattern R cfg stream st =
     (case firstLayer st of
        None \<Rightarrow> Inl Impossible
      | Some layer \<Rightarrow>
          (let pat = getPattern R cfg (if isOpen layer then nextPattern layer else prePattern layer)
           in case patternStyles pat of
                None \<Rightarrow> Inl Impossible
              | Some (openStyle, closeStyle) \<Rightarrow>
                  if spos stream \<noteq> pos layer then Inl Impossible
                  else
                    (let st1 = st\<lparr>useRoot := True\<rparr>;
                         stream1 = stream\<lparr>spos := pos layer + matchedLength (matched layer)\<rparr>
                     in case syncState R cfg st1 stream1 layer of
                          Inl e \<Rightarrow> Inl e
                        | Inr st2 \<Rightarrow>
                            Inr (if isOpen layer then openStyle else closeStyle, stream1,
                                 newlineAtEol stream1 (shiftLayers st2)))))"

definition tokenUntil :: "Runtime \<Rightarrow> ITemplateOptions \<Rightarrow> StringStream \<Rightarrow> ITemplateState \<Rightarrow> int
    \<Rightarrow> bool \<Rightarrow> bool \<Rightarrow> tokenResult" where
  "tokenUntil R cfg stream st until shift syncStateWhenReach =
     (let (style, stream1, st1) =
            (case (case getLocalMode st of None \<Rightarrow> None | Some m \<Rightarrow> mtoken m) of
               Some tok \<Rightarrow>
                 (case tok stream (getLocalState st) of
                    (style, stream1, sub) \<Rightarrow>
                      (style,
                       if spos stream1 > until then stream1\<lparr>spos := until\<rparr> else stream1,
                       setLocalState st sub))
             | None \<Rightarrow> (None, stream\<lparr>spos := until\<rparr>, st))
      in case (case firstLayer st1 of
                 None \<Rightarrow> Inr st1
               | Some layer \<Rightarrow>
                   if spos stream1 = until then
                     (case (if syncStateWhenReach then syncState R cfg st1 stream1 layer else Inr st1) of
                        Inl e \<Rightarrow> Inl e
                      | Inr st2 \<Rightarrow> Inr (if shift then shiftLayers st2 else st2))
                   else Inr st1) of
           Inl e \<Rightarrow> Inl e
         | Inr st3 \<Rightarrow> Inr (style, stream1, newlineAtEol stream1 st3))"

text \<open>The dispatch of \<open>token\<close> once the layers of the line are known.\<close>

definition dispatch :: "Runtime \<Rightarrow> ITemplateOptions \<Rightarrow> StringStream \<Rightarrow> ITemplateState
    \<Rightarrow> tokenResult" where
  "dispatch R cfg stream st =
     (case firstLayer st of
        Some layer \<Rightarrow>
          (let end = pos layer + matchedLength (matched layer)
           in if sstart stream < pos layer
              then tokenUntil R cfg stream st (pos layer) False False
              else if sstart stream = pos layer then
                (let pat = getPattern R cfg
                             (if isOpen layer then nextPattern layer else prePattern layer)
                 in if patternStyles pat \<noteq> None then tokenPattern R cfg stream st
                    else if isOpen layer \<and> includePattern pat then
                      tokenUntil R cfg stream
                        (if modeTruthy (mode (getPattern R cfg (nextPattern layer)))
                         then pushStateContext R st
                                (the (mode (getPattern R cfg (nextPattern layer))))
                                (Some stream)
                         else st)
                        end True False
                    else if \<not> isOpen layer \<and> \<not> includePattern pat then
                      (case (if modeTruthy (mode (getPattern R cfg (prePattern layer)))
                             then popStateContext st else Inr st) of
                         Inl e \<Rightarrow> Inl e
                       | Inr st1 \<Rightarrow> tokenUntil R cfg stream st1 end True False)
                    else tokenUntil R cfg stream st end True True)
              else if sstart stream < end then tokenUntil R cfg stream st end True True
              else Inl Impossible)
      | None \<Rightarrow>
          (case (case getLocalMode st of None \<Rightarrow> None | Some m \<Rightarrow> mtoken m) of
             Some tok \<Rightarrow>
               (case tok stream (getLocalState st) of
                  (style, stream1, sub) \<Rightarrow> Inr (style, stream1, setLocalState st sub))
           | None \<Rightarrow> Inr (None, stream\<lparr>spos := int (length (sstring stream))\<rparr>, st)))"

text \<open>\<open>token\<close>: at the start of a line the layers are computed first. The scan need not
  end, so the result is an option.\<close>

definition token :: "Runtime \<Rightarrow> ITemplateOptions \<Rightarrow> StringStream \<Rightarrow> ITemplateState
    \<Rightarrow> tokenResult option" where
  "token R cfg stream st =
     (if \<not> start st \<or> sol stream then
        (case createLayers R cfg (st\<lparr>start := True, useRoot := False\<rparr>)
                (sstring stream) (sstart stream) of
           None \<Rightarrow> None
         | Some (Inl e) \<Rightarrow> Some (Inl e)
         | Some (Inr (ls, st1)) \<Rightarrow> Some (dispatch R cfg stream (st1\<lparr>layers := Some ls\<rparr>)))
      else Some (dispatch R cfg stream st))"

subsection \<open>A regular-expression engine for a fragment of the syntax\<close>

text \<open>
  The engine of the runtime is a parameter of the model (\<open>regexExec\<close>). For concrete
  runs this is an engine for expressions built from single characters, \<open>.\<close>, the
  escaped classes \<open>s\<close>, \<open>w\<close>, \<open>d\<close>, escaped punctuation, the greedy quantifiers \<open>*\<close>, \<open>+\<close>,
  \<open>?\<close> and the assertions \<open>^\<close> and \<open>$\<close>, with no flag other than \<open>g\<close>: leftmost
  match, greedy with backtracking. For any other source or flag it gives no match.
\<close>

datatype rxAtom = AChar char | AAny | ASpace | AWord | ADigit

datatype rxItem = One rxAtom | Opt rxAtom | Star rxAtom | Bol | Eol

datatype rxTok = TAtom rxAtom | TStar | TPlus | TQuest | TBol | TEol | TBad

definition isDigit :: "char \<Rightarrow> bool" where
  "isDigit c = (48 \<le> (of_char c :: nat) \<and> (of_char c :: nat) \<le> 57)"

definition isWord :: "char \<Rightarrow> bool" where
  "isWord c = (isDigit c \<or> (65 \<le> (of_char c :: nat) \<and> (of_char c :: nat) \<le> 90)
     \<or> (97 \<le> (of_char c :: nat) \<and> (of_char c :: nat) \<le> 122) \<or> c = CHR ''_'')"

text \<open>The characters of the model are the code units below 256. Of these the class
  \<open>s\<close> of ECMAScript holds the space, tab, line feed, vertical tab, form feed, carriage
  return and the no-break space (the other white-space characters of Unicode lie above
  255).\<close>

definition isSpace :: "char \<Rightarrow> bool" where
  "isSpace c =
     (c \<in> set [CHR '' '', CHR 0x09, CHR 0x0A, CHR 0x0B, CHR 0x0C, CHR 0x0D, CHR 0xA0])"

fun atomMatches :: "rxAtom \<Rightarrow> char \<Rightarrow> bool" where
  "atomMatches (AChar c) d = (c = d)"
| "atomMatches AAny d = (d \<noteq> CHR 0x0A \<and> d \<noteq> CHR 0x0D)"
| "atomMatches ASpace d = isSpace d"
| "atomMatches AWord d = isWord d"
| "atomMatches ADigit d = isDigit d"

definition plainTok :: "char \<Rightarrow> rxTok" where
  "plainTok c =
     (if c = CHR ''^'' then TBol else if c = CHR ''$'' then TEol
      else if c = CHR ''*'' then TStar else if c = CHR ''+'' then TPlus
      else if c = CHR ''?'' then TQuest else if c = CHR ''.'' then TAtom AAny
      else if c \<in> set ''()[|'' \<or> c = CHR 0x5C then TBad
      else TAtom (AChar c))"

definition escapedTok :: "char \<Rightarrow> rxTok" where
  "escapedTok d =
     (if d = CHR ''s'' then TAtom ASpace else if d = CHR ''w'' then TAtom AWord
      else if d = CHR ''d'' then TAtom ADigit
      else if isWord d then TBad
      else TAtom (AChar d))"

fun rxTokens :: "string \<Rightarrow> rxTok list" where
  "rxTokens [] = []"
| "rxTokens [c] = [plainTok c]"
| "rxTokens (c # d # ds) =
     (if c = CHR 0x5C then escapedTok d # rxTokens ds
      else if c = CHR ''{'' \<and> isDigit d then [TBad]
      else plainTok c # rxTokens (d # ds))"

definition consItems :: "rxItem list \<Rightarrow> rxItem list option \<Rightarrow> rxItem list option" where
  "consItems xs r = (case r of None \<Rightarrow> None | Some ys \<Rightarrow> Some (xs @ ys))"

fun rxItems :: "rxTok list \<Rightarrow> rxItem list option" where
  "rxItems [] = Some []"
| "rxItems (TBol # r) = consItems [Bol] (rxItems r)"
| "rxItems (TEol # r) = consItems [Eol] (rxItems r)"
| "rxItems (TAtom a # TStar # TQuest # r) = None"
| "rxItems (TAtom a # TPlus # TQuest # r) = None"
| "rxItems (TAtom a # TQuest # TQuest # r) = None"
| "rxItems (TAtom a # TStar # r) = consItems [Star a] (rxItems r)"
| "rxItems (TAtom a # TPlus # r) = consItems [One a, Star a] (rxItems r)"
| "rxItems (TAtom a # TQuest # r) = consItems [Opt a] (rxItems r)"
| "rxItems (TAtom a # r) = consItems [One a] (rxItems r)"
| "rxItems (t # r) = None"

text \<open>The length of the match of the items at the head of the text, if there is one;
  \<open>atStart\<close> says that the text starts at index 0 of the input.\<close>

fun matchHere :: "rxItem list \<Rightarrow> bool \<Rightarrow> string \<Rightarrow> nat option" where
  "matchHere [] atStart s = Some 0"
| "matchHere (Bol # r) atStart s = (if atStart then matchHere r atStart s else None)"
| "matchHere (Eol # r) atStart s = (if s = [] then matchHere r atStart s else None)"
| "matchHere (One a # r) atStart [] = None"
| "matchHere (One a # r) atStart (c # cs) =
     (if atomMatches a c then map_option Suc (matchHere r False cs) else None)"
| "matchHere (Opt a # r) atStart [] = matchHere r atStart []"
| "matchHere (Opt a # r) atStart (c # cs) =
     (if atomMatches a c then
        (case matchHere r False cs of
           Some n \<Rightarrow> Some (Suc n)
         | None \<Rightarrow> matchHere r atStart (c # cs))
      else matchHere r atStart (c # cs))"
| "matchHere (Star a # r) atStart [] = matchHere r atStart []"
| "matchHere (Star a # r) atStart (c # cs) =
     (if atomMatches a c then
        (case matchHere (Star a # r) False cs of
           Some n \<Rightarrow> Some (Suc n)
         | None \<Rightarrow> matchHere r atStart (c # cs))
      else matchHere r atStart (c # cs))"

text \<open>The leftmost match in the rest \<open>s\<close> of the input, which starts at index \<open>i\<close>.\<close>

fun searchFrom :: "rxItem list \<Rightarrow> nat \<Rightarrow> string \<Rightarrow> (nat \<times> string) option" where
  "searchFrom its i [] =
     (case matchHere its (i = 0) [] of Some n \<Rightarrow> Some (i, []) | None \<Rightarrow> None)"
| "searchFrom its i (c # cs) =
     (case matchHere its (i = 0) (c # cs) of
        Some n \<Rightarrow> Some (i, take n (c # cs))
      | None \<Rightarrow> searchFrom its (Suc i) cs)"

definition rxExec :: "string \<Rightarrow> string \<Rightarrow> nat \<Rightarrow> string \<Rightarrow> (nat \<times> string) option" where
  "rxExec src fl lastIndex input =
     (if \<not> set fl \<subseteq> {CHR ''g''} then None
      else case rxItems (rxTokens src) of
             None \<Rightarrow> None
           | Some its \<Rightarrow>
               (let i = (if CHR ''g'' \<in> set fl then lastIndex else 0)
                in if i > length input then None else searchFrom its i (drop i input)))"

definition rxTest :: "string \<Rightarrow> string \<Rightarrow> bool" where
  "rxTest src input = (rxExec src [] 0 input \<noteq> None)"

subsection \<open>The default grammar and the mode constructor\<close>

definition singleQuote :: pid where "singleQuote = 1"
definition doubleQuote :: pid where "doubleQuote = 2"
definition parenthesis :: pid where "parenthesis = 3"
definition bracket :: pid where "bracket = 4"
definition brace :: pid where "brace = 5"
definition code :: pid where "code = 6"
definition templateHeader :: pid where "templateHeader = 7"
definition template :: pid where "template = 8"

definition plainPattern :: IPattern where
  "plainPattern = \<lparr>mode = None, open = None, close = None, escape = None, children = None,
     includePattern = False, patternStyles = None\<rparr>"

definition defaultChildren :: "pid list" where
  "defaultChildren = [singleQuote, doubleQuote, parenthesis, bracket, brace]"

text \<open>The source of \<open>REG_SPACE\<close>: start, any number of white-space characters, end.\<close>

definition REG_SPACE :: string where
  "REG_SPACE = ''^'' @ [CHR 0x5C] @ ''s*$''"

text \<open>The \<open>open\<close> callback of the template pattern.\<close>

definition templateOpen :: "string \<Rightarrow> int \<Rightarrow> ITemplateState \<Rightarrow> int \<times> string option" where
  "templateOpen text from st =
     (let p = indexOf text ''['' from;
          p1 = (if customs st ''justExitTemplate'' \<noteq> Some (JBool True)
                   \<or> (p \<ge> 0 \<and> \<not> rxTest REG_SPACE (textBefore st @ slice text from p))
                then - 1 else p)
      in if p1 \<ge> 0 then (p1, Some ''['') else (- 1, None))"

text \<open>The pattern objects that \<open>createDefaultOptions\<close> builds, by identity.\<close>

definition defaultPatterns :: "string option \<Rightarrow> string option \<Rightarrow> pid \<Rightarrow> IPattern" where
  "defaultPatterns baseMode cMode p =
     (if p = singleQuote then
        plainPattern\<lparr>open := Some (Str [CHR 0x27]), close := Some (Str [CHR 0x27]),
          escape := Some (Str [CHR 0x5C])\<rparr>
      else if p = doubleQuote then
        plainPattern\<lparr>open := Some (Str [CHR 0x22]), close := Some (Str [CHR 0x22]),
          escape := Some (Str [CHR 0x5C])\<rparr>
      else if p = parenthesis then
        plainPattern\<lparr>open := Some (Str ''(''), close := Some (Str '')''),
          children := Some defaultChildren\<rparr>
      else if p = bracket then
        plainPattern\<lparr>open := Some (Str ''[''), close := Some (Str '']''),
          children := Some defaultChildren\<rparr>
      else if p = brace then
        plainPattern\<lparr>open := Some (Str ''{''), close := Some (Str ''}''),
          children := Some defaultChildren\<rparr>
      else if p = code then
        plainPattern\<lparr>mode := cMode, open := Some (Rx \<lparr>source = ''#{'' @ [CHR 0x5C] @ ''s*:?'', flags = []\<rparr>),
          close := Some (Str ''}''), children := Some defaultChildren,
          patternStyles := Some (Some ''bracket cxj-code open'', Some ''bracket cxj-code close'')\<rparr>
      else if p = templateHeader then
        plainPattern\<lparr>mode := Some ''cxj-template-flag'', open := Some (Str ''#[''),
          close := Some (Str '']''),
          patternStyles := Some (Some ''bracket cxj-template cxj-template-flag open'',
                                 Some ''bracket cxj-template cxj-template-flag close'')\<rparr>
      else if p = template then
        plainPattern\<lparr>mode := baseMode, open := Some (Fn templateOpen),
          close := Some (Str '']''), children := Some (code # defaultChildren),
          patternStyles := Some (Some ''bracket cxj-template open'',
                                 Some ''bracket cxj-template close'')\<rparr>
      else plainPattern)"

definition createDefaultOptions :: "string option \<Rightarrow> string option \<Rightarrow> ITemplateOptions" where
  "createDefaultOptions baseMode cMode =
     \<lparr>mode = baseMode, open = None, close = None, escape = None,
      children = Some [singleQuote, doubleQuote, code, templateHeader, template],
      includePattern = False, patternStyles = None,
      codeMode = cMode,
      beforeEnter =
        Some (\<lambda>st info. st\<lparr>customs := (customs st)(''justExitTemplate'' \<mapsto> JBool False)\<rparr>),
      afterEnter = None,
      beforeExit = None,
      afterExit =
        Some (\<lambda>st info.
                if pattern info = template \<or> pattern info = templateHeader
                then st\<lparr>customs := (customs st)(''justExitTemplate'' \<mapsto> JBool True)\<rparr>
                else st)\<rparr>"

text \<open>The configuration that the mode constructor builds from the caller's
  \<open>parserConfig\<close>: \<open>mode\<close>, \<open>codeMode\<close>, \<open>open\<close> and \<open>close\<close> are taken out of it, the
  rest overrides the default options, and the two default hooks run before the caller's.\<close>

definition finalParserConfig :: "ITemplateOptions \<Rightarrow> ITemplateOptions" where
  "finalParserConfig parserConfig =
     (let defaultOptions = createDefaultOptions (mode parserConfig) (codeMode parserConfig)
      in \<lparr>mode = mode defaultOptions, open = None, close = None,
          escape = escape parserConfig,
          children = (case children parserConfig of
                        None \<Rightarrow> children defaultOptions
                      | Some kids \<Rightarrow> Some kids),
          includePattern = includePattern parserConfig,
          patternStyles = patternStyles parserConfig,
          codeMode = codeMode defaultOptions,
          beforeEnter =
            Some (\<lambda>st info. runHook (beforeEnter parserConfig)
                              (runHook (beforeEnter defaultOptions) st info) info),
          afterEnter = afterEnter parserConfig,
          beforeExit = beforeExit parserConfig,
          afterExit =
            Some (\<lambda>st info. runHook (afterExit parserConfig)
                              (runHook (afterExit defaultOptions) st info) info)\<rparr>)"

text \<open>The mode \<open>cxj-template-flag\<close> that the module defines for the header of a
  template: white space has no style; a word is a keyword when it is in \<open>FLAG_KEYWORDS\<close>
  (the text of the token is the line from the start of the token to the cursor); any other
  character is passed over. The mode has no start state and no copy of its own: the host
  gives it the state \<open>true\<close>.\<close>

definition FLAG_KEYWORDS :: "string list" where
  "FLAG_KEYWORDS = [''if'']"

definition flagToken :: "StringStream \<Rightarrow> jsval \<Rightarrow> string option \<times> StringStream \<times> jsval" where
  "flagToken stream sub =
     (let s = sstring stream; p = nat (spos stream);
          spaces = takeWhile isSpace (drop p s)
      in if spaces \<noteq> [] then (None, stream\<lparr>spos := int (p + length spaces)\<rparr>, sub)
         else
           (let word = takeWhile isWord (drop p s)
            in if word \<noteq> [] then
                 (let stream1 = stream\<lparr>spos := int (p + length word)\<rparr>;
                      matched = slice s (sstart stream1) (spos stream1)
                  in (if matched \<in> set FLAG_KEYWORDS
                      then Some (''keyword cxj-template-flag-keyword cxj-template-flag-keyword-''
                                 @ matched)
                      else None,
                      stream1, sub))
               else (None, stream\<lparr>spos := int (min (Suc p) (length s))\<rparr>, sub)))"

definition flagMode :: Mode where
  "flagMode = \<lparr>mtoken = Some flagToken, mstartState = (\<lambda>i. JBool True),
     mcopyState = (\<lambda>v. v)\<rparr>"

text \<open>The pattern objects of a mode instance: the default ones, and the caller's own
  under other identities.\<close>

definition modeRuntime :: "Runtime \<Rightarrow> ITemplateOptions \<Rightarrow> Runtime" where
  "modeRuntime R parserConfig =
     R\<lparr>patternObjects :=
         (\<lambda>p. if 1 \<le> p \<and> p \<le> 8
              then defaultPatterns (mode parserConfig) (codeMode parserConfig) p
              else patternObjects R p)\<rparr>"

definition startState :: "Runtime \<Rightarrow> ITemplateOptions \<Rightarrow> ITemplateState" where
  "startState R final =
     \<lparr>textBefore = [], patternContext = [rootId],
      stateContext =
        (if modeTruthy (mode final)
         then [\<lparr>ctxMode = getMode R (the (mode final)),
                 ctxState = mstartState (getMode R (the (mode final))) None\<rparr>]
         else []),
      useRoot = False, start = False, layers = None,
      regExpCache = Map.empty, customs = Map.empty\<rparr>"

text \<open>A run of the scanner over successive lines, as the host drives it through \<open>token\<close>
  at the start of each line.\<close>

fun scanLines ::
  "Runtime \<Rightarrow> ITemplateOptions \<Rightarrow> ITemplateState \<Rightarrow> (string \<times> int) list
     \<Rightarrow> (error + ITemplateState) option" where
  "scanLines R cfg st [] = Some (Inr st)"
| "scanLines R cfg st ((ln, offset) # rest) =
     (case createLayers R cfg (st\<lparr>start := True, useRoot := False\<rparr>) ln offset of
        None \<Rightarrow> None
      | Some (Inl e) \<Rightarrow> Some (Inl e)
      | Some (Inr (ls, st1)) \<Rightarrow> scanLines R cfg (st1\<lparr>layers := Some ls\<rparr>) rest)"

subsection \<open>Notions used in the statements\<close>

text \<open>Every occurrence of the literal \<open>c\<close> at or after the offset is immediately
  preceded by the literal escape \<open>e\<close>.\<close>

definition allEscaped :: "string \<Rightarrow> int \<Rightarrow> string \<Rightarrow> string \<Rightarrow> bool" where
  "allEscaped ln offset c e =
     (\<forall>q \<in> set [clampPos ln offset ..< length ln].
        take (length c) (drop q ln) = c \<longrightarrow> e \<noteq> [] \<and> endsWith ln e (int q))"

text \<open>The results that the loop over the children obtains from \<open>matchWithEscape\<close>, child
  by child in declaration order: the child, \<open>tmpPos\<close> and \<open>tmpMatched\<close>.\<close>

fun openerMatches ::
  "Runtime \<Rightarrow> ITemplateOptions \<Rightarrow> string \<Rightarrow> int \<Rightarrow> PatternLike option \<Rightarrow> pid list
     \<Rightarrow> ITemplateState \<Rightarrow> ((pid \<times> int \<times> string option) list \<times> ITemplateState) option" where
  "openerMatches R cfg ln offset esc [] st = Some ([], st)"
| "openerMatches R cfg ln offset esc (child # rest) st =
     (case open (getPattern R cfg child) of
        None \<Rightarrow> openerMatches R cfg ln offset esc rest st
      | Some opn \<Rightarrow>
          if \<not> truthy opn then openerMatches R cfg ln offset esc rest st
          else (case matchWithEscape R ln offset opn esc st of
                  None \<Rightarrow> None
                | Some ((p, m), st1) \<Rightarrow>
                    (case openerMatches R cfg ln offset esc rest st1 of
                       None \<Rightarrow> None
                     | Some (cands, st2) \<Rightarrow> Some ((child, p, m) # cands, st2))))"

subsection \<open>Instances for concrete runs\<close>

definition nullMode :: Mode where
  "nullMode = \<lparr>mtoken = None, mstartState = (\<lambda>i. JNull), mcopyState = (\<lambda>v. v)\<rparr>"

text \<open>The runtime of the concrete runs: the engine of the model, no pattern objects, and
  a registry of modes that holds the module's \<open>cxj-template-flag\<close> and gives a mode
  without a tokenizer for any other name.\<close>

definition exampleRuntime :: Runtime where
  "exampleRuntime = \<lparr>regexExec = rxExec, patternObjects = (\<lambda>p. plainPattern),
     getMode = (\<lambda>m. if m = ''cxj-template-flag'' then flagMode else nullMode),
     indentation = (\<lambda>stream. 0)\<rparr>"

text \<open>The options of the demonstration: base mode \<open>sql\<close>, code mode \<open>groovy\<close>.\<close>

definition demoOptions :: ITemplateOptions where
  "demoOptions = \<lparr>mode = Some ''sql'', open = None, close = None, escape = None,
     children = None, includePattern = False, patternStyles = None,
     codeMode = Some ''groovy'', beforeEnter = None, afterEnter = None, beforeExit = None,
     afterExit = None\<rparr>"

definition demoRuntime :: Runtime where
  "demoRuntime = modeRuntime exampleRuntime demoOptions"

definition demoConfig :: ITemplateOptions where
  "demoConfig = finalParserConfig demoOptions"

definition demoState :: ITemplateState where
  "demoState = startState demoRuntime demoConfig"

text \<open>The demonstration's state inside a double-quoted region.\<close>

definition inDoubleQuote :: ITemplateState where
  "inDoubleQuote = demoState\<lparr>patternContext := [doubleQuote, rootId]\<rparr>"

text \<open>A grammar in which a closer and openers meet at one position: pattern 5 closes with
  \<open>b\<close> and pattern 4 with \<open>ab\<close>; both have the children 2 and 3, which open with
  \<open>a\<close> and \<open>ab\<close>.\<close>

definition tieRuntime :: Runtime where
  "tieRuntime = exampleRuntime\<lparr>patternObjects :=
     (\<lambda>p. if p = 5 then plainPattern\<lparr>close := Some (Str ''b''), children := Some [2, 3]\<rparr>
          else if p = 2 then plainPattern\<lparr>open := Some (Str ''a'')\<rparr>
          else if p = 3 then plainPattern\<lparr>open := Some (Str ''ab'')\<rparr>
          else if p = 4 then plainPattern\<lparr>close := Some (Str ''ab''), children := Some [2, 3]\<rparr>
          else plainPattern)\<rparr>"



text \<open>A specification makes progress on the states that satisfy \<open>I\<close>: whenever it matches
  in forward search, the match is not empty, starts at or after the search position and
  ends within the line; and the state after the match satisfies \<open>I\<close> again.\<close>

definition progressiveIn :: "Runtime \<Rightarrow> (ITemplateState \<Rightarrow> bool) \<Rightarrow> PatternLike \<Rightarrow> bool" where
  "progressiveIn R I spec =
     (\<forall>ln position st. I st \<longrightarrow>
        (case match R ln position M_DEFAULT spec st of
           ((p, m), st') \<Rightarrow>
             I st' \<and> (p = - 1 \<or> (0 \<le> p \<and> position \<le> p \<and> 0 < matchedLength m
                                     \<and> p + matchedLength m \<le> int (length ln)))))"

definition progressiveSpec ::
  "Runtime \<Rightarrow> (ITemplateState \<Rightarrow> bool) \<Rightarrow> PatternLike option \<Rightarrow> bool" where
  "progressiveSpec R I spec =
     (case spec of None \<Rightarrow> True | Some s \<Rightarrow> truthy s \<longrightarrow> progressiveIn R I s)"

text \<open>The suffix check of an escape keeps \<open>I\<close>.\<close>

definition escapeKeeps ::
  "Runtime \<Rightarrow> (ITemplateState \<Rightarrow> bool) \<Rightarrow> PatternLike option \<Rightarrow> bool" where
  "escapeKeeps R I esc =
     (case esc of
        None \<Rightarrow> True
      | Some e \<Rightarrow> (\<forall>ln position st. I st \<longrightarrow> I (snd (match R ln position M_PREFIX e st))))"

definition hookKeeps :: "(ITemplateState \<Rightarrow> bool) \<Rightarrow> Callback option \<Rightarrow> bool" where
  "hookKeeps I h = (case h of None \<Rightarrow> True | Some f \<Rightarrow> (\<forall>st info. I st \<longrightarrow> I (f st info)))"

text \<open>\<open>I\<close> is an invariant of the scan under which every opener and closer of the grammar
  makes progress: the matcher and the hooks keep it, and it does not depend on
  \<open>textBefore\<close> and the pattern-context stack.\<close>

definition progressiveGrammar ::
  "Runtime \<Rightarrow> ITemplateOptions \<Rightarrow> (ITemplateState \<Rightarrow> bool) \<Rightarrow> bool" where
  "progressiveGrammar R cfg I =
     ((\<forall>k. progressiveSpec R I (open (getPattern R cfg k))
           \<and> progressiveSpec R I (close (getPattern R cfg k))
           \<and> escapeKeeps R I (escape (getPattern R cfg k)))
      \<and> hookKeeps I (beforeEnter cfg) \<and> hookKeeps I (afterEnter cfg)
      \<and> hookKeeps I (beforeExit cfg) \<and> hookKeeps I (afterExit cfg)
      \<and> (\<forall>st tb pc. I st \<longrightarrow> I (st\<lparr>textBefore := tb, patternContext := pc\<rparr>)))"

text \<open>A grammar with an opener that matches the empty text: pattern 9 opens with
  \<open>/x*/\<close> and has itself as its child; it is the only child of the root.\<close>

definition loopRuntime :: Runtime where
  "loopRuntime = exampleRuntime\<lparr>patternObjects :=
     (\<lambda>p. if p = 9
          then plainPattern\<lparr>open := Some (Rx \<lparr>source = ''x*'', flags = []\<rparr>),
                 children := Some [9]\<rparr>
          else plainPattern)\<rparr>"

definition loopConfig :: ITemplateOptions where
  "loopConfig = finalParserConfig (demoOptions\<lparr>children := Some [9]\<rparr>)"

text \<open>The states of that scan: the current pattern is the root or pattern 9, and the
  cache entry of the opener is absent or right.\<close>

definition loopStates :: "ITemplateState \<Rightarrow> bool" where
  "loopStates st =
     ((case patternContext st of [] \<Rightarrow> False | cur # rest \<Rightarrow> cur = rootId \<or> cur = 9)
      \<and> (regExpCache st (cacheKey ''x*'' ''g'') = None
           \<or> regExpCache st (cacheKey ''x*'' ''g'') = Some \<lparr>source = ''x*'', flags = ''g''\<rparr>))"

text \<open>The source of the opener of the code pattern, and the states in which the cache
  entry of its forward form is absent or right.\<close>

definition codeOpenSource :: string where
  "codeOpenSource = ''#{'' @ [CHR 0x5C] @ ''s*:?''"

definition codeCacheOk :: "ITemplateState \<Rightarrow> bool" where
  "codeCacheOk st =
     (regExpCache st (cacheKey codeOpenSource ''g'') = None
      \<or> regExpCache st (cacheKey codeOpenSource ''g'')
           = Some \<lparr>source = codeOpenSource, flags = ''g''\<rparr>)"

text \<open>Only the regular-expression cache differs between the two states, and it has grown.\<close>

definition cacheGrows :: "ITemplateState \<Rightarrow> ITemplateState \<Rightarrow> bool" where
  "cacheGrows st st' =
     (st' = st\<lparr>regExpCache := regExpCache st'\<rparr> \<and> regExpCache st \<subseteq>\<^sub>m regExpCache st')"

text \<open>The hooks leave the pattern-context stack as it is.\<close>

definition hooksKeepStack :: "ITemplateOptions \<Rightarrow> bool" where
  "hooksKeepStack cfg =
     (\<forall>h \<in> set [beforeEnter cfg, afterEnter cfg, beforeExit cfg, afterExit cfg].
        case h of None \<Rightarrow> True
        | Some f \<Rightarrow> (\<forall>st info. patternContext (f st info) = patternContext st))"

text \<open>The stack is not empty and the root is at its bottom.\<close>

definition rootAtBottom :: "ITemplateState \<Rightarrow> bool" where
  "rootAtBottom st = (patternContext st \<noteq> [] \<and> last (patternContext st) = rootId)"

text \<open>A callback specification does not read the regular-expression cache, and a hook
  neither reads nor writes it (the built-in callbacks read and write \<open>customs\<close> and
  \<open>textBefore\<close> only).\<close>

definition specIgnoresCache :: "PatternLike option \<Rightarrow> bool" where
  "specIgnoresCache spec =
     (case spec of
        Some (Fn f) \<Rightarrow> (\<forall>ln p st c. f ln p (st\<lparr>regExpCache := c\<rparr>) = f ln p st)
      | _ \<Rightarrow> True)"

definition hookIgnoresCache :: "Callback option \<Rightarrow> bool" where
  "hookIgnoresCache h =
     (case h of
        None \<Rightarrow> True
      | Some f \<Rightarrow> (\<forall>st info c. f (st\<lparr>regExpCache := c\<rparr>) info = (f st info)\<lparr>regExpCache := c\<rparr>))"

definition cacheBlind :: "Runtime \<Rightarrow> ITemplateOptions \<Rightarrow> bool" where
  "cacheBlind R cfg =
     ((\<forall>k. specIgnoresCache (open (getPattern R cfg k))
           \<and> specIgnoresCache (close (getPattern R cfg k))
           \<and> specIgnoresCache (escape (getPattern R cfg k)))
      \<and> hookIgnoresCache (beforeEnter cfg) \<and> hookIgnoresCache (afterEnter cfg)
      \<and> hookIgnoresCache (beforeExit cfg) \<and> hookIgnoresCache (afterExit cfg))"

text \<open>The cache \<open>c\<close> lies between the cache of the state and the cache \<open>cf\<close>.\<close>

definition cacheBetween ::
  "ITemplateState \<Rightarrow> (string \<rightharpoonup> RegExp) \<Rightarrow> (string \<rightharpoonup> RegExp) \<Rightarrow> bool" where
  "cacheBetween st c cf = (regExpCache st \<subseteq>\<^sub>m c \<and> c \<subseteq>\<^sub>m cf)"

text \<open>The line \<open>'a'\<close> at its start.\<close>

definition quotedLine :: StringStream where
  "quotedLine = \<lparr>sstring = [CHR 0x27, CHR ''a'', CHR 0x27], spos = 0, sstart = 0\<rparr>"

subsection \<open>The state as objects in a store\<close>

text \<open>
  For the copy of a state, the identity of the objects matters: the links of the two
  stacks, the \<open>customs\<close> object, the state objects of the sub-modes and the array of layers
  are objects in a store, referred to by address. A state object holds the addresses; the
  store allocates addresses in increasing order. The object of a sub-mode state and the
  \<open>customs\<close> object hold a value.
\<close>

type_synonym addr = nat

record PatternLink =
  linkPre :: "addr option"
  linkPattern :: pid

record StateLink =
  slinkPre :: "addr option"
  slinkMode :: Mode
  slinkState :: addr

record Store =
  nextAddr :: addr
  patternLinks :: "addr \<Rightarrow> PatternLink"
  stateLinks :: "addr \<Rightarrow> StateLink"
  modeStates :: "addr \<Rightarrow> jsval"
  customsObjects :: "addr \<Rightarrow> (string \<rightharpoonup> jsval)"
  layerArrays :: "addr \<Rightarrow> ILayer list"

record StateObject =
  oTextBefore :: string
  oPatternContext :: "addr option"
  oStateContext :: "addr option"
  oUseRoot :: bool
  oStart :: bool
  oLayers :: "addr option"
  oRegExpCache :: addr
  oCustoms :: addr

definition newPatternLink :: "Store \<Rightarrow> PatternLink \<Rightarrow> addr \<times> Store" where
  "newPatternLink h l =
     (nextAddr h, h\<lparr>nextAddr := Suc (nextAddr h),
                    patternLinks := (patternLinks h)(nextAddr h := l)\<rparr>)"

definition newStateLink :: "Store \<Rightarrow> StateLink \<Rightarrow> addr \<times> Store" where
  "newStateLink h l =
     (nextAddr h, h\<lparr>nextAddr := Suc (nextAddr h),
                    stateLinks := (stateLinks h)(nextAddr h := l)\<rparr>)"

definition newModeState :: "Store \<Rightarrow> jsval \<Rightarrow> addr \<times> Store" where
  "newModeState h v =
     (nextAddr h, h\<lparr>nextAddr := Suc (nextAddr h),
                    modeStates := (modeStates h)(nextAddr h := v)\<rparr>)"

definition newCustoms :: "Store \<Rightarrow> (string \<rightharpoonup> jsval) \<Rightarrow> addr \<times> Store" where
  "newCustoms h v =
     (nextAddr h, h\<lparr>nextAddr := Suc (nextAddr h),
                    customsObjects := (customsObjects h)(nextAddr h := v)\<rparr>)"

definition newLayerArray :: "Store \<Rightarrow> ILayer list \<Rightarrow> addr \<times> Store" where
  "newLayerArray h v =
     (nextAddr h, h\<lparr>nextAddr := Suc (nextAddr h),
                    layerArrays := (layerArrays h)(nextAddr h := v)\<rparr>)"

text \<open>\<open>copyPatternContext\<close>: a new link for every link, with the same pattern. The
  recursion follows the \<open>pre\<close> references.\<close>

partial_function (option) copyPatternContext ::
  "Store \<Rightarrow> addr option \<Rightarrow> (addr option \<times> Store) option" where
  "copyPatternContext h context =
     (case context of
        None \<Rightarrow> Some (None, h)
      | Some a \<Rightarrow>
          do {
            (pre2, h1) \<leftarrow> copyPatternContext h (linkPre (patternLinks h a));
            (case newPatternLink h1
                    \<lparr>linkPre = pre2, linkPattern = linkPattern (patternLinks h1 a)\<rparr> of
               (b, h2) \<Rightarrow> Some (Some b, h2))
          })"

declare copyPatternContext.simps [code]

text \<open>The copy of a sub-mode state by the host (\<open>CodeMirror.copyState\<close>) is taken to give
  a new state object that holds the sub-mode's copy of the old one.\<close>

definition copyModeState :: "Store \<Rightarrow> Mode \<Rightarrow> addr \<Rightarrow> addr \<times> Store" where
  "copyModeState h m a = newModeState h (mcopyState m (modeStates h a))"

text \<open>\<open>copyStateContext\<close>: a new link for every link, with the same mode and the copy of
  the sub-mode state.\<close>

partial_function (option) copyStateContext ::
  "Store \<Rightarrow> addr option \<Rightarrow> (addr option \<times> Store) option" where
  "copyStateContext h context =
     (case context of
        None \<Rightarrow> Some (None, h)
      | Some a \<Rightarrow>
          do {
            (pre2, h1) \<leftarrow> copyStateContext h (slinkPre (stateLinks h a));
            (case copyModeState h1 (slinkMode (stateLinks h1 a)) (slinkState (stateLinks h1 a)) of
               (v, h2) \<Rightarrow>
                 (case newStateLink h2
                         \<lparr>slinkPre = pre2, slinkMode = slinkMode (stateLinks h2 a),
                          slinkState = v\<rparr> of
                    (b, h3) \<Rightarrow> Some (Some b, h3)))
          })"

declare copyStateContext.simps [code]

text \<open>\<open>cloneDeep\<close> of the library is taken to give a new object with the same content that
  shares nothing with the original.\<close>

definition cloneDeep :: "Store \<Rightarrow> addr \<Rightarrow> addr \<times> Store" where
  "cloneDeep h a = newCustoms h (customsObjects h a)"

text \<open>\<open>copyState\<close> of the mode: the fields of the state are copied (the cache is the same
  object), then \<open>layers\<close>, \<open>patternContext\<close>, \<open>stateContext\<close> and \<open>customs\<close> are replaced
  by copies.\<close>

definition copyState :: "Store \<Rightarrow> StateObject \<Rightarrow> (StateObject \<times> Store) option" where
  "copyState h s =
     (case newLayerArray h (case oLayers s of None \<Rightarrow> [] | Some a \<Rightarrow> layerArrays h a) of
        (ls, h1) \<Rightarrow>
          (case copyPatternContext h1 (oPatternContext s) of
             None \<Rightarrow> None
           | Some (pc, h2) \<Rightarrow>
               (case copyStateContext h2 (oStateContext s) of
                  None \<Rightarrow> None
                | Some (sc, h3) \<Rightarrow>
                    (case cloneDeep h3 (oCustoms s) of
                       (cu, h4) \<Rightarrow>
                         Some (s\<lparr>oLayers := Some ls, oPatternContext := pc,
                                  oStateContext := sc, oCustoms := cu\<rparr>, h4)))))"

text \<open>What tokenizing does to the objects of a state: it pushes and pops pattern-context
  links and state-context links, writes into the \<open>customs\<close> object, and the tokenizer of
  the active sub-mode changes its state object in place.\<close>

datatype stateOp =
    PushPattern pid
  | PopPattern
  | PushState Mode jsval
  | PopState
  | SetCustom string jsval
  | SetModeState jsval

fun applyOp :: "Store \<Rightarrow> StateObject \<Rightarrow> stateOp \<Rightarrow> error + (StateObject \<times> Store)" where
  "applyOp h s (PushPattern p) =
     (case newPatternLink h \<lparr>linkPre = oPatternContext s, linkPattern = p\<rparr> of
        (a, h1) \<Rightarrow> Inr (s\<lparr>oPatternContext := Some a\<rparr>, h1))"
| "applyOp h s PopPattern =
     (case oPatternContext s of
        None \<Rightarrow> Inl TypeError
      | Some a \<Rightarrow> Inr (s\<lparr>oPatternContext := linkPre (patternLinks h a)\<rparr>, h))"
| "applyOp h s (PushState m v) =
     (case newModeState h v of
        (c, h1) \<Rightarrow>
          (case newStateLink h1 \<lparr>slinkPre = oStateContext s, slinkMode = m, slinkState = c\<rparr> of
             (a, h2) \<Rightarrow> Inr (s\<lparr>oStateContext := Some a\<rparr>, h2)))"
| "applyOp h s PopState =
     (case oStateContext s of
        None \<Rightarrow> Inl TypeError
      | Some a \<Rightarrow> Inr (s\<lparr>oStateContext := slinkPre (stateLinks h a)\<rparr>, h))"
| "applyOp h s (SetCustom key v) =
     Inr (s, h\<lparr>customsObjects :=
                 (customsObjects h)(oCustoms s := (customsObjects h (oCustoms s))(key \<mapsto> v))\<rparr>)"
| "applyOp h s (SetModeState v) =
     (case oStateContext s of
        None \<Rightarrow> Inr (s, h)
      | Some a \<Rightarrow> Inr (s, h\<lparr>modeStates := (modeStates h)(slinkState (stateLinks h a) := v)\<rparr>))"

fun applyOps :: "Store \<Rightarrow> StateObject \<Rightarrow> stateOp list \<Rightarrow> error + (StateObject \<times> Store)" where
  "applyOps h s [] = Inr (s, h)"
| "applyOps h s (op # ops) =
     (case applyOp h s op of Inl e \<Rightarrow> Inl e | Inr (s1, h1) \<Rightarrow> applyOps h1 s1 ops)"

text \<open>The pattern-context stack that starts at a reference: the addresses of its links and
  its patterns, the top first.\<close>

inductive patternStackAt :: "Store \<Rightarrow> addr option \<Rightarrow> addr list \<Rightarrow> pid list \<Rightarrow> bool" where
  "patternStackAt h None [] []"
| "patternStackAt h (linkPre (patternLinks h a)) xs ps \<Longrightarrow>
   patternStackAt h (Some a) (a # xs) (linkPattern (patternLinks h a) # ps)"

text \<open>The embedded-mode stack that starts at a reference: the addresses of its links and
  of its state objects, and the modes with the values of their states, the top first.\<close>

inductive stateStackAt ::
  "Store \<Rightarrow> addr option \<Rightarrow> addr list \<Rightarrow> (Mode \<times> jsval) list \<Rightarrow> bool" where
  "stateStackAt h None [] []"
| "stateStackAt h (slinkPre (stateLinks h a)) bs ms \<Longrightarrow>
   stateStackAt h (Some a) (a # slinkState (stateLinks h a) # bs)
     ((slinkMode (stateLinks h a), modeStates h (slinkState (stateLinks h a))) # ms)"

text \<open>What a state object stands for in a store: its pattern-context stack, its
  embedded-mode stack and its customs; the objects it is made of have their addresses in
  the set \<open>A\<close>. The links and state objects of the embedded-mode stack are distinct
  objects (\<open>pushStateContext\<close> makes a new link and a new state for every entry).\<close>

definition hasView ::
  "Store \<Rightarrow> StateObject \<Rightarrow> addr set \<Rightarrow> pid list \<Rightarrow> (Mode \<times> jsval) list
     \<Rightarrow> (string \<rightharpoonup> jsval) \<Rightarrow> bool" where
  "hasView h s A ps ms cu =
     (\<exists>xs bs. patternStackAt h (oPatternContext s) xs ps
        \<and> stateStackAt h (oStateContext s) bs ms \<and> distinct bs
        \<and> customsObjects h (oCustoms s) = cu
        \<and> set xs \<union> set bs \<union> {oCustoms s} \<subseteq> A)"

text \<open>Two stores hold the same objects at the addresses of a set.\<close>

definition agreeOn :: "addr set \<Rightarrow> Store \<Rightarrow> Store \<Rightarrow> bool" where
  "agreeOn A h h' =
     (\<forall>a \<in> A. patternLinks h' a = patternLinks h a \<and> stateLinks h' a = stateLinks h a
        \<and> modeStates h' a = modeStates h a \<and> customsObjects h' a = customsObjects h a)"

text \<open>Tokenizing goes on with two states in one store: every operation is on the second
  state (the flag is true) or on the first.\<close>

fun applyBoth ::
  "Store \<Rightarrow> StateObject \<Rightarrow> StateObject \<Rightarrow> (bool \<times> stateOp) list
     \<Rightarrow> error + (StateObject \<times> StateObject \<times> Store)" where
  "applyBoth h s c [] = Inr (s, c, h)"
| "applyBoth h s c ((onSecond, op) # ops) =
     (if onSecond
      then (case applyOp h c op of Inl e \<Rightarrow> Inl e | Inr (c1, h1) \<Rightarrow> applyBoth h1 s c1 ops)
      else (case applyOp h s op of Inl e \<Rightarrow> Inl e | Inr (s1, h1) \<Rightarrow> applyBoth h1 s1 c ops))"

definition opsOn :: "bool \<Rightarrow> (bool \<times> stateOp) list \<Rightarrow> stateOp list" where
  "opsOn b ops = map snd (filter (\<lambda>t. fst t = b) ops)"

text \<open>What an operation does to the stacks and the customs that a state stands for;
  \<open>None\<close> when the operation raises.\<close>

fun viewOp ::
  "pid list \<Rightarrow> (Mode \<times> jsval) list \<Rightarrow> (string \<rightharpoonup> jsval) \<Rightarrow> stateOp
     \<Rightarrow> (pid list \<times> (Mode \<times> jsval) list \<times> (string \<rightharpoonup> jsval)) option" where
  "viewOp ps ms cu (PushPattern p) = Some (p # ps, ms, cu)"
| "viewOp ps ms cu PopPattern = (case ps of [] \<Rightarrow> None | p # r \<Rightarrow> Some (r, ms, cu))"
| "viewOp ps ms cu (PushState m v) = Some (ps, (m, v) # ms, cu)"
| "viewOp ps ms cu PopState = (case ms of [] \<Rightarrow> None | e # r \<Rightarrow> Some (ps, r, cu))"
| "viewOp ps ms cu (SetCustom key v) = Some (ps, ms, cu(key \<mapsto> v))"
| "viewOp ps ms cu (SetModeState v) =
     (case ms of [] \<Rightarrow> Some (ps, ms, cu) | e # r \<Rightarrow> Some (ps, (fst e, v) # r, cu))"

text \<open>The copy that a sub-mode makes of its state, for every entry of the embedded-mode
  stack.\<close>

definition copiedStates :: "(Mode \<times> jsval) list \<Rightarrow> (Mode \<times> jsval) list" where
  "copiedStates ms = map (\<lambda>(m, v). (m, mcopyState m v)) ms"

text \<open>A store with a state inside a code region: the pattern-context stack holds \<open>code\<close>
  over the root, the embedded-mode stack holds one mode, and \<open>customs\<close> holds the flag of
  the built-in callbacks.\<close>

definition exampleStore :: Store where
  "exampleStore =
     \<lparr>nextAddr = 8,
      patternLinks = (\<lambda>a. if a = 3 then \<lparr>linkPre = Some 2, linkPattern = code\<rparr>
                           else \<lparr>linkPre = None, linkPattern = rootId\<rparr>),
      stateLinks = (\<lambda>a. \<lparr>slinkPre = None, slinkMode = nullMode, slinkState = 5\<rparr>),
      modeStates = (\<lambda>a. JNull),
      customsObjects = (\<lambda>a. if a = 6 then [''justExitTemplate'' \<mapsto> JBool True] else Map.empty),
      layerArrays = (\<lambda>a. [])\<rparr>"

definition exampleState :: StateObject where
  "exampleState =
     \<lparr>oTextBefore = [], oPatternContext = Some 3, oStateContext = Some 4, oUseRoot = False,
      oStart = False, oLayers = None, oRegExpCache = 7, oCustoms = 6\<rparr>"

definition exampleOps :: "stateOp list" where
  "exampleOps = [PopPattern, SetCustom ''justExitTemplate'' (JBool False),
                 SetModeState (JNum 1), PopState, PushPattern bracket]"

subsection \<open>Notions of the statements on the matcher, the scanner and the dispatcher\<close>

text \<open>The occurrences of the literal \<open>c\<close> that the loop of \<open>matchWithEscape\<close> comes to when
  it skips every one of them: the first one at or after the position, then the first one at
  or after the end of the one before; -1 from the point on where there is none.\<close>

fun occurrence :: "string \<Rightarrow> string \<Rightarrow> int \<Rightarrow> nat \<Rightarrow> int" where
  "occurrence ln c position 0 = indexOf ln c position"
| "occurrence ln c position (Suc i) =
     (if occurrence ln c position i = - 1 then - 1
      else indexOf ln c (occurrence ln c position i + int (length c)))"
text \<open>Every match of the specification found in forward search from a position at or
  after the offset, in a state that satisfies \<open>I\<close>, is escaped: the escape check at the
  position of the match holds.\<close>

definition allMatchesEscaped ::
  "Runtime \<Rightarrow> (ITemplateState \<Rightarrow> bool) \<Rightarrow> string \<Rightarrow> int \<Rightarrow> PatternLike \<Rightarrow> PatternLike option
     \<Rightarrow> bool" where
  "allMatchesEscaped R I ln offset spec esc =
     (\<forall>position st. I st \<and> offset \<le> position \<longrightarrow>
        (case match R ln position M_DEFAULT spec st of
           ((p, m), st') \<Rightarrow> p \<noteq> - 1 \<longrightarrow> fst (checkEscape R st' ln p esc)))"

text \<open>A specification that is absent or falsy, or that makes progress and has all its
  matches escaped.\<close>

definition exhaustedSpec ::
  "Runtime \<Rightarrow> (ITemplateState \<Rightarrow> bool) \<Rightarrow> string \<Rightarrow> int \<Rightarrow> PatternLike option
     \<Rightarrow> PatternLike option \<Rightarrow> bool" where
  "exhaustedSpec R I ln offset spec esc =
     (case spec of
        None \<Rightarrow> True
      | Some s \<Rightarrow> truthy s \<longrightarrow> progressiveIn R I s \<and> allMatchesEscaped R I ln offset s esc)"

text \<open>The closer of the pattern and the openers of its children are exhausted, with the
  escape of the pattern.\<close>

definition exhaustedAt ::
  "Runtime \<Rightarrow> ITemplateOptions \<Rightarrow> (ITemplateState \<Rightarrow> bool) \<Rightarrow> string \<Rightarrow> int \<Rightarrow> pid \<Rightarrow> bool" where
  "exhaustedAt R cfg I ln offset cur =
     (let pat = getPattern R cfg cur
      in escapeKeeps R I (escape pat)
         \<and> exhaustedSpec R I ln offset (close pat) (escape pat)
         \<and> list_all (\<lambda>k. exhaustedSpec R I ln offset (open (getPattern R cfg k)) (escape pat))
              (case children pat of None \<Rightarrow> [] | Some kids \<Rightarrow> kids))"
text \<open>States of the grammar of \<open>tieRuntime\<close> inside pattern 4 and inside pattern 5.\<close>

definition inPattern4 :: ITemplateState where
  "inPattern4 = demoState\<lparr>patternContext := [4, rootId]\<rparr>"

definition inPattern5 :: ITemplateState where
  "inPattern5 = demoState\<lparr>patternContext := [5, rootId]\<rparr>"
text \<open>The line \<open>'a'\<close> at its closing quote, and the demonstration's state with the
  closing layer of the single quote as first layer.\<close>

definition atClosingQuote :: StringStream where
  "atClosingQuote = quotedLine\<lparr>spos := 2, sstart := 2\<rparr>"

definition atCloseLayer :: ITemplateState where
  "atCloseLayer = demoState\<lparr>start := True, layers := Some
     [\<lparr>pos = 2, matched = Some [CHR 0x27], isOpen = False, prePattern = singleQuote,
       nextPattern = rootId\<rparr>]\<rparr>"

section \<open>Properties\<close>

subsection \<open>String search\<close>

lemma findSub_Some:
  "findSub p s = Some k \<Longrightarrow>
     k + length p \<le> length s \<and> take (length p) (drop k s) = p
     \<and> (\<forall>j<k. take (length p) (drop j s) \<noteq> p)"
proof (induction s arbitrary: k)
  case Nil
  then show ?case by (simp split: if_splits)
next
  case (Cons c cs)
  show ?case
  proof (cases "take (length p) (c # cs) = p")
    case True
    with Cons.prems have "k = 0" by simp
    moreover have "length (take (length p) (c # cs)) \<le> length (c # cs)"
      by (simp del: take_Suc_Cons)
    with True have "length p \<le> length (c # cs)" by simp
    ultimately show ?thesis using True by simp
  next
    case False
    with Cons.prems obtain k' where k': "findSub p cs = Some k'" "k = Suc k'"
      by (auto split: option.splits)
    from Cons.IH[OF k'(1)] have ih: "k' + length p \<le> length cs"
      "take (length p) (drop k' cs) = p" "\<forall>j<k'. take (length p) (drop j cs) \<noteq> p"
      by auto
    have "\<forall>j<k. take (length p) (drop j (c # cs)) \<noteq> p"
    proof (intro allI impI)
      fix j assume "j < k"
      show "take (length p) (drop j (c # cs)) \<noteq> p"
      proof (cases j)
        case 0
        then show ?thesis using False by simp
      next
        case (Suc j')
        with \<open>j < k\<close> k'(2) have "j' < k'" by simp
        with ih(3) Suc show ?thesis by simp
      qed
    qed
    with ih k'(2) show ?thesis by simp
  qed
qed

lemma findSub_None:
  "findSub p s = None \<Longrightarrow> p \<noteq> [] \<and> (\<forall>j. take (length p) (drop j s) \<noteq> p)"
proof (induction s)
  case Nil
  then show ?case by (auto split: if_splits)
next
  case (Cons c cs)
  from Cons.prems have ne: "take (length p) (c # cs) \<noteq> p" and n: "findSub p cs = None"
    by (auto split: if_splits option.splits)
  from Cons.IH[OF n] have ih: "p \<noteq> []" "\<forall>j. take (length p) (drop j cs) \<noteq> p" by auto
  have "take (length p) (drop j (c # cs)) \<noteq> p" for j
    using ne ih(2) by (cases j) auto
  with ih(1) show ?case by blast
qed


lemma indexOf_cases:
  "(indexOf s p position = - 1 \<and> p \<noteq> []
      \<and> (\<forall>j\<ge>clampPos s position. take (length p) (drop j s) \<noteq> p))
   \<or> (\<exists>i. indexOf s p position = int i \<and> clampPos s position \<le> i
        \<and> i + length p \<le> length s \<and> take (length p) (drop i s) = p
        \<and> (\<forall>j. clampPos s position \<le> j \<and> j < i \<longrightarrow> take (length p) (drop j s) \<noteq> p))"
proof (cases "findSub p (drop (clampPos s position) s)")
  case None
  from findSub_None[OF None] have "p \<noteq> []"
    and no: "\<forall>j. take (length p) (drop j (drop (clampPos s position) s)) \<noteq> p" by auto
  have "take (length p) (drop j s) \<noteq> p" if "clampPos s position \<le> j" for j
  proof -
    from that obtain d where "j = d + clampPos s position" by (metis le_add_diff_inverse2)
    with no show ?thesis by (metis drop_drop)
  qed
  with None \<open>p \<noteq> []\<close> show ?thesis by (simp add: indexOf_def clampPos_def)
next
  case (Some k)
  let ?c = "clampPos s position"
  from findSub_Some[OF Some] have a: "k + length p \<le> length (drop ?c s)"
    and b: "take (length p) (drop k (drop ?c s)) = p"
    and c: "\<forall>j<k. take (length p) (drop j (drop ?c s)) \<noteq> p" by auto
  have c_le: "?c \<le> length s" by (simp add: clampPos_def)
  have 1: "indexOf s p position = int (?c + k)" using Some by (simp add: indexOf_def clampPos_def)
  have 2: "(?c + k) + length p \<le> length s" using a c_le by simp
  have 3: "take (length p) (drop (?c + k) s) = p" using b by (simp add: add.commute)
  have 4: "take (length p) (drop j s) \<noteq> p" if "?c \<le> j" "j < ?c + k" for j
  proof -
    from that obtain d where d: "j = d + ?c" "d < k"
      by (metis add.commute le_add_diff_inverse2 nat_add_left_cancel_less)
    with c show ?thesis by (metis drop_drop)
  qed
  show ?thesis using 1 2 3 4 by (intro disjI2 exI[of _ "?c + k"]) auto
qed

subsection \<open>Escape-aware matching of literal specifications\<close>

lemma checkEscape_Str:
  "checkEscape R st ln p (Some (Str e)) = (e \<noteq> [] \<and> endsWith ln e p, st)"
proof (cases "e \<noteq> [] \<and> endsWith ln e p")
  case True
  then have "length e \<le> nat (min (max p 0) (int (length ln)))" "e \<noteq> []"
    by (auto simp: endsWith_def Let_def)
  then have "int (length e) \<le> p" by (cases "p \<ge> 0") auto
  with True show ?thesis by (simp add: checkEscape_def)
next
  case False
  then show ?thesis by (auto simp: checkEscape_def)
qed

lemma escapeLoop_Str:
  assumes c: "c \<noteq> []"
  shows "p = - 1 \<or> (0 \<le> p \<and> take (length c) (drop (nat p) ln) = c
            \<and> nat p + length c \<le> length ln \<and> m = Some c) \<Longrightarrow>
     \<exists>p' m' e'. escapeLoop R ln (Str c) (Some (Str e)) p m e0 st = Some ((p', m', e'), st)
       \<and> (p' \<noteq> - 1 \<longrightarrow> 0 \<le> p' \<and> p \<le> p' \<and> m' = Some c \<and> \<not> e'
             \<and> take (length c) (drop (nat p') ln) = c
             \<and> nat p' + length c \<le> length ln
             \<and> \<not> (e \<noteq> [] \<and> endsWith ln e p'))
       \<and> ((\<forall>q\<ge>nat p. take (length c) (drop q ln) = c \<longrightarrow> e \<noteq> [] \<and> endsWith ln e (int q))
             \<longrightarrow> p' = - 1)
       \<and> (p = - 1 \<longrightarrow> p' = - 1)"
proof (induction "nat (int (length ln) - p)" arbitrary: p m e0 rule: less_induct)
  case less
  show ?case
  proof (cases "p = - 1")
    case True
    then show ?thesis by (subst escapeLoop.simps) simp
  next
    case False
    with less.prems have p: "0 \<le> p" "take (length c) (drop (nat p) ln) = c"
      "nat p + length c \<le> length ln" "m = Some c" by auto
    show ?thesis
    proof (cases "e \<noteq> [] \<and> endsWith ln e p")
      case notEsc: False
      have "escapeLoop R ln (Str c) (Some (Str e)) p m e0 st = Some ((p, m, False), st)"
        using False notEsc by (subst escapeLoop.simps) (auto simp: checkEscape_Str)
      moreover have "\<not> (\<forall>q\<ge>nat p. take (length c) (drop q ln) = c
                         \<longrightarrow> e \<noteq> [] \<and> endsWith ln e (int q))"
        using notEsc p by (auto intro!: exI[of _ "nat p"])
      ultimately show ?thesis using p notEsc False by auto
    next
      case esc: True
      let ?next = "p + int (length c)"
      have clamp: "clampPos ln ?next = nat p + length c"
        using p by (simp add: clampPos_def nat_add_distrib)
      have step: "escapeLoop R ln (Str c) (Some (Str e)) p m e0 st =
          escapeLoop R ln (Str c) (Some (Str e)) (indexOf ln c ?next)
            (if indexOf ln c ?next \<ge> 0 then Some c else None) True st"
        using False esc p by (subst escapeLoop.simps) (simp add: checkEscape_Str matchedLength_def Let_def)
      from indexOf_cases[of ln c ?next] show ?thesis
      proof (elim disjE conjE exE)
        assume none: "indexOf ln c ?next = - 1"
        have "escapeLoop R ln (Str c) (Some (Str e)) p m e0 st = Some ((- 1, None, True), st)"
          unfolding step none by (subst escapeLoop.simps) simp
        then show ?thesis using False by blast
      next
        fix i
        assume i: "indexOf ln c ?next = int i" "clampPos ln ?next \<le> i"
          "i + length c \<le> length ln" "take (length c) (drop i ln) = c"
        have lt: "nat (int (length ln) - int i) < nat (int (length ln) - p)"
          using i(2,3) clamp c p by (cases c) auto
        have pre: "int i = - 1 \<or> (0 \<le> int i \<and> take (length c) (drop (nat (int i)) ln) = c
            \<and> nat (int i) + length c \<le> length ln \<and> Some c = Some c)"
          using i by simp
        from less.hyps[OF lt pre, of True]
        obtain p' m' e' where r:
          "escapeLoop R ln (Str c) (Some (Str e)) (int i) (Some c) True st = Some ((p', m', e'), st)"
          "p' \<noteq> - 1 \<longrightarrow> 0 \<le> p' \<and> int i \<le> p' \<and> m' = Some c \<and> \<not> e'
             \<and> take (length c) (drop (nat p') ln) = c
             \<and> nat p' + length c \<le> length ln
             \<and> \<not> (e \<noteq> [] \<and> endsWith ln e p')"
          "(\<forall>q\<ge>nat (int i). take (length c) (drop q ln) = c \<longrightarrow> e \<noteq> [] \<and> endsWith ln e (int q))
             \<longrightarrow> p' = - 1"
          by blast
        have pi: "p \<le> int i" using i(2) clamp p by simp
        have "escapeLoop R ln (Str c) (Some (Str e)) p m e0 st = Some ((p', m', e'), st)"
          unfolding step using i(1) r(1) by simp
        moreover have "(\<forall>q\<ge>nat p. take (length c) (drop q ln) = c \<longrightarrow> e \<noteq> [] \<and> endsWith ln e (int q))
             \<longrightarrow> p' = - 1"
          using r(3) pi p(1) by (metis le_trans nat_int nat_mono)
        ultimately show ?thesis using r(2) pi False by auto
      qed
    qed
  qed
qed

lemma matchWithEscape_Str:
  assumes c: "c \<noteq> []"
  shows "\<exists>p m. matchWithEscape R ln position (Str c) (Some (Str e)) st = Some ((p, m), st)
       \<and> (p \<noteq> - 1 \<longrightarrow> 0 \<le> p \<and> int (clampPos ln position) \<le> p \<and> m = Some c
             \<and> take (length c) (drop (nat p) ln) = c
             \<and> nat p + length c \<le> length ln
             \<and> \<not> (e \<noteq> [] \<and> endsWith ln e p))
       \<and> (p = - 1 \<longrightarrow> m = None)
       \<and> ((\<forall>q\<ge>clampPos ln position. take (length c) (drop q ln) = c
              \<longrightarrow> e \<noteq> [] \<and> endsWith ln e (int q)) \<longrightarrow> p = - 1)"
proof -
  let ?first = "indexOf ln c position"
  let ?mfirst = "if ?first \<ge> 0 then Some c else None"
  have pre: "?first = - 1 \<or> (0 \<le> ?first \<and> take (length c) (drop (nat ?first) ln) = c
            \<and> nat ?first + length c \<le> length ln \<and> ?mfirst = Some c)"
    using indexOf_cases[of ln c position] by auto
  from escapeLoop_Str[OF c pre, of R e False st]
  obtain p' m' e' where r:
    "escapeLoop R ln (Str c) (Some (Str e)) ?first ?mfirst False st = Some ((p', m', e'), st)"
    "p' \<noteq> - 1 \<longrightarrow> 0 \<le> p' \<and> ?first \<le> p' \<and> m' = Some c \<and> \<not> e'
         \<and> take (length c) (drop (nat p') ln) = c
         \<and> nat p' + length c \<le> length ln
         \<and> \<not> (e \<noteq> [] \<and> endsWith ln e p')"
    "(\<forall>q\<ge>nat ?first. take (length c) (drop q ln) = c \<longrightarrow> e \<noteq> [] \<and> endsWith ln e (int q))
         \<longrightarrow> p' = - 1"
    "?first = - 1 \<longrightarrow> p' = - 1"
    by blast
  let ?res = "if e' then - 1 else p'"
  have res: "matchWithEscape R ln position (Str c) (Some (Str e)) st
      = Some ((?res, if ?res \<noteq> - 1 then m' else None), st)"
    using r(1) by (simp add: matchWithEscape_def Let_def)
  have lo: "p' \<noteq> - 1 \<Longrightarrow> int (clampPos ln position) \<le> p'"
    using r(2,4) indexOf_cases[of ln c position] by auto
  have all: "(\<forall>q\<ge>clampPos ln position. take (length c) (drop q ln) = c
              \<longrightarrow> e \<noteq> [] \<and> endsWith ln e (int q)) \<Longrightarrow> p' = - 1"
  proof -
    assume a: "\<forall>q\<ge>clampPos ln position. take (length c) (drop q ln) = c
              \<longrightarrow> e \<noteq> [] \<and> endsWith ln e (int q)"
    show "p' = - 1"
    proof (cases "?first = - 1")
      case True
      then show ?thesis using r(4) by auto
    next
      case False
      then have "clampPos ln position \<le> nat ?first" using indexOf_cases[of ln c position] by auto
      with a r(3) show ?thesis by (meson le_trans)
    qed
  qed
  show ?thesis using res r(2) lo all by (intro exI[of _ ?res] exI[of _ "if ?res \<noteq> - 1 then m' else None"]) auto
qed

lemma endsWith_append: "endsWith ln (a @ e) q \<Longrightarrow> endsWith ln e q"
proof -
  assume h: "endsWith ln (a @ e) q"
  let ?n = "nat (min (max q 0) (int (length ln)))"
  from h have len: "length a + length e \<le> ?n"
    and tk: "take (length a + length e) (drop (?n - (length a + length e)) ln) = a @ e"
    by (auto simp: endsWith_def Let_def)
  have nle: "?n \<le> length ln" by simp
  have "drop (length a) (take (length a + length e) (drop (?n - (length a + length e)) ln)) = e"
    using tk by simp
  then have "take (length e) (drop (length a) (drop (?n - (length a + length e)) ln)) = e"
    by (simp add: drop_take)
  moreover have "length a + (?n - (length a + length e)) = ?n - length e" using len by linarith
  ultimately have "take (length e) (drop (?n - length e) ln) = e" by simp
  with len show ?thesis by (simp add: endsWith_def Let_def)
qed

lemma allEscaped_all:
  assumes "c \<noteq> []" "allEscaped ln offset c e"
  shows "\<forall>q\<ge>clampPos ln offset. take (length c) (drop q ln) = c
            \<longrightarrow> e \<noteq> [] \<and> endsWith ln e (int q)"
proof (intro allI impI)
  fix q assume q: "clampPos ln offset \<le> q" "take (length c) (drop q ln) = c"
  have "q < length ln"
  proof (rule ccontr)
    assume "\<not> q < length ln"
    then have "drop q ln = []" by simp
    with q(2) assms(1) show False by simp
  qed
  with q assms(2) show "e \<noteq> [] \<and> endsWith ln e (int q)" by (simp add: allEscaped_def)
qed

subsection \<open>The engine on a single character\<close>

lemma searchFrom_char:
  "searchFrom [One (AChar x)] i s
     = (case findSub [x] s of None \<Rightarrow> None | Some k \<Rightarrow> Some (i + k, [x]))"
  by (induction s arbitrary: i) (auto split: option.splits)

lemma rxExec_char:
  "rxItems (rxTokens src) = Some [One (AChar x)] \<Longrightarrow>
   execResult (rxExec src ''g'' (nat position) ln)
     = (indexOf ln [x] position, if indexOf ln [x] position \<ge> 0 then Some [x] else None)"
proof -
  assume a: "rxItems (rxTokens src) = Some [One (AChar x)]"
  show ?thesis
  proof (cases "nat position > length ln")
    case True
    then have "clampPos ln position = length ln" by (simp add: clampPos_def)
    then show ?thesis using True a by (simp add: rxExec_def execResult_def indexOf_def clampPos_def)
  next
    case False
    then have "clampPos ln position = nat position" by (auto simp: clampPos_def)
    then show ?thesis using False a
      by (auto simp: rxExec_def execResult_def indexOf_def clampPos_def searchFrom_char Let_def
          split: option.splits)
  qed
qed

subsection \<open>Literal specifications whose occurrences are all escaped\<close>

lemma matchWithEscape_allEscaped:
  assumes "c \<noteq> []" "allEscaped ln offset c e"
  shows "matchWithEscape R ln offset (Str c) (Some (Str e)) st = Some ((- 1, None), st)"
proof -
  from matchWithEscape_Str[OF assms(1), of R ln offset e st]
  obtain p m where r: "matchWithEscape R ln offset (Str c) (Some (Str e)) st = Some ((p, m), st)"
    "p = - 1 \<longrightarrow> m = None"
    "(\<forall>q\<ge>clampPos ln offset. take (length c) (drop q ln) = c
              \<longrightarrow> e \<noteq> [] \<and> endsWith ln e (int q)) \<longrightarrow> p = - 1"
    by blast
  from allEscaped_all[OF assms] r(3) have "p = - 1" by blast
  with r show ?thesis by simp
qed

lemma sliceFrom_drop: "0 \<le> offset \<Longrightarrow> sliceFrom ln offset = drop (nat offset) ln"
  by (cases "offset \<le> int (length ln)") (auto simp: sliceFrom_def sliceIndex_def min_def)

subsection \<open>The choice among the candidates\<close>

lemma tryChildren_choice:
  assumes "openerMatches R cfg ln offset esc kids st = Some (cands, st2)" and "0 \<le> p"
  shows "\<exists>found' p' m' nxt'.
      tryChildren R cfg ln offset esc kids (found, p, m, nxt, st) = Some (found', p', m', nxt', st2)
    \<and> 0 \<le> p' \<and> p' \<le> p \<and> (\<forall>(k, q, mq) \<in> set cands. 0 \<le> q \<longrightarrow> p' \<le> q)
    \<and> (p' = p \<longrightarrow> found' = found \<and> m' = m \<and> nxt' = nxt)
    \<and> (p' < p \<longrightarrow> found' = F_PUSH
          \<and> (\<exists>i<length cands. cands ! i = (nxt', p', m') \<and> (\<forall>j<i. fst (snd (cands ! j)) \<noteq> p')))"
  using assms
proof (induction kids arbitrary: found p m nxt st cands)
  case Nil
  then show ?case by simp
next
  case (Cons k kids)
  show ?case
  proof (cases "\<exists>opn. open (getPattern R cfg k) = Some opn \<and> truthy opn")
    case False
    then have skip: "openerMatches R cfg ln offset esc (k # kids) st
          = openerMatches R cfg ln offset esc kids st"
      "tryChildren R cfg ln offset esc (k # kids) (found, p, m, nxt, st)
          = tryChildren R cfg ln offset esc kids (found, p, m, nxt, st)"
      by (auto split: option.splits)
    from Cons.IH[of st cands p found m nxt] Cons.prems skip show ?thesis by simp
  next
    case True
    then obtain opn where opn: "open (getPattern R cfg k) = Some opn" "truthy opn" by blast
    from Cons.prems(1) opn obtain q mq st1 cands' where
      mw: "matchWithEscape R ln offset opn esc st = Some ((q, mq), st1)"
      and om: "openerMatches R cfg ln offset esc kids st1 = Some (cands', st2)"
      and cands: "cands = (k, q, mq) # cands'"
      by (auto split: option.splits)
    show ?thesis
    proof (cases "q \<ge> 0 \<and> q < p")
      case better: True
      then have step: "tryChildren R cfg ln offset esc (k # kids) (found, p, m, nxt, st)
          = tryChildren R cfg ln offset esc kids (F_PUSH, q, mq, k, st1)"
        using opn mw by simp
      from better have q0: "0 \<le> q" by simp
      from Cons.IH[OF om q0, of F_PUSH mq k]
      obtain found' p' m' nxt' where r:
        "tryChildren R cfg ln offset esc kids (F_PUSH, q, mq, k, st1) = Some (found', p', m', nxt', st2)"
        "0 \<le> p'" "p' \<le> q" "\<forall>(k, q, mq) \<in> set cands'. 0 \<le> q \<longrightarrow> p' \<le> q"
        "p' = q \<longrightarrow> found' = F_PUSH \<and> m' = mq \<and> nxt' = k"
        "p' < q \<longrightarrow> found' = F_PUSH
          \<and> (\<exists>i<length cands'. cands' ! i = (nxt', p', m') \<and> (\<forall>j<i. fst (snd (cands' ! j)) \<noteq> p'))"
        by blast
      have idx: "\<exists>i<length cands. cands ! i = (nxt', p', m') \<and> (\<forall>j<i. fst (snd (cands ! j)) \<noteq> p')"
      proof (cases "p' = q")
        case True
        with r(5) cands show ?thesis by (intro exI[of _ 0]) simp
      next
        case False
        with r(3,6) obtain i where i: "i < length cands'" "cands' ! i = (nxt', p', m')"
          "\<forall>j<i. fst (snd (cands' ! j)) \<noteq> p'" by auto
        have "\<forall>j<Suc i. fst (snd (cands ! j)) \<noteq> p'"
        proof (intro allI impI)
          fix j assume "j < Suc i"
          then show "fst (snd (cands ! j)) \<noteq> p'"
            using i(3) False cands by (cases j) auto
        qed
        with i cands show ?thesis by (intro exI[of _ "Suc i"]) simp
      qed
      have "found' = F_PUSH" using r(3,5,6) by (cases "p' = q") auto
      with r idx better cands step show ?thesis by auto
    next
      case worse: False
      then have step: "tryChildren R cfg ln offset esc (k # kids) (found, p, m, nxt, st)
          = tryChildren R cfg ln offset esc kids (found, p, m, nxt, st1)"
        using opn mw Cons.prems(2) by auto
      from Cons.IH[OF om Cons.prems(2), of found m nxt]
      obtain found' p' m' nxt' where r:
        "tryChildren R cfg ln offset esc kids (found, p, m, nxt, st1) = Some (found', p', m', nxt', st2)"
        "0 \<le> p'" "p' \<le> p" "\<forall>(k, q, mq) \<in> set cands'. 0 \<le> q \<longrightarrow> p' \<le> q"
        "p' = p \<longrightarrow> found' = found \<and> m' = m \<and> nxt' = nxt"
        "p' < p \<longrightarrow> found' = F_PUSH
          \<and> (\<exists>i<length cands'. cands' ! i = (nxt', p', m') \<and> (\<forall>j<i. fst (snd (cands' ! j)) \<noteq> p'))"
        by blast
      have idx: "p' < p \<Longrightarrow>
        \<exists>i<length cands. cands ! i = (nxt', p', m') \<and> (\<forall>j<i. fst (snd (cands ! j)) \<noteq> p')"
      proof -
        assume lt: "p' < p"
        with r(6) obtain i where i: "i < length cands'" "cands' ! i = (nxt', p', m')"
          "\<forall>j<i. fst (snd (cands' ! j)) \<noteq> p'" by auto
        have "q \<noteq> p'" using worse lt r(2) by auto
        have "\<forall>j<Suc i. fst (snd (cands ! j)) \<noteq> p'"
        proof (intro allI impI)
          fix j assume "j < Suc i"
          then show "fst (snd (cands ! j)) \<noteq> p'"
            using i(3) \<open>q \<noteq> p'\<close> cands by (cases j) auto
        qed
        with i cands show ?thesis by (intro exI[of _ "Suc i"]) simp
      qed
      have "0 \<le> q \<longrightarrow> p' \<le> q" using worse r(3) by auto
      with r idx cands step show ?thesis by auto
    qed
  qed
qed

lemma matchWithEscape_no_escape:
  "matchWithEscape R ln position pat None st =
     (case match R ln position M_DEFAULT pat st of
        ((p, m), st0) \<Rightarrow> Some ((p, if p \<noteq> - 1 then m else None), st0))"
  unfolding matchWithEscape_def
  by (subst escapeLoop.simps) (auto simp: checkEscape_def split: prod.splits)

subsection \<open>The escape applied to a child's opener (C10)\<close>














subsection \<open>Termination of the scan (C9)\<close>

lemma progressiveIn_Str: "c \<noteq> [] \<Longrightarrow> progressiveIn R I (Str c)"
  unfolding progressiveIn_def
proof (intro allI impI)
  fix ln position st
  assume c: "c \<noteq> []" and I: "I st"
  from indexOf_cases[of ln c position]
  show "case match R ln position M_DEFAULT (Str c) st of
          ((p, m), st') \<Rightarrow>
             I st' \<and> (p = - 1 \<or> (0 \<le> p \<and> position \<le> p \<and> 0 < matchedLength m
                                     \<and> p + matchedLength m \<le> int (length ln)))"
  proof (elim disjE conjE exE)
    assume "indexOf ln c position = - 1"
    then show ?thesis using I by (simp add: Let_def)
  next
    fix i assume i: "indexOf ln c position = int i" "clampPos ln position \<le> i"
      "i + length c \<le> length ln"
    have "position \<le> int i"
    proof (cases "position \<le> int (length ln)")
      case True
      then have "position \<le> int (clampPos ln position)" by (simp add: clampPos_def)
      with i(2) show ?thesis by linarith
    next
      case False
      then have "clampPos ln position = length ln" by (simp add: clampPos_def)
      with i(2,3) c show ?thesis by (cases c) auto
    qed
    with i c I show ?thesis by (cases c) (auto simp: Let_def matchedLength_def)
  qed
qed

lemma progressiveInD:
  assumes "progressiveIn R I pat" and "I st"
    and "match R ln position M_DEFAULT pat st = ((p, m), st')"
  shows "I st' \<and> (p = - 1 \<or> (0 \<le> p \<and> position \<le> p \<and> 0 < matchedLength m
           \<and> p + matchedLength m \<le> int (length ln)))"
proof -
  from assms(1) have "\<forall>l k s. I s \<longrightarrow>
        (case match R l k M_DEFAULT pat s of
          ((q, t), s') \<Rightarrow> I s' \<and> (q = - 1 \<or> (0 \<le> q \<and> k \<le> q \<and> 0 < matchedLength t
                                  \<and> q + matchedLength t \<le> int (length l))))"
    by (simp add: progressiveIn_def)
  with assms(2) have "case match R ln position M_DEFAULT pat st of
          ((q, t), s') \<Rightarrow> I s' \<and> (q = - 1 \<or> (0 \<le> q \<and> position \<le> q \<and> 0 < matchedLength t
                                  \<and> q + matchedLength t \<le> int (length ln)))"
    by simp
  with assms(3) show ?thesis by simp
qed

lemma checkEscape_keeps:
  assumes "escapeKeeps R I esc" and "I st" and "checkEscape R st ln p esc = (b, st1)"
  shows "I st1"
proof (cases "\<exists>e. esc = Some e \<and> truthy e")
  case False
  with assms(2,3) show ?thesis by (auto simp: checkEscape_def split: option.splits)
next
  case True
  then obtain e where e: "esc = Some e" "truthy e" by blast
  with assms(1,2) have "I (snd (match R ln p M_PREFIX e st))" by (simp add: escapeKeeps_def)
  with assms(3) e show ?thesis by (auto simp: checkEscape_def split: prod.splits)
qed

lemma escapeLoop_terminates:
  assumes prog: "progressiveIn R I pat" and esc: "escapeKeeps R I esc"
  shows "I st \<Longrightarrow>
     p = - 1 \<or> (0 \<le> p \<and> 0 < matchedLength m \<and> p + matchedLength m \<le> int (length ln)) \<Longrightarrow>
     \<exists>p' m' e' st'. escapeLoop R ln pat esc p m e st = Some ((p', m', e'), st') \<and> I st'
       \<and> (p' = - 1 \<or> (p \<noteq> - 1 \<and> p \<le> p' \<and> 0 \<le> p' \<and> 0 < matchedLength m'))"
proof (induction "nat (int (length ln) - p)" arbitrary: p m e st rule: less_induct)
  case less
  show ?case
  proof (cases "p = - 1")
    case True
    then show ?thesis using less.prems(1) by (subst escapeLoop.simps) simp
  next
    case False
    with less.prems have p: "0 \<le> p" "0 < matchedLength m" "p + matchedLength m \<le> int (length ln)"
      by auto
    obtain b st1 where ce: "checkEscape R st ln p esc = (b, st1)"
      by (cases "checkEscape R st ln p esc")
    from checkEscape_keeps[OF esc less.prems(1) ce] have I1: "I st1" .
    show ?thesis
    proof (cases b)
      case notEsc: False
      have "escapeLoop R ln pat esc p m e st = Some ((p, m, False), st1)"
        using False notEsc ce by (subst escapeLoop.simps) simp
      with False p I1 show ?thesis by auto
    next
      case isEsc: True
      obtain p2 m2 st2 where mt:
        "match R ln (p + matchedLength m) M_DEFAULT pat st1 = ((p2, m2), st2)"
        by (cases "match R ln (p + matchedLength m) M_DEFAULT pat st1") auto
      have step: "escapeLoop R ln pat esc p m e st = escapeLoop R ln pat esc p2 m2 True st2"
        using False isEsc ce mt by (subst escapeLoop.simps) simp
      from progressiveInD[OF prog I1 mt]
      have I2: "I st2" and p2: "p2 = - 1 \<or> (0 \<le> p2 \<and> p + matchedLength m \<le> p2
           \<and> 0 < matchedLength m2 \<and> p2 + matchedLength m2 \<le> int (length ln))" by auto
      show ?thesis
      proof (cases "p2 = - 1")
        case True
        have "escapeLoop R ln pat esc p m e st = Some ((- 1, m2, True), st2)"
          unfolding step True by (subst escapeLoop.simps) simp
        with I2 show ?thesis by blast
      next
        case ne: False
        with p2 have q: "0 \<le> p2" "p + matchedLength m \<le> p2" "0 < matchedLength m2"
          "p2 + matchedLength m2 \<le> int (length ln)" by auto
        have lt: "nat (int (length ln) - p2) < nat (int (length ln) - p)"
          using q p by linarith
        have pre: "p2 = - 1 \<or> (0 \<le> p2 \<and> 0 < matchedLength m2
                     \<and> p2 + matchedLength m2 \<le> int (length ln))"
          using q by simp
        from less.hyps[OF lt I2 pre, of True]
        obtain p' m' e' st' where r:
          "escapeLoop R ln pat esc p2 m2 True st2 = Some ((p', m', e'), st')" "I st'"
          "p' = - 1 \<or> (p2 \<noteq> - 1 \<and> p2 \<le> p' \<and> 0 \<le> p' \<and> 0 < matchedLength m')"
          by blast
        have "p' = - 1 \<or> (p \<noteq> - 1 \<and> p \<le> p' \<and> 0 \<le> p' \<and> 0 < matchedLength m')"
          using r(3) q p False by auto
        with r(1,2) step show ?thesis by simp
      qed
    qed
  qed
qed

lemma matchWithEscape_terminates:
  assumes prog: "progressiveIn R I pat" and esc: "escapeKeeps R I esc" and I: "I st"
  shows "\<exists>q mq st'. matchWithEscape R ln offset pat esc st = Some ((q, mq), st') \<and> I st'
       \<and> (q = - 1 \<or> (offset \<le> q \<and> 0 \<le> q \<and> 0 < matchedLength mq))"
proof -
  obtain p0 m0 st0 where mt: "match R ln offset M_DEFAULT pat st = ((p0, m0), st0)"
    by (cases "match R ln offset M_DEFAULT pat st") auto
  from progressiveInD[OF prog I mt]
  have I0: "I st0" and p0: "p0 = - 1 \<or> (0 \<le> p0 \<and> offset \<le> p0 \<and> 0 < matchedLength m0
           \<and> p0 + matchedLength m0 \<le> int (length ln))" by auto
  then have pre: "p0 = - 1 \<or> (0 \<le> p0 \<and> 0 < matchedLength m0
           \<and> p0 + matchedLength m0 \<le> int (length ln))" by auto
  from escapeLoop_terminates[OF prog esc I0 pre, of False]
  obtain p' m' e' st' where r:
    "escapeLoop R ln pat esc p0 m0 False st0 = Some ((p', m', e'), st')" "I st'"
    "p' = - 1 \<or> (p0 \<noteq> - 1 \<and> p0 \<le> p' \<and> 0 \<le> p' \<and> 0 < matchedLength m')"
    by blast
  let ?q = "if e' then - 1 else p'"
  have res: "matchWithEscape R ln offset pat esc st
      = Some ((?q, if ?q \<noteq> - 1 then m' else None), st')"
    using mt r(1) by (simp add: matchWithEscape_def Let_def)
  have "?q = - 1 \<or> (offset \<le> ?q \<and> 0 \<le> ?q \<and> 0 < matchedLength (if ?q \<noteq> - 1 then m' else None))"
    using r(3) p0 by auto
  with res r(2) show ?thesis by blast
qed

lemma tryClose_terminates:
  assumes "progressiveSpec R I (close pat)" and "escapeKeeps R I (escape pat)" and "I st"
  shows "\<exists>found p m' nxt st'. tryClose R ln offset pat cur m st = Some (found, p, m', nxt, st')
     \<and> I st' \<and> (found = F_NONE \<or> (offset \<le> p \<and> 0 \<le> p \<and> 0 < matchedLength m'))"
proof (cases "\<exists>c. close pat = Some c \<and> truthy c")
  case False
  then show ?thesis using assms(3) by (auto simp: tryClose_def split: option.splits)
next
  case True
  then obtain c where c: "close pat = Some c" "truthy c" by blast
  with assms have "progressiveIn R I c" by (simp add: progressiveSpec_def)
  from matchWithEscape_terminates[OF this assms(2,3), of ln offset]
  obtain q mq st' where r: "matchWithEscape R ln offset c (escape pat) st = Some ((q, mq), st')"
    "I st'" "q = - 1 \<or> (offset \<le> q \<and> 0 \<le> q \<and> 0 < matchedLength mq)" by blast
  show ?thesis using c r by (cases "q \<ge> 0") (auto simp: tryClose_def)
qed

lemma tryChildren_terminates:
  assumes "\<forall>k. progressiveSpec R I (open (getPattern R cfg k))" and "escapeKeeps R I esc"
  shows "I st \<Longrightarrow> found = F_NONE \<or> (offset \<le> p \<and> 0 \<le> p \<and> 0 < matchedLength m) \<Longrightarrow>
    \<exists>found' p' m' nxt' st'.
      tryChildren R cfg ln offset esc kids (found, p, m, nxt, st) = Some (found', p', m', nxt', st')
     \<and> I st' \<and> (found' = F_NONE \<or> (offset \<le> p' \<and> 0 \<le> p' \<and> 0 < matchedLength m'))"
proof (induction kids arbitrary: found p m nxt st)
  case Nil
  then show ?case by simp
next
  case (Cons k kids)
  show ?case
  proof (cases "\<exists>opn. open (getPattern R cfg k) = Some opn \<and> truthy opn")
    case False
    then have "tryChildren R cfg ln offset esc (k # kids) (found, p, m, nxt, st)
          = tryChildren R cfg ln offset esc kids (found, p, m, nxt, st)"
      by (auto split: option.splits)
    with Cons.IH[OF Cons.prems, of nxt] show ?thesis by simp
  next
    case True
    then obtain opn where opn: "open (getPattern R cfg k) = Some opn" "truthy opn" by blast
    with assms(1) have "progressiveIn R I opn"
      by (metis progressiveSpec_def option.simps(5))
    from matchWithEscape_terminates[OF this assms(2) Cons.prems(1), of ln offset]
    obtain q mq st1 where r: "matchWithEscape R ln offset opn esc st = Some ((q, mq), st1)"
      "I st1" "q = - 1 \<or> (offset \<le> q \<and> 0 \<le> q \<and> 0 < matchedLength mq)" by blast
    show ?thesis
    proof (cases "q \<ge> 0 \<and> (p = - 1 \<or> q < p)")
      case True
      then have step: "tryChildren R cfg ln offset esc (k # kids) (found, p, m, nxt, st)
          = tryChildren R cfg ln offset esc kids (F_PUSH, q, mq, k, st1)"
        using opn r(1) by simp
      have "F_PUSH = F_NONE \<or> (offset \<le> q \<and> 0 \<le> q \<and> 0 < matchedLength mq)"
        using True r(3) by auto
      from Cons.IH[OF r(2) this, of k] step show ?thesis by simp
    next
      case False
      then have step: "tryChildren R cfg ln offset esc (k # kids) (found, p, m, nxt, st)
          = tryChildren R cfg ln offset esc kids (found, p, m, nxt, st1)"
        using opn r(1) by auto
      from Cons.IH[OF r(2) Cons.prems(2), of nxt] step show ?thesis by simp
    qed
  qed
qed

lemma findTransition_terminates:
  assumes "progressiveGrammar R cfg I" and "I st"
  shows "\<exists>found p m' nxt st'. findTransition R cfg ln offset m cur st = Some (found, p, m', nxt, st')
     \<and> I st' \<and> (found = F_NONE \<or> (offset \<le> p \<and> 0 \<le> p \<and> 0 < matchedLength m'))"
proof -
  from assms(1) have o: "\<forall>k. progressiveSpec R I (open (getPattern R cfg k))"
    and c: "progressiveSpec R I (close (getPattern R cfg cur))"
    and e: "escapeKeeps R I (escape (getPattern R cfg cur))"
    by (simp_all add: progressiveGrammar_def)
  from tryClose_terminates[OF c e assms(2), of ln offset cur m]
  obtain found p m1 nxt st1 where r:
    "tryClose R ln offset (getPattern R cfg cur) cur m st = Some (found, p, m1, nxt, st1)"
    "I st1" "found = F_NONE \<or> (offset \<le> p \<and> 0 \<le> p \<and> 0 < matchedLength m1)" by blast
  show ?thesis
  proof (cases "children (getPattern R cfg cur)")
    case None
    with r show ?thesis by (simp add: findTransition_def)
  next
    case (Some kids)
    from tryChildren_terminates[OF o e r(2,3), of ln kids nxt]
    show ?thesis using r(1) Some by (simp add: findTransition_def)
  qed
qed

lemma runHook_keeps: "hookKeeps I h \<Longrightarrow> I st \<Longrightarrow> I (runHook h st info)"
  by (auto simp: hookKeeps_def runHook_def split: option.splits)

lemma progressiveGrammar_textBefore:
  assumes "progressiveGrammar R cfg I" and "I s"
  shows "I (s\<lparr>textBefore := t\<rparr>)"
proof -
  from assms(1) have "\<forall>st tb pc. I st \<longrightarrow> I (st\<lparr>textBefore := tb, patternContext := pc\<rparr>)"
    by (simp add: progressiveGrammar_def)
  then have "I s \<longrightarrow> I (s\<lparr>textBefore := t, patternContext := patternContext s\<rparr>)" by blast
  with assms(2) show ?thesis by simp
qed

lemma progressiveGrammar_patternContext:
  assumes "progressiveGrammar R cfg I" and "I s"
  shows "I (s\<lparr>patternContext := c\<rparr>)"
proof -
  from assms(1) have "\<forall>st tb pc. I st \<longrightarrow> I (st\<lparr>textBefore := tb, patternContext := pc\<rparr>)"
    by (simp add: progressiveGrammar_def)
  then have "I s \<longrightarrow> I (s\<lparr>textBefore := textBefore s, patternContext := c\<rparr>)" by blast
  with assms(2) show ?thesis by simp
qed

lemma applyTransition_keeps:
  assumes "progressiveGrammar R cfg I" and "I st"
    and "applyTransition cfg ln offset cur found p m nxt st = Inr (st2, nxt2)"
  shows "I st2"
proof -
  from assms(1) have h: "hookKeeps I (beforeEnter cfg)" "hookKeeps I (afterEnter cfg)"
    "hookKeeps I (beforeExit cfg)" "hookKeeps I (afterExit cfg)"
    by (simp_all add: progressiveGrammar_def)
  have tb: "I s \<Longrightarrow> I (s\<lparr>textBefore := t\<rparr>)" for s t
    using progressiveGrammar_textBefore[OF assms(1)] by simp
  have pc: "I s \<Longrightarrow> I (s\<lparr>patternContext := c\<rparr>)" for s c
    using progressiveGrammar_patternContext[OF assms(1)] by simp
  let ?st1 = "st\<lparr>textBefore := textBefore st @ slice ln offset p\<rparr>"
  have I1: "I ?st1" using assms(2) by (rule tb)
  show ?thesis
  proof (cases "found = F_PUSH")
    case True
    with assms(3) have "st2 = (enterPattern cfg ?st1 ln p m nxt)\<lparr>textBefore := []\<rparr>"
      by (auto simp: applyTransition_def Let_def)
    moreover have "I (enterPattern cfg ?st1 ln p m nxt)"
    proof -
      let ?a = "runHook (beforeEnter cfg) ?st1 (hookInfo ?st1 ln p m nxt)"
      have "I ?a" using h(1) I1 by (rule runHook_keeps)
      then have "I (pushPatternContext ?a nxt)" unfolding pushPatternContext_def by (rule pc)
      then show ?thesis unfolding enterPattern_def Let_def using h(2) by (rule runHook_keeps[rotated])
    qed
    ultimately show ?thesis using tb by simp
  next
    case False
    with assms(3) obtain st3 where e: "exitPattern cfg ?st1 ln p m cur = Inr (st3, nxt2)"
      and s2: "st2 = st3\<lparr>textBefore := []\<rparr>"
      by (auto simp: applyTransition_def Let_def split: sum.splits)
    from e obtain sp where pop: "popPatternContext (runHook (beforeExit cfg) ?st1
          (hookInfo ?st1 ln p m cur)) = Inr sp"
      and s3: "st3 = runHook (afterExit cfg) sp (hookInfo sp ln p m cur)"
      by (auto simp: exitPattern_def Let_def split: sum.splits)
    have "I (runHook (beforeExit cfg) ?st1 (hookInfo ?st1 ln p m cur))"
      using h(3) I1 by (rule runHook_keeps)
    with pop have "I sp"
      by (auto simp: popPatternContext_def pc split: list.splits)
    with h(4) have "I st3" unfolding s3 by (rule runHook_keeps)
    then show ?thesis unfolding s2 by (rule tb)
  qed
qed

lemma createLayersLoop_terminates:
  assumes g: "progressiveGrammar R cfg I"
  shows "I st \<Longrightarrow>
    \<exists>r. createLayersLoop R cfg ln offset ls m st = Some r
      \<and> (\<forall>ls' st'. r = Inr (ls', st')
            \<longrightarrow> I st' \<and> length ls' \<le> length ls + nat (int (length ln) - offset))"
proof (induction "nat (int (length ln) - offset)" arbitrary: offset ls m st rule: less_induct)
  case less
  show ?case
  proof (cases "offset < int (length ln)")
    case False
    then show ?thesis using less.prems by (subst createLayersLoop.simps) simp
  next
    case inLine: True
    show ?thesis
    proof (cases "getCurrentPattern st")
      case (Inl e)
      then show ?thesis using inLine by (subst createLayersLoop.simps) simp
    next
      case (Inr cur)
      from findTransition_terminates[OF g less.prems, of ln offset m cur]
      obtain found p m1 nxt st1 where ft:
        "findTransition R cfg ln offset m cur st = Some (found, p, m1, nxt, st1)" "I st1"
        "found = F_NONE \<or> (offset \<le> p \<and> 0 \<le> p \<and> 0 < matchedLength m1)" by blast
      show ?thesis
      proof (cases "found = F_NONE")
        case True
        from g ft(2) have "I (st1\<lparr>textBefore := textBefore st1 @ sliceFrom ln offset\<rparr>)"
          by (rule progressiveGrammar_textBefore)
        then show ?thesis using inLine Inr ft(1) True
          by (subst createLayersLoop.simps) simp
      next
        case False
        with ft(3) have adv: "offset \<le> p" "0 < matchedLength m1" by auto
        show ?thesis
        proof (cases "applyTransition cfg ln offset cur found p m1 nxt st1")
          case (Inl e)
          then show ?thesis using inLine Inr ft(1) False
            by (subst createLayersLoop.simps) simp
        next
          case (Inr b)
          obtain st2 nxt2 where b: "b = (st2, nxt2)" by (cases b)
          from applyTransition_keeps[OF g ft(2) Inr[unfolded b]] have I2: "I st2" .
          let ?ls = "ls @ [\<lparr>pos = p, matched = m1, isOpen = (found = F_PUSH),
                           prePattern = cur, nextPattern = nxt2\<rparr>]"
          have step: "createLayersLoop R cfg ln offset ls m st
              = createLayersLoop R cfg ln (p + matchedLength m1) ?ls m1 st2"
            using inLine \<open>getCurrentPattern st = Inr cur\<close> ft(1) False Inr b
            by (subst createLayersLoop.simps) simp
          have lt: "nat (int (length ln) - (p + matchedLength m1)) < nat (int (length ln) - offset)"
            using adv inLine by linarith
          from less.hyps[OF lt I2, of ?ls m1]
          obtain r where r: "createLayersLoop R cfg ln (p + matchedLength m1) ?ls m1 st2 = Some r"
            "\<forall>ls' st'. r = Inr (ls', st') \<longrightarrow> I st'
                \<and> length ls' \<le> length ?ls + nat (int (length ln) - (p + matchedLength m1))"
            by blast
          have "\<forall>ls' st'. r = Inr (ls', st') \<longrightarrow> I st'
                \<and> length ls' \<le> length ls + nat (int (length ln) - offset)"
            using r(2) lt by fastforce
          with r(1) step show ?thesis by simp
        qed
      qed
    qed
  qed
qed

text \<open>
  C9 (as amended). \<open>createLayers\<close> returns, with at most one layer for each character of
  the line from the start offset on, whenever every opener and closer of the grammar makes
  progress (a match is never empty, starts at or after the search position and ends within
  the line) on the states of an invariant that the state satisfies; the invariant holds
  again of the state returned. Every literal specification that is not empty makes
  progress. When a matched text has length zero the loop can go on forever.
\<close>

theorem createLayers_terminates:
  assumes "progressiveGrammar R cfg I" and "I st"
  shows "\<exists>r. createLayers R cfg st ln offset = Some r
      \<and> (\<forall>ls st'. r = Inr (ls, st') \<longrightarrow> I st' \<and> length ls \<le> nat (int (length ln) - offset))"
  using createLayersLoop_terminates[OF assms, of ln offset "[]" None]
  by (simp add: createLayers_def)

lemma rxExec_star_empty: "rxExec ''x*'' ''g'' 0 ''a'' = Some (0, [])"
  by code_simp

lemma loop_patterns:
  "cur = rootId \<or> cur = 9 \<Longrightarrow>
   close (getPattern loopRuntime loopConfig cur) = None
   \<and> children (getPattern loopRuntime loopConfig cur) = Some [9]
   \<and> escape (getPattern loopRuntime loopConfig cur) = None"
  by (auto simp: getPattern_def loopRuntime_def loopConfig_def finalParserConfig_def
      demoOptions_def IPattern.truncate_def rootId_def plainPattern_def exampleRuntime_def Let_def)

lemma loop_open:
  "open (getPattern loopRuntime loopConfig 9) = Some (Rx \<lparr>source = ''x*'', flags = []\<rparr>)"
  by (simp add: getPattern_def loopRuntime_def rootId_def plainPattern_def exampleRuntime_def)

lemma loop_match:
  assumes "regExpCache st (cacheKey ''x*'' ''g'') = None
           \<or> regExpCache st (cacheKey ''x*'' ''g'') = Some \<lparr>source = ''x*'', flags = ''g''\<rparr>"
  shows "\<exists>st'. match loopRuntime ''a'' 0 M_DEFAULT (Rx \<lparr>source = ''x*'', flags = []\<rparr>) st
            = ((0, Some []), st')
          \<and> patternContext st' = patternContext st
          \<and> regExpCache st' (cacheKey ''x*'' ''g'') = Some \<lparr>source = ''x*'', flags = ''g''\<rparr>"
proof -
  have src: "anchoredSource ''x*'' A_NONE = ''x*''"
    by (simp add: anchoredSource_def makeSureAnchor_def startsWith_def endsWith_def)
  have fl: "globalFlags [] True = ''g''" by (simp add: globalFlags_def)
  have ex: "regexExec loopRuntime = rxExec" by (simp add: loopRuntime_def exampleRuntime_def)
  from assms show ?thesis
    by (auto simp: getCachedRegExp_def src fl ex Let_def rxExec_star_empty execResult_def)
qed

lemma loop_findTransition:
  assumes "cur = rootId \<or> cur = 9"
    and "regExpCache st (cacheKey ''x*'' ''g'') = None
           \<or> regExpCache st (cacheKey ''x*'' ''g'') = Some \<lparr>source = ''x*'', flags = ''g''\<rparr>"
  shows "\<exists>st'. findTransition loopRuntime loopConfig ''a'' 0 m cur st
            = Some (F_PUSH, 0, Some [], 9, st')
          \<and> patternContext st' = patternContext st
          \<and> regExpCache st' (cacheKey ''x*'' ''g'') = Some \<lparr>source = ''x*'', flags = ''g''\<rparr>"
proof -
  from loop_match[OF assms(2)] obtain st' where
    m: "match loopRuntime ''a'' 0 M_DEFAULT (Rx \<lparr>source = ''x*'', flags = []\<rparr>) st
            = ((0, Some []), st')"
    and k: "patternContext st' = patternContext st"
      "regExpCache st' (cacheKey ''x*'' ''g'') = Some \<lparr>source = ''x*'', flags = ''g''\<rparr>"
    by blast
  have "findTransition loopRuntime loopConfig ''a'' 0 m cur st = Some (F_PUSH, 0, Some [], 9, st')"
    using loop_patterns[OF assms(1)] loop_open m
    by (simp add: findTransition_def tryClose_def matchWithEscape_no_escape)
  with k show ?thesis by blast
qed

lemma loop_apply:
  "\<exists>st2. applyTransition loopConfig ''a'' 0 cur F_PUSH 0 (Some []) 9 st = Inr (st2, 9)
      \<and> patternContext st2 = 9 # patternContext st
      \<and> regExpCache st2 = regExpCache st"
  by (simp add: applyTransition_def enterPattern_def runHook_def pushPatternContext_def Let_def
      loopConfig_def finalParserConfig_def createDefaultOptions_def demoOptions_def)

lemma loop_never_returns:
  assumes "createLayersLoop R cfg ln offset ls m st = Some y"
  shows "\<not> (R = loopRuntime \<and> cfg = loopConfig \<and> ln = ''a'' \<and> offset = 0 \<and> loopStates st)"
proof (rule createLayersLoop.raw_induct[where P = "\<lambda>R cfg ln offset ls m st y.
      \<not> (R = loopRuntime \<and> cfg = loopConfig \<and> ln = ''a'' \<and> offset = 0 \<and> loopStates st)",
      OF _ assms], goal_cases)
  case (1 f R cfg ln offset ls m st y)
  show ?case
  proof
    assume a: "R = loopRuntime \<and> cfg = loopConfig \<and> ln = ''a'' \<and> offset = 0 \<and> loopStates st"
    then obtain cur rest where ctx: "patternContext st = cur # rest" "cur = rootId \<or> cur = 9"
      and cache: "regExpCache st (cacheKey ''x*'' ''g'') = None
           \<or> regExpCache st (cacheKey ''x*'' ''g'') = Some \<lparr>source = ''x*'', flags = ''g''\<rparr>"
      by (auto simp: loopStates_def split: list.splits)
    from loop_findTransition[OF ctx(2) cache, of m] obtain st1 where
      ft: "findTransition loopRuntime loopConfig ''a'' 0 m cur st = Some (F_PUSH, 0, Some [], 9, st1)"
      and k1: "patternContext st1 = patternContext st"
        "regExpCache st1 (cacheKey ''x*'' ''g'') = Some \<lparr>source = ''x*'', flags = ''g''\<rparr>"
      by blast
    from loop_apply[of cur st1] obtain st2 where
      ap: "applyTransition loopConfig ''a'' 0 cur F_PUSH 0 (Some []) 9 st1 = Inr (st2, 9)"
      and k2: "patternContext st2 = 9 # patternContext st1" "regExpCache st2 = regExpCache st1"
      by blast
    have "f loopRuntime loopConfig ''a'' 0
            (ls @ [\<lparr>pos = 0, matched = Some [], isOpen = True, prePattern = cur, nextPattern = 9\<rparr>])
            (Some []) st2 = Some y"
      using 1(2) a ctx(1) ft ap by (simp add: getCurrentPattern_def matchedLength_def)
    from 1(1)[OF this] have "\<not> loopStates st2" by simp
    moreover have "loopStates st2" using k1 k2 by (simp add: loopStates_def)
    ultimately show False by simp
  qed
qed

text \<open>With the opener \<open>/x*/\<close>, which matches the empty text at the offset, the scan of the
  line \<open>a\<close> from the start state never returns.\<close>

theorem createLayers_zero_length_counterexample:
  "createLayers loopRuntime loopConfig (startState loopRuntime loopConfig) ''a'' 0 = None"
proof (cases "createLayers loopRuntime loopConfig (startState loopRuntime loopConfig) ''a'' 0")
  case None
  then show ?thesis .
next
  case (Some y)
  then have "createLayersLoop loopRuntime loopConfig ''a'' 0 [] None
      (startState loopRuntime loopConfig) = Some y"
    by (simp add: createLayers_def)
  from loop_never_returns[OF this]
  have "\<not> loopStates (startState loopRuntime loopConfig)" by simp
  moreover have "loopStates (startState loopRuntime loopConfig)"
    by (simp add: loopStates_def startState_def)
  ultimately show ?thesis by simp
qed

lemma matchHere_le: "matchHere its b s = Some n \<Longrightarrow> n \<le> length s"
  by (induction its b s arbitrary: n rule: matchHere.induct)
     (auto split: if_splits option.splits)

lemma matchHere_One_pos: "matchHere (One a # r) b s = Some n \<Longrightarrow> 0 < n"
  by (cases s) (auto split: if_splits)

lemma searchFrom_bounds:
  "searchFrom its i s = Some (j, t) \<Longrightarrow>
   i \<le> j \<and> j + length t \<le> i + length s
   \<and> (\<exists>b u n. matchHere its b u = Some n \<and> length t = n)"
proof (induction s arbitrary: i)
  case Nil
  then obtain n where n: "matchHere its (i = 0) [] = Some n" and jt: "j = i" "t = []"
    by (auto split: option.splits)
  from matchHere_le[OF n] have "n = 0" by simp
  with n jt show ?case by auto
next
  case (Cons c cs)
  show ?case
  proof (cases "matchHere its (i = 0) (c # cs)")
    case None
    with Cons.prems have "searchFrom its (Suc i) cs = Some (j, t)" by simp
    from Cons.IH[OF this] show ?thesis by auto
  next
    case (Some n)
    with Cons.prems have jt: "j = i" "t = take n (c # cs)" by simp_all
    from matchHere_le[OF Some] have "n \<le> length (c # cs)" .
    then have "length t = n" unfolding jt by (simp del: take_Suc_Cons)
    with jt Some \<open>n \<le> length (c # cs)\<close> show ?thesis by auto
  qed
qed

lemma rxExec_progress:
  assumes "rxItems (rxTokens src) = Some (One a # its)"
    and "rxExec src ''g'' (nat position) ln = Some (j, t)"
  shows "position \<le> int j \<and> 0 < length t \<and> j + length t \<le> length ln"
proof -
  from assms have le: "nat position \<le> length ln"
    and s: "searchFrom (One a # its) (nat position) (drop (nat position) ln) = Some (j, t)"
    by (auto simp: rxExec_def Let_def split: if_splits)
  from searchFrom_bounds[OF s] obtain b u n where
    r: "nat position \<le> j" "j + length t \<le> nat position + length (drop (nat position) ln)"
      "matchHere (One a # its) b u = Some n" "length t = n" by blast
  from matchHere_One_pos[OF r(3)] r(4) have "0 < length t" by simp
  moreover from r(2) le have "j + length t \<le> length ln" by simp
  moreover from r(1) have "position \<le> int j" by linarith
  ultimately show ?thesis by simp
qed

lemma codeOpen_items:
  "rxItems (rxTokens codeOpenSource)
     = Some [One (AChar CHR ''#''), One (AChar CHR ''{''), Star ASpace, Opt (AChar CHR '':'')]"
  by code_simp

lemma progressiveIn_codeOpen:
  assumes "regexExec R = rxExec"
  shows "progressiveIn R codeCacheOk (Rx \<lparr>source = codeOpenSource, flags = []\<rparr>)"
  unfolding progressiveIn_def
proof (intro allI impI)
  fix ln position st
  assume I: "codeCacheOk st"
  have src: "anchoredSource codeOpenSource A_NONE = codeOpenSource"
    by (simp add: anchoredSource_def makeSureAnchor_def startsWith_def endsWith_def
        codeOpenSource_def)
  have fl: "globalFlags [] True = ''g''" by (simp add: globalFlags_def)
  obtain st' where g: "getCachedRegExp st \<lparr>source = codeOpenSource, flags = []\<rparr> A_NONE True
      = (\<lparr>source = codeOpenSource, flags = ''g''\<rparr>, st')" and I': "codeCacheOk st'"
    using I by (auto simp: getCachedRegExp_def src fl Let_def codeCacheOk_def)
  have m: "match R ln position M_DEFAULT (Rx \<lparr>source = codeOpenSource, flags = []\<rparr>) st
      = (execResult (rxExec codeOpenSource ''g'' (nat position) ln), st')"
    using g assms by simp
  show "case match R ln position M_DEFAULT (Rx \<lparr>source = codeOpenSource, flags = []\<rparr>) st of
          ((p, m), st') \<Rightarrow>
             codeCacheOk st' \<and> (p = - 1 \<or> (0 \<le> p \<and> position \<le> p \<and> 0 < matchedLength m
                                     \<and> p + matchedLength m \<le> int (length ln)))"
  proof (cases "rxExec codeOpenSource ''g'' (nat position) ln")
    case None
    then show ?thesis using m I' by (simp add: execResult_def)
  next
    case (Some jt)
    obtain j t where jt: "jt = (j, t)" by (cases jt)
    from rxExec_progress[OF codeOpen_items Some[unfolded jt]]
    show ?thesis using m I' Some jt by (simp add: execResult_def matchedLength_def)
  qed
qed

lemma progressiveIn_templateOpen: "progressiveIn R I (Fn templateOpen)"
  unfolding progressiveIn_def
proof (intro allI impI)
  fix ln position st
  assume I: "I st"
  from progressiveIn_Str[of "''[''" R I] I
  have s: "case match R ln position M_DEFAULT (Str ''['') st of
          ((p, m), st') \<Rightarrow>
             I st' \<and> (p = - 1 \<or> (0 \<le> p \<and> position \<le> p \<and> 0 < matchedLength m
                                     \<and> p + matchedLength m \<le> int (length ln)))"
    by (simp add: progressiveIn_def)
  show "case match R ln position M_DEFAULT (Fn templateOpen) st of
          ((p, m), st') \<Rightarrow>
             I st' \<and> (p = - 1 \<or> (0 \<le> p \<and> position \<le> p \<and> 0 < matchedLength m
                                     \<and> p + matchedLength m \<le> int (length ln)))"
    using s I by (auto simp: templateOpen_def Let_def matchedLength_def split: if_splits)
qed

lemma escapeKeeps_Str: "escapeKeeps R I (Some (Str e))"
  by (cases "endsWith ln e position") (simp_all add: escapeKeeps_def)

lemma demo_getPattern:
  "getPattern demoRuntime demoConfig k =
     (if k = rootId then IPattern.truncate demoConfig
      else if 1 \<le> k \<and> k \<le> 8 then defaultPatterns (Some ''sql'') (Some ''groovy'') k
      else plainPattern)"
  by (simp add: getPattern_def demoRuntime_def modeRuntime_def exampleRuntime_def demoOptions_def)

lemma demo_progressive: "progressiveGrammar demoRuntime demoConfig codeCacheOk"
proof -
  have ex: "regexExec demoRuntime = rxExec"
    by (simp add: demoRuntime_def modeRuntime_def exampleRuntime_def)
  note code = progressiveIn_codeOpen[OF ex, unfolded codeOpenSource_def, simplified]
  have specs: "progressiveSpec demoRuntime codeCacheOk (open (getPattern demoRuntime demoConfig k))
     \<and> progressiveSpec demoRuntime codeCacheOk (close (getPattern demoRuntime demoConfig k))
     \<and> escapeKeeps demoRuntime codeCacheOk (escape (getPattern demoRuntime demoConfig k))" for k
    unfolding demo_getPattern
    by (auto simp: progressiveSpec_def progressiveIn_Str progressiveIn_templateOpen code
        escapeKeeps_Str defaultPatterns_def plainPattern_def demoConfig_def finalParserConfig_def
        demoOptions_def IPattern.truncate_def createDefaultOptions_def escapeKeeps_def Let_def
        singleQuote_def doubleQuote_def parenthesis_def bracket_def brace_def code_def
        templateHeader_def template_def rootId_def)
  have hooks: "hookKeeps codeCacheOk (beforeEnter demoConfig)"
    "hookKeeps codeCacheOk (afterEnter demoConfig)"
    "hookKeeps codeCacheOk (beforeExit demoConfig)"
    "hookKeeps codeCacheOk (afterExit demoConfig)"
    by (simp_all add: hookKeeps_def demoConfig_def finalParserConfig_def demoOptions_def
        createDefaultOptions_def runHook_def codeCacheOk_def Let_def)
  have frame: "\<forall>st tb pc. codeCacheOk st
      \<longrightarrow> codeCacheOk (st\<lparr>textBefore := tb, patternContext := pc\<rparr>)"
    by (simp add: codeCacheOk_def)
  show ?thesis unfolding progressiveGrammar_def using specs hooks frame by blast
qed

text \<open>The default grammar of the demonstration makes progress, so every scan returns.\<close>

theorem createLayers_terminates_witness:
  "\<exists>r. createLayers demoRuntime demoConfig demoState ''where #[if][#{x==1}][a=1][a=0]'' 0 = Some r"
proof -
  have "codeCacheOk demoState" by (simp add: codeCacheOk_def demoState_def startState_def)
  from createLayers_terminates[OF demo_progressive this] show ?thesis by blast
qed

subsection \<open>The matcher changes the cache only\<close>

lemma cacheGrows_refl: "cacheGrows st st"
  by (simp add: cacheGrows_def)

lemma cacheGrows_trans: "cacheGrows a b \<Longrightarrow> cacheGrows b c \<Longrightarrow> cacheGrows a c"
  unfolding cacheGrows_def
  by (metis (no_types, lifting) ITemplateState.update_convs(7) ITemplateState.surjective
      ITemplateState.select_convs map_le_trans)

lemma getCachedRegExp_grows: "cacheGrows st (snd (getCachedRegExp st r a g))"
  by (auto simp: getCachedRegExp_def Let_def cacheGrows_def map_le_def split: option.splits)

lemma match_grows: "cacheGrows st (snd (match R ln p md pat st))"
proof (cases pat)
  case (Str c)
  then show ?thesis by (cases md) (simp_all add: cacheGrows_refl Let_def)
next
  case (Rx r)
  then show ?thesis
    using getCachedRegExp_grows[of st r A_NONE True] getCachedRegExp_grows[of st r A_END False]
    by (cases md) (simp_all add: split_beta Let_def)
next
  case (Fn f)
  then show ?thesis by (simp add: cacheGrows_refl)
qed

lemma checkEscape_grows: "cacheGrows st (snd (checkEscape R st ln p esc))"
  using match_grows[of st R ln p M_PREFIX]
  by (auto simp: checkEscape_def cacheGrows_refl split_beta split: option.splits)

lemma escapeLoop_grows:
  assumes "escapeLoop R ln pat esc p m e st = Some y"
  shows "cacheGrows st (snd y)"
proof (rule escapeLoop.raw_induct[where P = "\<lambda>R ln pat esc p m e st y. cacheGrows st (snd y)",
      OF _ assms], goal_cases)
  case (1 f R ln pat esc p m e st y)
  show ?case
  proof (cases "p \<noteq> - 1 \<and> fst (checkEscape R st ln p esc)")
    case True
    obtain b st1 where ce: "checkEscape R st ln p esc = (b, st1)"
      by (cases "checkEscape R st ln p esc")
    obtain p2 m2 st2 where mt: "match R ln (p + matchedLength m) M_DEFAULT pat st1 = ((p2, m2), st2)"
      by (cases "match R ln (p + matchedLength m) M_DEFAULT pat st1") auto
    from True ce have b: b by simp
    from 1(2) True ce mt b have "f R ln pat esc p2 m2 True st2 = Some y" by simp
    from 1(1)[OF this] have g2: "cacheGrows st2 (snd y)" .
    from checkEscape_grows[of st R ln p esc] ce have g0: "cacheGrows st st1" by simp
    from match_grows[of st1 R ln "p + matchedLength m" M_DEFAULT pat] mt
    have g1: "cacheGrows st1 st2" by simp
    from g0 g1 g2 show ?thesis by (blast intro: cacheGrows_trans)
  next
    case False
    obtain b st1 where ce: "checkEscape R st ln p esc = (b, st1)"
      by (cases "checkEscape R st ln p esc")
    from checkEscape_grows[of st R ln p esc] ce have g0: "cacheGrows st st1" by simp
    from False ce 1(2) g0 show ?thesis
      by (cases "p = - 1") (auto simp: cacheGrows_refl)
  qed
qed

lemma matchWithEscape_grows:
  assumes "matchWithEscape R ln position pat esc st = Some (r, st')"
  shows "cacheGrows st st'"
proof -
  obtain p0 m0 st0 where mt: "match R ln position M_DEFAULT pat st = ((p0, m0), st0)"
    by (cases "match R ln position M_DEFAULT pat st") auto
  with assms obtain y where l: "escapeLoop R ln pat esc p0 m0 False st0 = Some y"
    and s: "st' = snd y"
    by (auto simp: matchWithEscape_def Let_def split: option.splits prod.splits)
  from match_grows[of st R ln position M_DEFAULT pat] mt have "cacheGrows st st0" by simp
  with escapeLoop_grows[OF l] s show ?thesis by (blast intro: cacheGrows_trans)
qed

lemma tryClose_result:
  assumes "tryClose R ln offset pat cur m st = Some (found, p, m', nxt, st')"
  shows "cacheGrows st st' \<and> nxt = cur
     \<and> (found = F_NONE \<and> p = - 1
         \<or> found = F_POP \<and> 0 \<le> p \<and> (\<exists>c. close pat = Some c \<and> truthy c))"
proof (cases "\<exists>c. close pat = Some c \<and> truthy c")
  case False
  with assms show ?thesis by (auto simp: tryClose_def cacheGrows_refl split: option.splits)
next
  case True
  then obtain c where c: "close pat = Some c" "truthy c" by blast
  with assms obtain q mq st1 where
    mw: "matchWithEscape R ln offset c (escape pat) st = Some ((q, mq), st1)"
    by (auto simp: tryClose_def split: option.splits)
  from matchWithEscape_grows[OF mw] have "cacheGrows st st1" .
  with assms c mw show ?thesis by (auto simp: tryClose_def split: if_splits)
qed

lemma tryChildren_result:
  "tryChildren R cfg ln offset esc kids (found, p, m, nxt, st) = Some (found', p', m', nxt', st')
   \<Longrightarrow> cacheGrows st st' \<and> (found' = found \<or> found' = F_PUSH)"
proof (induction kids arbitrary: found p m nxt st)
  case Nil
  then show ?case by (simp add: cacheGrows_refl)
next
  case (Cons k kids)
  show ?case
  proof (cases "\<exists>opn. open (getPattern R cfg k) = Some opn \<and> truthy opn")
    case False
    with Cons.prems have
      "tryChildren R cfg ln offset esc kids (found, p, m, nxt, st)
         = Some (found', p', m', nxt', st')"
      by (auto split: option.splits)
    from Cons.IH[OF this] show ?thesis .
  next
    case True
    then obtain opn where opn: "open (getPattern R cfg k) = Some opn" "truthy opn" by blast
    with Cons.prems obtain q mq st1 where
      mw: "matchWithEscape R ln offset opn esc st = Some ((q, mq), st1)"
      by (auto split: option.splits)
    from matchWithEscape_grows[OF mw] have g: "cacheGrows st st1" .
    show ?thesis
    proof (cases "q \<ge> 0 \<and> (p = - 1 \<or> q < p)")
      case True
      with Cons.prems opn mw have
        "tryChildren R cfg ln offset esc kids (F_PUSH, q, mq, k, st1)
           = Some (found', p', m', nxt', st')" by simp
      from Cons.IH[OF this] g show ?thesis by (blast intro: cacheGrows_trans)
    next
      case False
      with Cons.prems opn mw have
        "tryChildren R cfg ln offset esc kids (found, p, m, nxt, st1)
           = Some (found', p', m', nxt', st')" by auto
      from Cons.IH[OF this] g show ?thesis by (blast intro: cacheGrows_trans)
    qed
  qed
qed

lemma findTransition_result:
  assumes "findTransition R cfg ln offset m cur st = Some (found, p, m', nxt, st')"
  shows "cacheGrows st st'
     \<and> (found = F_POP \<longrightarrow> (\<exists>c. close (getPattern R cfg cur) = Some c \<and> truthy c))"
proof -
  from assms obtain v where cl: "tryClose R ln offset (getPattern R cfg cur) cur m st = Some v"
    by (auto simp: findTransition_def Let_def split: option.splits)
  obtain found0 p0 m0 nxt0 st0 where v: "v = (found0, p0, m0, nxt0, st0)" by (cases v)
  from tryClose_result[OF cl[unfolded v]]
  have g0: "cacheGrows st st0"
    and f0: "found0 = F_POP \<longrightarrow> (\<exists>c. close (getPattern R cfg cur) = Some c \<and> truthy c)"
    by auto
  show ?thesis
  proof (cases "children (getPattern R cfg cur)")
    case None
    with assms cl v g0 f0 show ?thesis by (simp add: findTransition_def)
  next
    case (Some kids)
    with assms cl v have
      "tryChildren R cfg ln offset (escape (getPattern R cfg cur)) kids (found0, p0, m0, nxt0, st0)
        = Some (found, p, m', nxt, st')"
      by (simp add: findTransition_def)
    from tryChildren_result[OF this] g0 f0 show ?thesis
      by (auto intro: cacheGrows_trans)
  qed
qed

lemma cacheGrows_patternContext: "cacheGrows st st' \<Longrightarrow> patternContext st' = patternContext st"
  unfolding cacheGrows_def
  by (metis (no_types, lifting) ITemplateState.select_convs(2) ITemplateState.surjective
      ITemplateState.update_convs(7))

subsection \<open>The root is never popped (C7)\<close>

lemma runHook_stack:
  assumes "hooksKeepStack cfg"
    and "h \<in> {beforeEnter cfg, afterEnter cfg, beforeExit cfg, afterExit cfg}"
  shows "patternContext (runHook h st info) = patternContext st"
  using assms by (auto simp: hooksKeepStack_def runHook_def split: option.splits)

lemma applyTransition_stack:
  assumes hk: "hooksKeepStack cfg" and ok: "rootAtBottom st"
    and cur: "patternContext st = cur # rest"
    and found: "found = F_PUSH \<or> (found = F_POP \<and> cur \<noteq> rootId)"
  shows "\<exists>st2 nxt2. applyTransition cfg ln offset cur found p m nxt st = Inr (st2, nxt2)
           \<and> rootAtBottom st2"
proof -
  let ?st1 = "st\<lparr>textBefore := textBefore st @ slice ln offset p\<rparr>"
  have c1: "patternContext ?st1 = cur # rest" using cur by simp
  show ?thesis
  proof (cases "found = F_PUSH")
    case True
    have "patternContext (enterPattern cfg ?st1 ln p m nxt) = nxt # cur # rest"
      using c1 by (simp add: enterPattern_def Let_def pushPatternContext_def runHook_stack[OF hk])
    moreover have "last (cur # rest) = rootId" using ok cur by (simp add: rootAtBottom_def)
    ultimately show ?thesis using True
      by (simp add: applyTransition_def Let_def rootAtBottom_def)
  next
    case False
    with found have pop: "found = F_POP" "cur \<noteq> rootId" by auto
    from ok cur have l: "last (cur # rest) = rootId" by (simp add: rootAtBottom_def)
    with pop(2) obtain nx rest' where rest: "rest = nx # rest'" by (cases rest) auto
    let ?a = "runHook (beforeExit cfg) ?st1 (hookInfo ?st1 ln p m cur)"
    have a: "patternContext ?a = cur # rest" using c1 by (simp add: runHook_stack[OF hk])
    then have p1: "popPatternContext ?a = Inr (?a\<lparr>patternContext := rest\<rparr>)"
      by (simp add: popPatternContext_def)
    let ?b = "?a\<lparr>patternContext := rest\<rparr>"
    let ?c = "runHook (afterExit cfg) ?b (hookInfo ?b ln p m cur)"
    have c: "patternContext ?c = rest" by (simp add: runHook_stack[OF hk])
    then have "getCurrentPattern ?c = Inr nx" using rest by (simp add: getCurrentPattern_def)
    with p1 have e: "exitPattern cfg ?st1 ln p m cur = Inr (?c, nx)"
      by (simp add: exitPattern_def Let_def)
    have "rootAtBottom (?c\<lparr>textBefore := []\<rparr>)"
      using c rest l by (simp add: rootAtBottom_def)
    with e pop show ?thesis by (simp add: applyTransition_def Let_def)
  qed
qed

lemma createLayersLoop_stack:
  assumes "createLayersLoop R cfg ln offset ls m st = Some r"
  shows "close (getPattern R cfg rootId) = None \<longrightarrow> hooksKeepStack cfg \<longrightarrow> rootAtBottom st
     \<longrightarrow> (\<exists>ls' st'. r = Inr (ls', st') \<and> rootAtBottom st')"
proof (rule createLayersLoop.raw_induct[where P = "\<lambda>R cfg ln offset ls m st r.
      close (getPattern R cfg rootId) = None \<longrightarrow> hooksKeepStack cfg \<longrightarrow> rootAtBottom st
        \<longrightarrow> (\<exists>ls' st'. r = Inr (ls', st') \<and> rootAtBottom st')", OF _ assms], goal_cases)
  case (1 f R cfg ln offset ls m st r)
  show ?case
  proof (intro impI)
    assume root: "close (getPattern R cfg rootId) = None" and hk: "hooksKeepStack cfg"
      and ok: "rootAtBottom st"
    show "\<exists>ls' st'. r = Inr (ls', st') \<and> rootAtBottom st'"
    proof (cases "offset < int (length ln)")
      case False
      with 1(2) ok show ?thesis by auto
    next
      case inLine: True
      from ok obtain cur rest where ctx: "patternContext st = cur # rest"
        by (cases "patternContext st") (auto simp: rootAtBottom_def)
      then have gc: "getCurrentPattern st = Inr cur" by (simp add: getCurrentPattern_def)
      from 1(2) inLine gc obtain found p m1 nxt st1 where
        ft: "findTransition R cfg ln offset m cur st = Some (found, p, m1, nxt, st1)"
        by (cases "findTransition R cfg ln offset m cur st") auto
      from findTransition_result[OF ft] have g: "cacheGrows st st1"
        and popc: "found = F_POP \<longrightarrow> (\<exists>c. close (getPattern R cfg cur) = Some c \<and> truthy c)"
        by auto
      from cacheGrows_patternContext[OF g] ctx ok
      have ctx1: "patternContext st1 = cur # rest" and ok1: "rootAtBottom st1"
        by (simp_all add: rootAtBottom_def)
      show ?thesis
      proof (cases "found = F_NONE")
        case True
        with 1(2) inLine gc ft ok1 show ?thesis by (auto simp: rootAtBottom_def)
      next
        case False
        have fd: "found = F_PUSH \<or> (found = F_POP \<and> cur \<noteq> rootId)"
        proof (cases found)
          case F_POP
          with popc root show ?thesis by auto
        qed (use False in auto)
        from applyTransition_stack[OF hk ok1 ctx1 fd, of ln offset p m1 nxt]
        obtain st2 nxt2 where ap:
          "applyTransition cfg ln offset cur found p m1 nxt st1 = Inr (st2, nxt2)"
          and ok2: "rootAtBottom st2" by blast
        from 1(2) inLine gc ft False ap have
          "f R cfg ln (p + matchedLength m1)
             (ls @ [\<lparr>pos = p, matched = m1, isOpen = (found = F_PUSH), prePattern = cur,
                     nextPattern = nxt2\<rparr>]) m1 st2 = Some r"
          by simp
        from 1(1)[OF this] root hk ok2 show ?thesis by blast
      qed
    qed
  qed
qed

lemma scanLines_stack:
  assumes "close (getPattern R cfg rootId) = None" and "hooksKeepStack cfg"
  shows "rootAtBottom st \<Longrightarrow> scanLines R cfg st lns = Some r
     \<Longrightarrow> \<exists>st'. r = Inr st' \<and> rootAtBottom st'"
proof (induction lns arbitrary: st)
  case Nil
  then show ?case by auto
next
  case (Cons l lns)
  obtain ln offset where l: "l = (ln, offset)" by (cases l)
  let ?st = "st\<lparr>start := True, useRoot := False\<rparr>"
  have ok: "rootAtBottom ?st" using Cons.prems(1) by (simp add: rootAtBottom_def)
  from Cons.prems(2) l obtain r1 where c: "createLayers R cfg ?st ln offset = Some r1"
    by (cases "createLayers R cfg ?st ln offset") auto
  from createLayersLoop_stack[OF c[unfolded createLayers_def]] assms ok
  obtain ls st1 where r1: "r1 = Inr (ls, st1)" and ok1: "rootAtBottom st1" by blast
  have "rootAtBottom (st1\<lparr>layers := Some ls\<rparr>)" using ok1 by (simp add: rootAtBottom_def)
  moreover from Cons.prems(2) l c r1 have "scanLines R cfg (st1\<lparr>layers := Some ls\<rparr>) lns = Some r"
    by simp
  ultimately show ?case by (rule Cons.IH)
qed

lemma finalParserConfig_hooks:
  assumes "hooksKeepStack parserConfig"
  shows "hooksKeepStack (finalParserConfig parserConfig)"
  using assms
  by (auto simp: hooksKeepStack_def finalParserConfig_def createDefaultOptions_def runHook_def
      Let_def split: option.splits)

text \<open>
  C7. The pattern-context stack is never empty. The configuration that the mode constructor
  builds gives the root no \<open>close\<close>; a POP is found only when the current pattern has a
  \<open>close\<close> that is not empty; so, from the start state, whose stack holds the root only,
  every run of \<open>createLayers\<close> over successive lines that returns leaves a stack that is
  not empty, with the root at its bottom, and raises no error. The hooks of the caller are
  assumed to leave the stack as it is.
\<close>

theorem root_never_popped:
  assumes "hooksKeepStack parserConfig"
  shows "close (getPattern R (finalParserConfig parserConfig) rootId) = None
    \<and> (findTransition R cfg ln offset m cur st0 = Some (F_POP, p, m', nxt, st1)
         \<longrightarrow> (\<exists>c. close (getPattern R cfg cur) = Some c \<and> truthy c))
    \<and> (scanLines R (finalParserConfig parserConfig)
          (startState R (finalParserConfig parserConfig)) lns = Some r
         \<longrightarrow> (\<exists>st. r = Inr st \<and> patternContext st \<noteq> [] \<and> last (patternContext st) = rootId))"
proof (intro conjI impI)
  show root: "close (getPattern R (finalParserConfig parserConfig) rootId) = None"
    by (simp add: getPattern_def finalParserConfig_def IPattern.truncate_def Let_def)
  show "\<exists>c. close (getPattern R cfg cur) = Some c \<and> truthy c"
    if "findTransition R cfg ln offset m cur st0 = Some (F_POP, p, m', nxt, st1)"
    using findTransition_result[OF that] by simp
  assume s: "scanLines R (finalParserConfig parserConfig)
          (startState R (finalParserConfig parserConfig)) lns = Some r"
  have "rootAtBottom (startState R (finalParserConfig parserConfig))"
    by (simp add: rootAtBottom_def startState_def)
  from scanLines_stack[OF root finalParserConfig_hooks[OF assms] this s]
  show "\<exists>st. r = Inr st \<and> patternContext st \<noteq> [] \<and> last (patternContext st) = rootId"
    by (simp add: rootAtBottom_def)
qed

theorem root_never_popped_witness:
  "\<exists>st. scanLines demoRuntime demoConfig demoState
           [(''where #[if][#{x==1}]['', 0), (''a=1]'', 0)] = Some (Inr st)
        \<and> patternContext st = [rootId]"
proof -
  have ev: "map_option (map_sum id patternContext)
      (scanLines demoRuntime demoConfig demoState [(''where #[if][#{x==1}]['', 0), (''a=1]'', 0)])
      = Some (Inr [rootId])"
    by code_simp
  then obtain r where r: "scanLines demoRuntime demoConfig demoState
           [(''where #[if][#{x==1}]['', 0), (''a=1]'', 0)] = Some r"
    by (cases "scanLines demoRuntime demoConfig demoState
           [(''where #[if][#{x==1}]['', 0), (''a=1]'', 0)]") auto
  have hk: "hooksKeepStack demoOptions" by (simp add: hooksKeepStack_def demoOptions_def)
  have st: "demoState = startState demoRuntime (finalParserConfig demoOptions)"
    by (simp add: demoState_def demoConfig_def)
  from root_never_popped[OF hk, of demoRuntime] r
  obtain st where "r = Inr st" unfolding demoConfig_def st by blast
  with r ev show ?thesis by auto
qed

subsection \<open>Scanning again with a cache that was filled meanwhile (C5)\<close>

lemma cacheGrows_le: "cacheGrows st st' \<Longrightarrow> regExpCache st \<subseteq>\<^sub>m regExpCache st'"
  by (simp add: cacheGrows_def)

lemma getCachedRegExp_replay:
  assumes "getCachedRegExp st r a g = (reg, st1)" and "cacheBetween st c cf"
    and "regExpCache st1 \<subseteq>\<^sub>m cf"
  shows "\<exists>c'. getCachedRegExp (st\<lparr>regExpCache := c\<rparr>) r a g = (reg, st1\<lparr>regExpCache := c'\<rparr>)
           \<and> cacheBetween st1 c' cf"
proof -
  let ?key = "cacheKey (anchoredSource (source r) a) (globalFlags (flags r) g)"
  let ?new = "\<lparr>source = anchoredSource (source r) a, flags = globalFlags (flags r) g\<rparr>"
  from assms(2) have le: "regExpCache st \<subseteq>\<^sub>m c" "c \<subseteq>\<^sub>m cf" by (simp_all add: cacheBetween_def)
  show ?thesis
  proof (cases "regExpCache st ?key")
    case (Some x)
    with assms(1) have r: "reg = x" "st1 = st" by (auto simp: getCachedRegExp_def Let_def)
    from Some le(1) have "c ?key = Some x" by (auto simp: map_le_def dom_def)
    then have "getCachedRegExp (st\<lparr>regExpCache := c\<rparr>) r a g = (x, st\<lparr>regExpCache := c\<rparr>)"
      by (simp add: getCachedRegExp_def Let_def)
    with r assms(2) show ?thesis by auto
  next
    case None
    with assms(1) have r: "reg = ?new" "st1 = st\<lparr>regExpCache := (regExpCache st)(?key \<mapsto> ?new)\<rparr>"
      by (auto simp: getCachedRegExp_def Let_def)
    from r(2) assms(3) have cf: "cf ?key = Some ?new" by (auto simp: map_le_def)
    show ?thesis
    proof (cases "c ?key")
      case cNone: None
      then have "getCachedRegExp (st\<lparr>regExpCache := c\<rparr>) r a g
          = (?new, st\<lparr>regExpCache := c(?key \<mapsto> ?new)\<rparr>)"
        by (simp add: getCachedRegExp_def Let_def)
      moreover have "cacheBetween st1 (c(?key \<mapsto> ?new)) cf"
        using le cf r(2) by (auto simp: cacheBetween_def map_le_def)
      ultimately show ?thesis using r by (intro exI[of _ "c(?key \<mapsto> ?new)"]) simp
    next
      case (Some x)
      with le(2) cf have x: "x = ?new" by (auto simp: map_le_def dom_def)
      with Some have "getCachedRegExp (st\<lparr>regExpCache := c\<rparr>) r a g
          = (?new, st\<lparr>regExpCache := c\<rparr>)"
        by (simp add: getCachedRegExp_def Let_def)
      moreover have "cacheBetween st1 c cf"
        using le Some x r(2) by (auto simp: cacheBetween_def map_le_def)
      ultimately show ?thesis using r by (intro exI[of _ c]) simp
    qed
  qed
qed

lemma match_replay:
  assumes "match R ln p md pat st = (res, st1)" and "specIgnoresCache (Some pat)"
    and "cacheBetween st c cf" and "regExpCache st1 \<subseteq>\<^sub>m cf"
  shows "\<exists>c'. match R ln p md pat (st\<lparr>regExpCache := c\<rparr>) = (res, st1\<lparr>regExpCache := c'\<rparr>)
           \<and> cacheBetween st1 c' cf"
proof (cases pat)
  case (Str s)
  with assms(1) have a: "st1 = st" by (cases md) (auto simp: Let_def split: if_splits)
  from Str assms(1) have "match R ln p md pat (st\<lparr>regExpCache := c\<rparr>)
      = (res, st\<lparr>regExpCache := c\<rparr>)"
    by (cases md) (auto simp: Let_def split: if_splits)
  with a assms(3) show ?thesis by auto
next
  case (Fn f)
  with assms(1) have a: "st1 = st" by auto
  from Fn assms(1,2) have "match R ln p md pat (st\<lparr>regExpCache := c\<rparr>)
      = (res, st\<lparr>regExpCache := c\<rparr>)"
    by (auto simp: specIgnoresCache_def)
  with a assms(3) show ?thesis by auto
next
  case (Rx r)
  let ?a = "case md of M_DEFAULT \<Rightarrow> A_NONE | M_PREFIX \<Rightarrow> A_END"
  let ?g = "case md of M_DEFAULT \<Rightarrow> True | M_PREFIX \<Rightarrow> False"
  obtain reg where g: "getCachedRegExp st r ?a ?g = (reg, st1)"
    using assms(1) Rx by (cases md) (auto simp: Let_def split: prod.splits)
  from getCachedRegExp_replay[OF g assms(3,4)] obtain c' where
    c': "getCachedRegExp (st\<lparr>regExpCache := c\<rparr>) r ?a ?g = (reg, st1\<lparr>regExpCache := c'\<rparr>)"
    "cacheBetween st1 c' cf" by blast
  have "match R ln p md pat (st\<lparr>regExpCache := c\<rparr>) = (res, st1\<lparr>regExpCache := c'\<rparr>)"
    using assms(1) Rx g c'(1) by (cases md) (auto simp: Let_def)
  with c'(2) show ?thesis by blast
qed

lemma checkEscape_replay:
  assumes "checkEscape R st ln p esc = (b, st1)" and "specIgnoresCache esc"
    and "cacheBetween st c cf" and "regExpCache st1 \<subseteq>\<^sub>m cf"
  shows "\<exists>c'. checkEscape R (st\<lparr>regExpCache := c\<rparr>) ln p esc = (b, st1\<lparr>regExpCache := c'\<rparr>)
           \<and> cacheBetween st1 c' cf"
proof (cases "\<exists>e. esc = Some e \<and> truthy e")
  case False
  with assms(1) have "st1 = st" "checkEscape R (st\<lparr>regExpCache := c\<rparr>) ln p esc
      = (b, st\<lparr>regExpCache := c\<rparr>)"
    by (auto simp: checkEscape_def split: option.splits)
  with assms(3) show ?thesis by auto
next
  case True
  then obtain e where e: "esc = Some e" "truthy e" by blast
  obtain q t where m: "match R ln p M_PREFIX e st = ((q, t), st1)"
    using assms(1) e by (auto simp: checkEscape_def split: prod.splits)
  from match_replay[OF m assms(2)[unfolded e] assms(3,4)] obtain c' where
    c': "match R ln p M_PREFIX e (st\<lparr>regExpCache := c\<rparr>) = ((q, t), st1\<lparr>regExpCache := c'\<rparr>)"
    "cacheBetween st1 c' cf" by blast
  have "checkEscape R (st\<lparr>regExpCache := c\<rparr>) ln p esc = (b, st1\<lparr>regExpCache := c'\<rparr>)"
    using assms(1) e m c'(1) by (simp add: checkEscape_def)
  with c'(2) show ?thesis by blast
qed

lemma escapeLoop_replay:
  assumes "escapeLoop R ln pat esc p m e st = Some y"
  shows "cacheGrows st (snd y)
    \<and> (specIgnoresCache (Some pat) \<longrightarrow> specIgnoresCache esc \<longrightarrow>
        (\<forall>c cf. cacheBetween st c cf \<longrightarrow> regExpCache (snd y) \<subseteq>\<^sub>m cf \<longrightarrow>
           (\<exists>c'. escapeLoop R ln pat esc p m e (st\<lparr>regExpCache := c\<rparr>)
                    = Some (fst y, (snd y)\<lparr>regExpCache := c'\<rparr>)
                \<and> cacheBetween (snd y) c' cf)))"
proof (rule escapeLoop.raw_induct[where P = "\<lambda>R ln pat esc p m e st y.
    cacheGrows st (snd y)
    \<and> (specIgnoresCache (Some pat) \<longrightarrow> specIgnoresCache esc \<longrightarrow>
        (\<forall>c cf. cacheBetween st c cf \<longrightarrow> regExpCache (snd y) \<subseteq>\<^sub>m cf \<longrightarrow>
           (\<exists>c'. escapeLoop R ln pat esc p m e (st\<lparr>regExpCache := c\<rparr>)
                    = Some (fst y, (snd y)\<lparr>regExpCache := c'\<rparr>)
                \<and> cacheBetween (snd y) c' cf)))", OF _ assms], goal_cases)
  case (1 f R ln pat esc p m e st y)
  obtain b st1 where ce: "checkEscape R st ln p esc = (b, st1)"
    by (cases "checkEscape R st ln p esc")
  from checkEscape_grows[of st R ln p esc] ce have g0: "cacheGrows st st1" by simp
  show ?case
  proof (cases "p \<noteq> - 1 \<and> b")
    case False
    then have y: "y = (if p \<noteq> - 1 then ((p, m, b), st1) else ((p, m, e), st))"
      using 1(2) ce by (auto split: if_splits)
    have grows: "cacheGrows st (snd y)" using y g0 by (simp add: cacheGrows_refl)
    have "\<exists>c'. escapeLoop R ln pat esc p m e (st\<lparr>regExpCache := c\<rparr>)
                    = Some (fst y, (snd y)\<lparr>regExpCache := c'\<rparr>)
                \<and> cacheBetween (snd y) c' cf"
      if sp: "specIgnoresCache esc" and bt: "cacheBetween st c cf"
        and le: "regExpCache (snd y) \<subseteq>\<^sub>m cf" for c cf
    proof (cases "p = - 1")
      case True
      then show ?thesis using y bt by (subst escapeLoop.simps) auto
    next
      case ne: False
      with y have sy: "snd y = st1" by simp
      from checkEscape_replay[OF ce sp bt le[unfolded sy]] obtain c' where
        "checkEscape R (st\<lparr>regExpCache := c\<rparr>) ln p esc = (b, st1\<lparr>regExpCache := c'\<rparr>)"
        "cacheBetween st1 c' cf" by blast
      then show ?thesis using y ne False by (subst escapeLoop.simps) auto
    qed
    with grows show ?thesis by blast
  next
    case True
    obtain p2 m2 st2 where mt: "match R ln (p + matchedLength m) M_DEFAULT pat st1 = ((p2, m2), st2)"
      by (cases "match R ln (p + matchedLength m) M_DEFAULT pat st1") auto
    from match_grows[of st1 R ln "p + matchedLength m" M_DEFAULT pat] mt
    have g1: "cacheGrows st1 st2" by simp
    from 1(2) True ce mt have fy: "f R ln pat esc p2 m2 True st2 = Some y" by simp
    note ih = 1(1)[OF fy]
    from ih have g2: "cacheGrows st2 (snd y)" by simp
    have grows: "cacheGrows st (snd y)" using g0 g1 g2 by (blast intro: cacheGrows_trans)
    have "\<exists>c'. escapeLoop R ln pat esc p m e (st\<lparr>regExpCache := c\<rparr>)
                    = Some (fst y, (snd y)\<lparr>regExpCache := c'\<rparr>)
                \<and> cacheBetween (snd y) c' cf"
      if spp: "specIgnoresCache (Some pat)" and sp: "specIgnoresCache esc"
        and bt: "cacheBetween st c cf" and le: "regExpCache (snd y) \<subseteq>\<^sub>m cf" for c cf
    proof -
      have le2: "regExpCache st2 \<subseteq>\<^sub>m cf" using g2 le by (blast intro: map_le_trans cacheGrows_le)
      have le1: "regExpCache st1 \<subseteq>\<^sub>m cf" using g1 le2 by (blast intro: map_le_trans cacheGrows_le)
      from checkEscape_replay[OF ce sp bt le1] obtain c1 where
        c1: "checkEscape R (st\<lparr>regExpCache := c\<rparr>) ln p esc = (b, st1\<lparr>regExpCache := c1\<rparr>)"
        "cacheBetween st1 c1 cf" by blast
      from match_replay[OF mt spp c1(2) le2] obtain c2 where
        c2: "match R ln (p + matchedLength m) M_DEFAULT pat (st1\<lparr>regExpCache := c1\<rparr>)
              = ((p2, m2), st2\<lparr>regExpCache := c2\<rparr>)"
        "cacheBetween st2 c2 cf" by blast
      from ih spp sp c2(2) le obtain c' where
        c': "escapeLoop R ln pat esc p2 m2 True (st2\<lparr>regExpCache := c2\<rparr>)
               = Some (fst y, (snd y)\<lparr>regExpCache := c'\<rparr>)"
        "cacheBetween (snd y) c' cf" by blast
      have "escapeLoop R ln pat esc p m e (st\<lparr>regExpCache := c\<rparr>)
          = Some (fst y, (snd y)\<lparr>regExpCache := c'\<rparr>)"
        using True c1(1) c2(1) c'(1) by (subst escapeLoop.simps) simp
      with c'(2) show ?thesis by blast
    qed
    with grows show ?thesis by blast
  qed
qed

lemma matchWithEscape_replay:
  assumes "matchWithEscape R ln position pat esc st = Some (res, st')"
    and "specIgnoresCache (Some pat)" and "specIgnoresCache esc"
    and "cacheBetween st c cf" and "regExpCache st' \<subseteq>\<^sub>m cf"
  shows "\<exists>c'. matchWithEscape R ln position pat esc (st\<lparr>regExpCache := c\<rparr>)
                 = Some (res, st'\<lparr>regExpCache := c'\<rparr>)
           \<and> cacheBetween st' c' cf"
proof -
  obtain p0 m0 st0 where mt: "match R ln position M_DEFAULT pat st = ((p0, m0), st0)"
    by (cases "match R ln position M_DEFAULT pat st") auto
  with assms(1) obtain y where l: "escapeLoop R ln pat esc p0 m0 False st0 = Some y"
    and s: "st' = snd y"
    and res: "res = (case fst y of (p, m, escaped) \<Rightarrow>
                 (let p' = (if escaped then - 1 else p) in (p', if p' \<noteq> - 1 then m else None)))"
    by (auto simp: matchWithEscape_def Let_def split: option.splits prod.splits)
  from escapeLoop_replay[OF l] have g: "cacheGrows st0 (snd y)"
    and rp: "\<And>c cf. cacheBetween st0 c cf \<Longrightarrow> regExpCache (snd y) \<subseteq>\<^sub>m cf \<Longrightarrow>
           (\<exists>c'. escapeLoop R ln pat esc p0 m0 False (st0\<lparr>regExpCache := c\<rparr>)
                    = Some (fst y, (snd y)\<lparr>regExpCache := c'\<rparr>)
                \<and> cacheBetween (snd y) c' cf)"
    using assms(2,3) by auto
  have le0: "regExpCache st0 \<subseteq>\<^sub>m cf"
    using g assms(5) s by (blast intro: map_le_trans cacheGrows_le)
  from match_replay[OF mt assms(2,4) le0] obtain c0 where
    c0: "match R ln position M_DEFAULT pat (st\<lparr>regExpCache := c\<rparr>)
           = ((p0, m0), st0\<lparr>regExpCache := c0\<rparr>)" "cacheBetween st0 c0 cf" by blast
  from rp[OF c0(2) assms(5)[unfolded s]] obtain c' where
    c': "escapeLoop R ln pat esc p0 m0 False (st0\<lparr>regExpCache := c0\<rparr>)
           = Some (fst y, (snd y)\<lparr>regExpCache := c'\<rparr>)" "cacheBetween (snd y) c' cf" by blast
  have "matchWithEscape R ln position pat esc (st\<lparr>regExpCache := c\<rparr>)
                 = Some (res, st'\<lparr>regExpCache := c'\<rparr>)"
    using c0(1) c'(1) s res by (simp add: matchWithEscape_def Let_def split: prod.splits)
  with c'(2) s show ?thesis by blast
qed

lemma tryClose_replay:
  assumes "tryClose R ln offset pat cur m st = Some (found, p, m', nxt, st')"
    and "specIgnoresCache (close pat)" and "specIgnoresCache (escape pat)"
    and "cacheBetween st c cf" and "regExpCache st' \<subseteq>\<^sub>m cf"
  shows "\<exists>c'. tryClose R ln offset pat cur m (st\<lparr>regExpCache := c\<rparr>)
                 = Some (found, p, m', nxt, st'\<lparr>regExpCache := c'\<rparr>)
           \<and> cacheBetween st' c' cf"
proof (cases "\<exists>cl. close pat = Some cl \<and> truthy cl")
  case False
  with assms(1) have "st' = st" "tryClose R ln offset pat cur m (st\<lparr>regExpCache := c\<rparr>)
                 = Some (found, p, m', nxt, st\<lparr>regExpCache := c\<rparr>)"
    by (auto simp: tryClose_def split: option.splits)
  with assms(4) show ?thesis by auto
next
  case True
  then obtain cl where cl: "close pat = Some cl" "truthy cl" by blast
  with assms(1) obtain q mq where
    mw: "matchWithEscape R ln offset cl (escape pat) st = Some ((q, mq), st')"
    by (auto simp: tryClose_def split: option.splits if_splits)
  from matchWithEscape_replay[OF mw assms(2)[unfolded cl] assms(3,4,5)] obtain c' where
    c': "matchWithEscape R ln offset cl (escape pat) (st\<lparr>regExpCache := c\<rparr>)
           = Some ((q, mq), st'\<lparr>regExpCache := c'\<rparr>)" "cacheBetween st' c' cf" by blast
  have "tryClose R ln offset pat cur m (st\<lparr>regExpCache := c\<rparr>)
                 = Some (found, p, m', nxt, st'\<lparr>regExpCache := c'\<rparr>)"
    using assms(1) cl mw c'(1) by (auto simp: tryClose_def split: if_splits)
  with c'(2) show ?thesis by blast
qed

lemma tryChildren_replay:
  assumes "\<forall>k. specIgnoresCache (open (getPattern R cfg k))" and "specIgnoresCache esc"
  shows "tryChildren R cfg ln offset esc kids (found, p, m, nxt, st)
           = Some (found', p', m', nxt', st')
    \<Longrightarrow> cacheBetween st c cf \<Longrightarrow> regExpCache st' \<subseteq>\<^sub>m cf
    \<Longrightarrow> \<exists>c'. tryChildren R cfg ln offset esc kids (found, p, m, nxt, st\<lparr>regExpCache := c\<rparr>)
                 = Some (found', p', m', nxt', st'\<lparr>regExpCache := c'\<rparr>)
           \<and> cacheBetween st' c' cf"
proof (induction kids arbitrary: found p m nxt st c)
  case Nil
  then show ?case by auto
next
  case (Cons k kids)
  show ?case
  proof (cases "\<exists>opn. open (getPattern R cfg k) = Some opn \<and> truthy opn")
    case False
    then have skip: "\<And>v. tryChildren R cfg ln offset esc (k # kids) v
          = tryChildren R cfg ln offset esc kids v"
      by (auto split: option.splits)
    from Cons.IH[OF Cons.prems(1)[unfolded skip] Cons.prems(2,3)] show ?thesis
      unfolding skip .
  next
    case True
    then obtain opn where opn: "open (getPattern R cfg k) = Some opn" "truthy opn" by blast
    from assms(1) opn have sp: "specIgnoresCache (Some opn)" by metis
    from Cons.prems(1) opn obtain q mq st1 where
      mw: "matchWithEscape R ln offset opn esc st = Some ((q, mq), st1)"
      by (auto split: option.splits)
    let ?v = "if q \<ge> 0 \<and> (p = - 1 \<or> q < p) then (F_PUSH, q, mq, k) else (found, p, m, nxt)"
    obtain f1 p1 m1 n1 where v: "?v = (f1, p1, m1, n1)" by (cases ?v)
    have step: "tryChildren R cfg ln offset esc (k # kids) (found, p, m, nxt, s)
        = tryChildren R cfg ln offset esc kids (f1, p1, m1, n1, s1)"
      if "matchWithEscape R ln offset opn esc s = Some ((q, mq), s1)" for s s1
      using that opn v by (auto split: if_splits)
    from Cons.prems(1)[unfolded step[OF mw]]
    have rest: "tryChildren R cfg ln offset esc kids (f1, p1, m1, n1, st1)
           = Some (found', p', m', nxt', st')" .
    from tryChildren_result[OF rest] Cons.prems(3)
    have le1: "regExpCache st1 \<subseteq>\<^sub>m cf" by (blast intro: map_le_trans cacheGrows_le)
    from matchWithEscape_replay[OF mw sp assms(2) Cons.prems(2) le1] obtain c1 where
      c1: "matchWithEscape R ln offset opn esc (st\<lparr>regExpCache := c\<rparr>)
             = Some ((q, mq), st1\<lparr>regExpCache := c1\<rparr>)" "cacheBetween st1 c1 cf" by blast
    from Cons.IH[OF rest c1(2) Cons.prems(3)] obtain c' where
      c': "tryChildren R cfg ln offset esc kids (f1, p1, m1, n1, st1\<lparr>regExpCache := c1\<rparr>)
                 = Some (found', p', m', nxt', st'\<lparr>regExpCache := c'\<rparr>)"
      "cacheBetween st' c' cf" by blast
    show ?thesis unfolding step[OF c1(1)] using c' by blast
  qed
qed

lemma findTransition_replay:
  assumes "findTransition R cfg ln offset m cur st = Some (found, p, m', nxt, st')"
    and "cacheBlind R cfg" and "cacheBetween st c cf" and "regExpCache st' \<subseteq>\<^sub>m cf"
  shows "\<exists>c'. findTransition R cfg ln offset m cur (st\<lparr>regExpCache := c\<rparr>)
                 = Some (found, p, m', nxt, st'\<lparr>regExpCache := c'\<rparr>)
           \<and> cacheBetween st' c' cf"
proof -
  let ?pat = "getPattern R cfg cur"
  from assms(2) have sp: "\<forall>k. specIgnoresCache (open (getPattern R cfg k))"
    "specIgnoresCache (close ?pat)" "specIgnoresCache (escape ?pat)"
    by (simp_all add: cacheBlind_def)
  from assms(1) obtain v where cl: "tryClose R ln offset ?pat cur m st = Some v"
    by (auto simp: findTransition_def Let_def split: option.splits)
  obtain f0 p0 m0 n0 st0 where v: "v = (f0, p0, m0, n0, st0)" by (cases v)
  show ?thesis
  proof (cases "children ?pat")
    case None
    with assms(1) cl v have eq: "(f0, p0, m0, n0, st0) = (found, p, m', nxt, st')"
      by (simp add: findTransition_def)
    from tryClose_replay[OF cl[unfolded v] sp(2,3) assms(3)] eq assms(4) obtain c' where
      "tryClose R ln offset ?pat cur m (st\<lparr>regExpCache := c\<rparr>)
         = Some (found, p, m', nxt, st'\<lparr>regExpCache := c'\<rparr>)" "cacheBetween st' c' cf"
      by auto
    with None show ?thesis by (auto simp: findTransition_def)
  next
    case (Some kids)
    with assms(1) cl v have tc:
      "tryChildren R cfg ln offset (escape ?pat) kids (f0, p0, m0, n0, st0)
        = Some (found, p, m', nxt, st')"
      by (simp add: findTransition_def)
    from tryChildren_result[OF tc] assms(4)
    have le0: "regExpCache st0 \<subseteq>\<^sub>m cf" by (blast intro: map_le_trans cacheGrows_le)
    from tryClose_replay[OF cl[unfolded v] sp(2,3) assms(3) le0] obtain c0 where
      c0: "tryClose R ln offset ?pat cur m (st\<lparr>regExpCache := c\<rparr>)
         = Some (f0, p0, m0, n0, st0\<lparr>regExpCache := c0\<rparr>)" "cacheBetween st0 c0 cf" by blast
    from tryChildren_replay[OF sp(1,3) tc c0(2) assms(4)] obtain c' where
      c': "tryChildren R cfg ln offset (escape ?pat) kids (f0, p0, m0, n0, st0\<lparr>regExpCache := c0\<rparr>)
                 = Some (found, p, m', nxt, st'\<lparr>regExpCache := c'\<rparr>)"
      "cacheBetween st' c' cf" by blast
    have "findTransition R cfg ln offset m cur (st\<lparr>regExpCache := c\<rparr>)
                 = Some (found, p, m', nxt, st'\<lparr>regExpCache := c'\<rparr>)"
      using c0(1) c'(1) Some by (simp add: findTransition_def)
    with c'(2) show ?thesis by blast
  qed
qed

lemma runHook_cache:
  assumes "hookIgnoresCache h"
  shows "runHook h (st\<lparr>regExpCache := c\<rparr>) info = (runHook h st info)\<lparr>regExpCache := c\<rparr>"
  using assms by (auto simp: hookIgnoresCache_def runHook_def split: option.splits)

lemma runHook_cache_same:
  assumes "hookIgnoresCache h"
  shows "regExpCache (runHook h st info) = regExpCache st"
proof -
  from runHook_cache[OF assms, where st = st and c = "regExpCache st" and info = info]
  have "runHook h st info = (runHook h st info)\<lparr>regExpCache := regExpCache st\<rparr>" by simp
  then have "regExpCache (runHook h st info)
      = regExpCache ((runHook h st info)\<lparr>regExpCache := regExpCache st\<rparr>)" by simp
  then show ?thesis by simp
qed

lemma pushPatternContext_cache:
  "pushPatternContext (a\<lparr>regExpCache := c\<rparr>) k = (pushPatternContext a k)\<lparr>regExpCache := c\<rparr>"
  by (simp add: pushPatternContext_def)

lemma popPatternContext_cache:
  "popPatternContext (a\<lparr>regExpCache := c\<rparr>)
     = (case popPatternContext a of Inl e \<Rightarrow> Inl e | Inr s \<Rightarrow> Inr (s\<lparr>regExpCache := c\<rparr>))"
  by (simp add: popPatternContext_def split: list.splits)

lemma getCurrentPattern_cache:
  "getCurrentPattern (a\<lparr>regExpCache := c\<rparr>) = getCurrentPattern a"
  by (simp add: getCurrentPattern_def)

lemma hookInfo_cache: "hookInfo (s\<lparr>regExpCache := c\<rparr>) ln p m k = hookInfo s ln p m k"
  by (simp add: hookInfo_def)

lemma enterPattern_cache:
  assumes "hookIgnoresCache (beforeEnter cfg)" and "hookIgnoresCache (afterEnter cfg)"
  shows "enterPattern cfg (s\<lparr>regExpCache := c\<rparr>) ln p m k
      = (enterPattern cfg s ln p m k)\<lparr>regExpCache := c\<rparr>"
    and "regExpCache (enterPattern cfg s ln p m k) = regExpCache s"
proof -
  show "enterPattern cfg (s\<lparr>regExpCache := c\<rparr>) ln p m k
      = (enterPattern cfg s ln p m k)\<lparr>regExpCache := c\<rparr>"
    by (simp only: enterPattern_def Let_def runHook_cache[OF assms(1)] runHook_cache[OF assms(2)]
        hookInfo_cache pushPatternContext_cache)
  show "regExpCache (enterPattern cfg s ln p m k) = regExpCache s"
    by (simp add: enterPattern_def Let_def runHook_cache_same[OF assms(1)]
        runHook_cache_same[OF assms(2)] pushPatternContext_def)
qed

lemma exitPattern_cache:
  assumes "hookIgnoresCache (beforeExit cfg)" and "hookIgnoresCache (afterExit cfg)"
    and "exitPattern cfg s ln p m k = Inr (s', n)"
  shows "exitPattern cfg (s\<lparr>regExpCache := c\<rparr>) ln p m k = Inr (s'\<lparr>regExpCache := c\<rparr>, n)"
    and "regExpCache s' = regExpCache s"
proof -
  let ?a = "runHook (beforeExit cfg) s (hookInfo s ln p m k)"
  from assms(3) obtain sp where pop: "popPatternContext ?a = Inr sp"
    and s': "s' = runHook (afterExit cfg) sp (hookInfo sp ln p m k)"
    and n: "getCurrentPattern s' = Inr n"
    by (auto simp: exitPattern_def Let_def split: sum.splits)
  have "exitPattern cfg (s\<lparr>regExpCache := c\<rparr>) ln p m k
      = (case getCurrentPattern (s'\<lparr>regExpCache := c\<rparr>) of
           Inl e \<Rightarrow> Inl e | Inr nx \<Rightarrow> Inr (s'\<lparr>regExpCache := c\<rparr>, nx))"
    unfolding exitPattern_def Let_def runHook_cache[OF assms(1)] hookInfo_cache
      popPatternContext_cache pop s'
    by (simp add: runHook_cache[OF assms(2)] hookInfo_cache split: sum.splits)
  then show "exitPattern cfg (s\<lparr>regExpCache := c\<rparr>) ln p m k = Inr (s'\<lparr>regExpCache := c\<rparr>, n)"
    using n by (simp add: getCurrentPattern_cache)
  from pop have "regExpCache sp = regExpCache ?a"
    by (auto simp: popPatternContext_def split: list.splits)
  then show "regExpCache s' = regExpCache s"
    unfolding s' by (simp add: runHook_cache_same[OF assms(1)] runHook_cache_same[OF assms(2)])
qed

lemma applyTransition_replay:
  assumes "cacheBlind R cfg"
    and "applyTransition cfg ln offset cur found p m nxt st = Inr (st2, nxt2)"
  shows "applyTransition cfg ln offset cur found p m nxt (st\<lparr>regExpCache := c\<rparr>)
           = Inr (st2\<lparr>regExpCache := c\<rparr>, nxt2)
       \<and> regExpCache st2 = regExpCache st"
proof -
  from assms(1) have h: "hookIgnoresCache (beforeEnter cfg)" "hookIgnoresCache (afterEnter cfg)"
    "hookIgnoresCache (beforeExit cfg)" "hookIgnoresCache (afterExit cfg)"
    by (simp_all add: cacheBlind_def)
  let ?st1 = "st\<lparr>textBefore := textBefore st @ slice ln offset p\<rparr>"
  have st1: "(st\<lparr>regExpCache := c\<rparr>)\<lparr>textBefore := textBefore (st\<lparr>regExpCache := c\<rparr>)
                 @ slice ln offset p\<rparr> = ?st1\<lparr>regExpCache := c\<rparr>"
    by simp
  show ?thesis
  proof (cases "found = F_PUSH")
    case True
    with assms(2) have s2: "st2 = (enterPattern cfg ?st1 ln p m nxt)\<lparr>textBefore := []\<rparr>"
      "nxt2 = nxt" by (auto simp: applyTransition_def Let_def)
    have "applyTransition cfg ln offset cur found p m nxt (st\<lparr>regExpCache := c\<rparr>)
        = Inr ((enterPattern cfg (?st1\<lparr>regExpCache := c\<rparr>) ln p m nxt)\<lparr>textBefore := []\<rparr>, nxt)"
      unfolding applyTransition_def Let_def st1 using True by simp
    then show ?thesis using s2 by (simp add: enterPattern_cache[OF h(1,2)])
  next
    case False
    with assms(2) obtain s3 where e: "exitPattern cfg ?st1 ln p m cur = Inr (s3, nxt2)"
      and s2: "st2 = s3\<lparr>textBefore := []\<rparr>"
      by (auto simp: applyTransition_def Let_def split: sum.splits)
    have "applyTransition cfg ln offset cur found p m nxt (st\<lparr>regExpCache := c\<rparr>)
        = (case exitPattern cfg (?st1\<lparr>regExpCache := c\<rparr>) ln p m cur of
             Inl e \<Rightarrow> Inl e | Inr (s, n) \<Rightarrow> Inr (s\<lparr>textBefore := []\<rparr>, n))"
      unfolding applyTransition_def Let_def st1 using False by simp
    then show ?thesis using exitPattern_cache[OF h(3,4) e] s2 by simp
  qed
qed

lemma createLayersLoop_replay:
  assumes "createLayersLoop R cfg ln offset ls m st = Some r"
  shows "cacheBlind R cfg \<longrightarrow>
    (\<forall>ls' st'. r = Inr (ls', st') \<longrightarrow>
       regExpCache st \<subseteq>\<^sub>m regExpCache st'
       \<and> (\<forall>c cf. cacheBetween st c cf \<longrightarrow> regExpCache st' \<subseteq>\<^sub>m cf \<longrightarrow>
            (\<exists>c'. createLayersLoop R cfg ln offset ls m (st\<lparr>regExpCache := c\<rparr>)
                     = Some (Inr (ls', st'\<lparr>regExpCache := c'\<rparr>))
                 \<and> cacheBetween st' c' cf)))"
proof (rule createLayersLoop.raw_induct[where P = "\<lambda>R cfg ln offset ls m st r.
    cacheBlind R cfg \<longrightarrow>
    (\<forall>ls' st'. r = Inr (ls', st') \<longrightarrow>
       regExpCache st \<subseteq>\<^sub>m regExpCache st'
       \<and> (\<forall>c cf. cacheBetween st c cf \<longrightarrow> regExpCache st' \<subseteq>\<^sub>m cf \<longrightarrow>
            (\<exists>c'. createLayersLoop R cfg ln offset ls m (st\<lparr>regExpCache := c\<rparr>)
                     = Some (Inr (ls', st'\<lparr>regExpCache := c'\<rparr>))
                 \<and> cacheBetween st' c' cf)))", OF _ assms], goal_cases)
  case (1 f R cfg ln offset ls m st r)
  show ?case
  proof (intro impI allI)
    fix ls' st'
    assume blind: "cacheBlind R cfg" and r: "r = Inr (ls', st')"
    show "regExpCache st \<subseteq>\<^sub>m regExpCache st'
       \<and> (\<forall>c cf. cacheBetween st c cf \<longrightarrow> regExpCache st' \<subseteq>\<^sub>m cf \<longrightarrow>
            (\<exists>c'. createLayersLoop R cfg ln offset ls m (st\<lparr>regExpCache := c\<rparr>)
                     = Some (Inr (ls', st'\<lparr>regExpCache := c'\<rparr>))
                 \<and> cacheBetween st' c' cf))"
    proof (cases "offset < int (length ln)")
      case False
      with 1(2) r have e: "ls' = ls" "st' = st" by auto
      have "\<exists>c'. createLayersLoop R cfg ln offset ls m (st\<lparr>regExpCache := c\<rparr>)
                     = Some (Inr (ls', st'\<lparr>regExpCache := c'\<rparr>))
                 \<and> cacheBetween st' c' cf" if "cacheBetween st c cf" for c cf
        using False e that by (subst createLayersLoop.simps) auto
      with e show ?thesis by simp
    next
      case inLine: True
      from 1(2) inLine r obtain cur where gc: "getCurrentPattern st = Inr cur"
        by (cases "getCurrentPattern st") auto
      from 1(2) inLine gc obtain found p m1 nxt st1 where
        ft: "findTransition R cfg ln offset m cur st = Some (found, p, m1, nxt, st1)"
        by (cases "findTransition R cfg ln offset m cur st") auto
      from findTransition_result[OF ft] have le01: "regExpCache st \<subseteq>\<^sub>m regExpCache st1"
        by (blast intro: cacheGrows_le)
      show ?thesis
      proof (cases "found = F_NONE")
        case True
        with 1(2) inLine gc ft r
        have e: "ls' = ls" "st' = st1\<lparr>textBefore := textBefore st1 @ sliceFrom ln offset\<rparr>"
          by auto
        have "\<exists>c'. createLayersLoop R cfg ln offset ls m (st\<lparr>regExpCache := c\<rparr>)
                     = Some (Inr (ls', st'\<lparr>regExpCache := c'\<rparr>))
                 \<and> cacheBetween st' c' cf"
          if bt: "cacheBetween st c cf" and le: "regExpCache st' \<subseteq>\<^sub>m cf" for c cf
        proof -
          from le e have "regExpCache st1 \<subseteq>\<^sub>m cf" by simp
          from findTransition_replay[OF ft blind bt this] obtain c' where
            c': "findTransition R cfg ln offset m cur (st\<lparr>regExpCache := c\<rparr>)
                 = Some (found, p, m1, nxt, st1\<lparr>regExpCache := c'\<rparr>)"
            "cacheBetween st1 c' cf" by blast
          have "createLayersLoop R cfg ln offset ls m (st\<lparr>regExpCache := c\<rparr>)
                     = Some (Inr (ls', st'\<lparr>regExpCache := c'\<rparr>))"
            using inLine gc c'(1) True e
            by (subst createLayersLoop.simps) (simp add: getCurrentPattern_cache)
          moreover have "cacheBetween st' c' cf" using c'(2) e by (simp add: cacheBetween_def)
          ultimately show ?thesis by blast
        qed
        with e le01 show ?thesis by simp
      next
        case False
        from 1(2) inLine gc ft False r obtain st2 nxt2 where
          ap: "applyTransition cfg ln offset cur found p m1 nxt st1 = Inr (st2, nxt2)"
          by (cases "applyTransition cfg ln offset cur found p m1 nxt st1") auto
        let ?ls = "ls @ [\<lparr>pos = p, matched = m1, isOpen = (found = F_PUSH), prePattern = cur,
                     nextPattern = nxt2\<rparr>]"
        from 1(2) inLine gc ft False ap have
          fy: "f R cfg ln (p + matchedLength m1) ?ls m1 st2 = Some r" by simp
        from 1(1)[OF fy] r have
          ih1: "regExpCache st2 \<subseteq>\<^sub>m regExpCache st'"
          and ih2: "\<And>c cf. cacheBetween st2 c cf \<Longrightarrow> regExpCache st' \<subseteq>\<^sub>m cf \<Longrightarrow>
            (\<exists>c'. createLayersLoop R cfg ln (p + matchedLength m1) ?ls m1 (st2\<lparr>regExpCache := c\<rparr>)
                     = Some (Inr (ls', st'\<lparr>regExpCache := c'\<rparr>))
                 \<and> cacheBetween st' c' cf)"
          using blind by blast+
        from applyTransition_replay[OF blind ap] have
          ap2: "\<And>c. applyTransition cfg ln offset cur found p m1 nxt (st1\<lparr>regExpCache := c\<rparr>)
                  = Inr (st2\<lparr>regExpCache := c\<rparr>, nxt2)"
          and same: "regExpCache st2 = regExpCache st1" by auto
        have grows: "regExpCache st \<subseteq>\<^sub>m regExpCache st'"
          using le01 same ih1 by (auto intro: map_le_trans)
        have "\<exists>c'. createLayersLoop R cfg ln offset ls m (st\<lparr>regExpCache := c\<rparr>)
                     = Some (Inr (ls', st'\<lparr>regExpCache := c'\<rparr>))
                 \<and> cacheBetween st' c' cf"
          if bt: "cacheBetween st c cf" and le: "regExpCache st' \<subseteq>\<^sub>m cf" for c cf
        proof -
          have le1: "regExpCache st1 \<subseteq>\<^sub>m cf" using same ih1 le by (auto intro: map_le_trans)
          from findTransition_replay[OF ft blind bt le1] obtain c1 where
            c1: "findTransition R cfg ln offset m cur (st\<lparr>regExpCache := c\<rparr>)
                 = Some (found, p, m1, nxt, st1\<lparr>regExpCache := c1\<rparr>)"
            "cacheBetween st1 c1 cf" by blast
          have bt2: "cacheBetween st2 c1 cf" using c1(2) same by (simp add: cacheBetween_def)
          from ih2[OF bt2 le] obtain c' where
            c': "createLayersLoop R cfg ln (p + matchedLength m1) ?ls m1 (st2\<lparr>regExpCache := c1\<rparr>)
                     = Some (Inr (ls', st'\<lparr>regExpCache := c'\<rparr>))"
            "cacheBetween st' c' cf" by blast
          have "createLayersLoop R cfg ln offset ls m (st\<lparr>regExpCache := c\<rparr>)
                     = Some (Inr (ls', st'\<lparr>regExpCache := c'\<rparr>))"
            using inLine gc c1(1) False ap2[of c1] c'(1)
            by (subst createLayersLoop.simps) (simp add: getCurrentPattern_cache)
          with c'(2) show ?thesis by blast
        qed
        with grows show ?thesis by simp
      qed
    qed
  qed
qed

text \<open>
  C5. Layer computation is deterministic and can be repeated. \<open>createLayers\<close> is a function
  of the configuration, state, line and offset, so two identical copies of a state give the
  same layers and the same final state. It also holds for the copy that \<open>copyState\<close>
  makes, which shares the regular-expression cache with the original: when a scan has
  returned layers \<open>ls\<close> and the state \<open>st'\<close>, the scan from the same state with any
  cache \<open>c\<close> between the cache before and the cache after that scan (the cache before:
  an identical copy; the cache after: the copy that shares the filled cache) returns the
  same \<open>ls\<close> and the same \<open>st'\<close>. The specifications are literals, regular expressions,
  or callbacks that do not read the cache, and the hooks do not touch it, as the built-in
  callbacks do not.
\<close>

theorem createLayers_deterministic:
  assumes "cacheBlind R cfg"
    and "createLayers R cfg st ln offset = Some (Inr (ls, st'))"
    and "regExpCache st \<subseteq>\<^sub>m c" and "c \<subseteq>\<^sub>m regExpCache st'"
  shows "createLayers R cfg (st\<lparr>regExpCache := c\<rparr>) ln offset = Some (Inr (ls, st'))"
proof -
  from assms(3,4) have bt: "cacheBetween st c (regExpCache st')" by (simp add: cacheBetween_def)
  from createLayersLoop_replay[OF assms(2)[unfolded createLayers_def]] assms(1) bt
  obtain c' where c': "createLayersLoop R cfg ln offset [] None (st\<lparr>regExpCache := c\<rparr>)
        = Some (Inr (ls, st'\<lparr>regExpCache := c'\<rparr>))"
    "cacheBetween st' c' (regExpCache st')"
    by (metis map_le_refl)
  from c'(2) have "c' = regExpCache st'" by (auto simp: cacheBetween_def intro: map_le_antisym)
  with c'(1) show ?thesis by (simp add: createLayers_def)
qed

lemma demo_cacheBlind: "cacheBlind demoRuntime demoConfig"
proof -
  have specs: "specIgnoresCache (open (getPattern demoRuntime demoConfig k))
     \<and> specIgnoresCache (close (getPattern demoRuntime demoConfig k))
     \<and> specIgnoresCache (escape (getPattern demoRuntime demoConfig k))" for k
    unfolding demo_getPattern
    by (auto simp: specIgnoresCache_def defaultPatterns_def plainPattern_def demoConfig_def
        finalParserConfig_def demoOptions_def IPattern.truncate_def createDefaultOptions_def
        Let_def templateOpen_def
        singleQuote_def doubleQuote_def parenthesis_def bracket_def brace_def code_def
        templateHeader_def template_def rootId_def)
  have hooks: "hookIgnoresCache (beforeEnter demoConfig)"
    "hookIgnoresCache (afterEnter demoConfig)"
    "hookIgnoresCache (beforeExit demoConfig)"
    "hookIgnoresCache (afterExit demoConfig)"
    by (simp_all add: hookIgnoresCache_def demoConfig_def finalParserConfig_def demoOptions_def
        createDefaultOptions_def runHook_def Let_def)
  show ?thesis unfolding cacheBlind_def using specs hooks by blast
qed

text \<open>The scan of a line with a code region fills the cache; the scan from the state with
  the filled cache gives the same layers and the same state.\<close>

theorem createLayers_deterministic_witness:
  "\<exists>ls st'. createLayers demoRuntime demoConfig demoState ''a #{x} b'' 0 = Some (Inr (ls, st'))
     \<and> regExpCache st' (cacheKey codeOpenSource ''g'')
         = Some \<lparr>source = codeOpenSource, flags = ''g''\<rparr>
     \<and> createLayers demoRuntime demoConfig (demoState\<lparr>regExpCache := regExpCache st'\<rparr>)
         ''a #{x} b'' 0 = Some (Inr (ls, st'))"
proof -
  have ev: "map_option (map_sum id (\<lambda>(ls, st). regExpCache st (cacheKey codeOpenSource ''g'')))
      (createLayers demoRuntime demoConfig demoState ''a #{x} b'' 0)
      = Some (Inr (Some \<lparr>source = codeOpenSource, flags = ''g''\<rparr>))"
    by code_simp
  then obtain ls st' where r:
    "createLayers demoRuntime demoConfig demoState ''a #{x} b'' 0 = Some (Inr (ls, st'))"
    and k: "regExpCache st' (cacheKey codeOpenSource ''g'')
         = Some \<lparr>source = codeOpenSource, flags = ''g''\<rparr>"
  proof (cases "createLayers demoRuntime demoConfig demoState ''a #{x} b'' 0")
    case None
    with ev show ?thesis by simp
  next
    case (Some a)
    show ?thesis
    proof (cases a)
      case (Inl e)
      with ev Some show ?thesis by simp
    next
      case (Inr b)
      obtain ls st' where b: "b = (ls, st')" by (cases b)
      with ev Some Inr that show ?thesis by simp
    qed
  qed
  from createLayersLoop_replay[OF r[unfolded createLayers_def]] demo_cacheBlind
  have le: "regExpCache demoState \<subseteq>\<^sub>m regExpCache st'" by blast
  from createLayers_deterministic[OF demo_cacheBlind r le map_le_refl] r k
  show ?thesis by blast
qed

subsection \<open>The errors of the helpers of the dispatcher\<close>

lemma syncState_not_Impossible: "syncState R cfg st stream layer \<noteq> Inl Impossible"
  by (auto simp: syncState_def popStateContext_def split: list.splits)

lemma tokenUntil_not_Impossible:
  "tokenUntil R cfg stream st until shift sync \<noteq> Inl Impossible"
proof -
  obtain style stream1 st1 where t:
    "(case (case getLocalMode st of None \<Rightarrow> None | Some m \<Rightarrow> mtoken m) of
        Some tok \<Rightarrow>
          (case tok stream (getLocalState st) of
             (style, stream1, sub) \<Rightarrow>
               (style,
                if spos stream1 > until then stream1\<lparr>spos := until\<rparr> else stream1,
                setLocalState st sub))
      | None \<Rightarrow> (None, stream\<lparr>spos := until\<rparr>, st)) = (style, stream1, st1)"
    using prod_cases3 by blast
  show ?thesis
    unfolding tokenUntil_def Let_def t
    using syncState_not_Impossible[of R cfg st1 stream1]
    by (auto split: option.splits sum.splits if_splits)
qed

subsection \<open>The copy of a state and the objects it shares (C6)\<close>

lemma agreeOn_refl: "agreeOn A h h"
  by (simp add: agreeOn_def)

lemma agreeOn_trans: "agreeOn A h h1 \<Longrightarrow> agreeOn A h1 h2 \<Longrightarrow> agreeOn A h h2"
  by (simp add: agreeOn_def)

lemma agreeOn_mono: "agreeOn A h h' \<Longrightarrow> B \<subseteq> A \<Longrightarrow> agreeOn B h h'"
  by (auto simp: agreeOn_def)

inductive_cases patternStackAt_SomeE: "patternStackAt h (Some a) xs ps"
inductive_cases stateStackAt_SomeE: "stateStackAt h (Some a) bs ms"

text \<open>A stack is read from the links at its own addresses only.\<close>

lemma patternStackAt_links:
  assumes "patternStackAt h r xs ps"
    and "\<forall>a\<in>set xs. patternLinks h' a = patternLinks h a"
  shows "patternStackAt h' r xs ps"
  using assms
proof (induction rule: patternStackAt.induct)
  case (1 h)
  show ?case by (rule patternStackAt.intros)
next
  case (2 h a xs ps)
  from 2(3) have eq: "patternLinks h' a = patternLinks h a"
    and rest: "\<forall>a\<in>set xs. patternLinks h' a = patternLinks h a" by simp_all
  from 2(2)[OF rest] have "patternStackAt h' (linkPre (patternLinks h' a)) xs ps"
    by (simp add: eq)
  from patternStackAt.intros(2)[OF this] show ?case by (simp add: eq)
qed

lemma stateStackAt_links:
  assumes "stateStackAt h r bs ms"
    and "\<forall>a\<in>set bs. stateLinks h' a = stateLinks h a"
  shows "\<exists>ms'. stateStackAt h' r bs ms'"
  using assms
proof (induction rule: stateStackAt.induct)
  case (1 h)
  show ?case by (blast intro: stateStackAt.intros)
next
  case (2 h a bs ms)
  from 2(3) have eq: "stateLinks h' a = stateLinks h a"
    and rest: "\<forall>a\<in>set bs. stateLinks h' a = stateLinks h a" by simp_all
  from 2(2)[OF rest] obtain ms' where "stateStackAt h' (slinkPre (stateLinks h' a)) bs ms'"
    by (auto simp: eq)
  from stateStackAt.intros(2)[OF this] show ?case by (auto simp: eq)
qed

lemma stateStackAt_frame:
  assumes "stateStackAt h r bs ms"
    and "\<forall>a\<in>set bs. stateLinks h' a = stateLinks h a \<and> modeStates h' a = modeStates h a"
  shows "stateStackAt h' r bs ms"
  using assms
proof (induction rule: stateStackAt.induct)
  case (1 h)
  show ?case by (rule stateStackAt.intros)
next
  case (2 h a bs ms)
  from 2(3) have eq: "stateLinks h' a = stateLinks h a"
    and eq2: "modeStates h' (slinkState (stateLinks h a)) = modeStates h (slinkState (stateLinks h a))"
    and rest: "\<forall>a\<in>set bs. stateLinks h' a = stateLinks h a \<and> modeStates h' a = modeStates h a"
    by simp_all
  from 2(2)[OF rest] have "stateStackAt h' (slinkPre (stateLinks h' a)) bs ms"
    by (simp add: eq)
  from stateStackAt.intros(2)[OF this] show ?case by (simp add: eq eq2)
qed

lemma hasView_frame:
  assumes "hasView h s A ps ms cu" and "agreeOn A h h'"
  shows "hasView h' s A ps ms cu"
proof -
  from assms(1) obtain xs bs where p: "patternStackAt h (oPatternContext s) xs ps"
    and q: "stateStackAt h (oStateContext s) bs ms" and d: "distinct bs"
    and c: "customsObjects h (oCustoms s) = cu"
    and sub: "set xs \<union> set bs \<union> {oCustoms s} \<subseteq> A"
    unfolding hasView_def by blast
  have "patternStackAt h' (oPatternContext s) xs ps"
    by (rule patternStackAt_links[OF p]) (use sub assms(2) in \<open>auto simp: agreeOn_def\<close>)
  moreover have "stateStackAt h' (oStateContext s) bs ms"
    by (rule stateStackAt_frame[OF q]) (use sub assms(2) in \<open>auto simp: agreeOn_def\<close>)
  moreover have "customsObjects h' (oCustoms s) = cu"
    using sub assms(2) c by (auto simp: agreeOn_def)
  ultimately show ?thesis unfolding hasView_def using sub d by blast
qed

lemma hasView_mono: "hasView h s A ps ms cu \<Longrightarrow> A \<subseteq> B \<Longrightarrow> hasView h s B ps ms cu"
  unfolding hasView_def by blast

text \<open>The copy of a pattern-context stack returns: new links, above every address in use,
  with the patterns of the original; what was in the store is left as it was.\<close>

lemma copyPatternContext_ok:
  assumes "patternStackAt h r xs ps" and "\<forall>a\<in>set xs. a < nextAddr h"
  shows "\<exists>r' h' xs'. copyPatternContext h r = Some (r', h') \<and> patternStackAt h' r' xs' ps
      \<and> (\<forall>a\<in>set xs'. nextAddr h \<le> a \<and> a < nextAddr h')
      \<and> agreeOn {a. a < nextAddr h} h h' \<and> nextAddr h \<le> nextAddr h'"
  using assms
proof (induction rule: patternStackAt.induct)
  case (1 h)
  have "copyPatternContext h None = Some (None, h)"
    by (subst copyPatternContext.simps) simp
  moreover have "patternStackAt h None [] []" by (rule patternStackAt.intros)
  ultimately show ?case by (auto simp: agreeOn_def)
next
  case (2 h a xs ps)
  from 2(3) have a: "a < nextAddr h" and xs: "\<forall>a\<in>set xs. a < nextAddr h" by simp_all
  from 2(2)[OF xs] obtain pre2 h1 xs1 where
    c: "copyPatternContext h (linkPre (patternLinks h a)) = Some (pre2, h1)"
    and st: "patternStackAt h1 pre2 xs1 ps"
    and fr: "\<forall>a\<in>set xs1. nextAddr h \<le> a \<and> a < nextAddr h1"
    and ag: "agreeOn {a. a < nextAddr h} h h1"
    and le: "nextAddr h \<le> nextAddr h1" by blast
  define h2 where "h2 = h1\<lparr>nextAddr := Suc (nextAddr h1),
    patternLinks := (patternLinks h1)(nextAddr h1 :=
      \<lparr>linkPre = pre2, linkPattern = linkPattern (patternLinks h1 a)\<rparr>)\<rparr>"
  have r: "copyPatternContext h (Some a) = Some (Some (nextAddr h1), h2)"
    by (subst copyPatternContext.simps) (simp add: c newPatternLink_def h2_def)
  have eq: "patternLinks h1 a = patternLinks h a" using ag a by (simp add: agreeOn_def)
  have "\<forall>a\<in>set xs1. patternLinks h2 a = patternLinks h1 a" using fr by (auto simp: h2_def)
  from patternStackAt_links[OF st this]
  have "patternStackAt h2 (linkPre (patternLinks h2 (nextAddr h1))) xs1 ps"
    by (simp add: h2_def)
  from patternStackAt.intros(2)[OF this]
  have "patternStackAt h2 (Some (nextAddr h1)) (nextAddr h1 # xs1)
          (linkPattern (patternLinks h a) # ps)"
    by (simp add: h2_def eq)
  moreover have "\<forall>a\<in>set (nextAddr h1 # xs1). nextAddr h \<le> a \<and> a < nextAddr h2"
    using fr le by (auto simp: h2_def)
  moreover have "agreeOn {a. a < nextAddr h} h h2"
    using ag le by (auto simp: agreeOn_def h2_def)
  moreover have "nextAddr h \<le> nextAddr h2" using le by (simp add: h2_def)
  ultimately show ?case using r by blast
qed

text \<open>The copy of an embedded-mode stack returns: new links and new state objects, above
  every address in use, with the modes of the original and the copies that the modes make
  of their states.\<close>

lemma copyStateContext_ok:
  assumes "stateStackAt h r bs ms" and "\<forall>a\<in>set bs. a < nextAddr h"
  shows "\<exists>r' h' bs'. copyStateContext h r = Some (r', h')
      \<and> stateStackAt h' r' bs' (copiedStates ms) \<and> distinct bs'
      \<and> (\<forall>a\<in>set bs'. nextAddr h \<le> a \<and> a < nextAddr h')
      \<and> agreeOn {a. a < nextAddr h} h h' \<and> nextAddr h \<le> nextAddr h'"
  using assms
proof (induction rule: stateStackAt.induct)
  case (1 h)
  have "copyStateContext h None = Some (None, h)"
    by (subst copyStateContext.simps) simp
  moreover have "stateStackAt h None [] []" by (rule stateStackAt.intros)
  ultimately show ?case by (auto simp: agreeOn_def copiedStates_def)
next
  case (2 h a bs ms)
  let ?c = "slinkState (stateLinks h a)"
  let ?m = "slinkMode (stateLinks h a)"
  from 2(3) have a: "a < nextAddr h" and cl: "?c < nextAddr h"
    and bs: "\<forall>a\<in>set bs. a < nextAddr h" by simp_all
  from 2(2)[OF bs] obtain pre2 h1 bs1 where
    c: "copyStateContext h (slinkPre (stateLinks h a)) = Some (pre2, h1)"
    and st: "stateStackAt h1 pre2 bs1 (copiedStates ms)" and d: "distinct bs1"
    and fr: "\<forall>a\<in>set bs1. nextAddr h \<le> a \<and> a < nextAddr h1"
    and ag: "agreeOn {a. a < nextAddr h} h h1"
    and le: "nextAddr h \<le> nextAddr h1" by blast
  have eq: "stateLinks h1 a = stateLinks h a" using ag a by (simp add: agreeOn_def)
  have eqv: "modeStates h1 ?c = modeStates h ?c" using ag cl by (simp add: agreeOn_def)
  define h2 where "h2 = h1\<lparr>nextAddr := Suc (nextAddr h1),
    modeStates := (modeStates h1)(nextAddr h1 := mcopyState ?m (modeStates h ?c))\<rparr>"
  define h3 where "h3 = h2\<lparr>nextAddr := Suc (Suc (nextAddr h1)),
    stateLinks := (stateLinks h2)(Suc (nextAddr h1) :=
      \<lparr>slinkPre = pre2, slinkMode = ?m, slinkState = nextAddr h1\<rparr>)\<rparr>"
  have r: "copyStateContext h (Some a) = Some (Some (Suc (nextAddr h1)), h3)"
    by (subst copyStateContext.simps)
      (simp add: c copyModeState_def newModeState_def newStateLink_def h2_def h3_def eq eqv)
  have "\<forall>a\<in>set bs1. stateLinks h3 a = stateLinks h1 a \<and> modeStates h3 a = modeStates h1 a"
    using fr by (auto simp: h2_def h3_def)
  from stateStackAt_frame[OF st this]
  have "stateStackAt h3 (slinkPre (stateLinks h3 (Suc (nextAddr h1)))) bs1 (copiedStates ms)"
    by (simp add: h3_def)
  from stateStackAt.intros(2)[OF this]
  have "stateStackAt h3 (Some (Suc (nextAddr h1))) (Suc (nextAddr h1) # nextAddr h1 # bs1)
          (copiedStates ((?m, modeStates h ?c) # ms))"
    by (simp add: h3_def h2_def copiedStates_def)
  moreover have "distinct (Suc (nextAddr h1) # nextAddr h1 # bs1)"
    using fr d by auto
  moreover have "\<forall>a\<in>set (Suc (nextAddr h1) # nextAddr h1 # bs1).
      nextAddr h \<le> a \<and> a < nextAddr h3"
    using fr le by (auto simp: h3_def)
  moreover have "agreeOn {a. a < nextAddr h} h h3"
    using ag le by (auto simp: agreeOn_def h2_def h3_def)
  moreover have "nextAddr h \<le> nextAddr h3" using le by (simp add: h3_def)
  ultimately show ?case using r by blast
qed

text \<open>\<open>copyState\<close> returns for every state whose objects are in the store: the copy is
  made of new objects only, and stands for the same stacks (the sub-mode states copied by
  their modes) and the same customs; the cache is the object of the original.\<close>

lemma copyState_ok:
  assumes "hasView h s {a. a < nextAddr h} ps ms cu"
  shows "\<exists>c h'. copyState h s = Some (c, h')
      \<and> hasView h' c {a. nextAddr h \<le> a \<and> a < nextAddr h'} ps (copiedStates ms) cu
      \<and> agreeOn {a. a < nextAddr h} h h' \<and> nextAddr h \<le> nextAddr h'
      \<and> oRegExpCache c = oRegExpCache s"
proof -
  from assms obtain xs bs where p: "patternStackAt h (oPatternContext s) xs ps"
    and q: "stateStackAt h (oStateContext s) bs ms"
    and cu: "customsObjects h (oCustoms s) = cu"
    and sub: "set xs \<union> set bs \<union> {oCustoms s} \<subseteq> {a. a < nextAddr h}"
    unfolding hasView_def by blast
  define h1 where "h1 = h\<lparr>nextAddr := Suc (nextAddr h),
    layerArrays := (layerArrays h)(nextAddr h :=
      (case oLayers s of None \<Rightarrow> [] | Some a \<Rightarrow> layerArrays h a))\<rparr>"
  have ag1: "agreeOn {a. a < nextAddr h} h h1" by (simp add: agreeOn_def h1_def)
  have n1: "nextAddr h1 = Suc (nextAddr h)" by (simp add: h1_def)
  have p1: "patternStackAt h1 (oPatternContext s) xs ps"
    by (rule patternStackAt_links[OF p]) (simp add: h1_def)
  have "\<forall>a\<in>set xs. a < nextAddr h1" using sub n1 by auto
  from copyPatternContext_ok[OF p1 this] obtain pc h2 xs' where
    c2: "copyPatternContext h1 (oPatternContext s) = Some (pc, h2)"
    and p2: "patternStackAt h2 pc xs' ps"
    and fr2: "\<forall>a\<in>set xs'. nextAddr h1 \<le> a \<and> a < nextAddr h2"
    and ag2: "agreeOn {a. a < nextAddr h1} h1 h2"
    and le2: "nextAddr h1 \<le> nextAddr h2" by blast
  have ag02: "agreeOn {a. a < nextAddr h} h h2"
    using ag1 ag2 n1 by (auto simp: agreeOn_def)
  have q2: "stateStackAt h2 (oStateContext s) bs ms"
    by (rule stateStackAt_frame[OF q]) (use sub ag02 in \<open>auto simp: agreeOn_def\<close>)
  have "\<forall>a\<in>set bs. a < nextAddr h2" using sub n1 le2 by auto
  from copyStateContext_ok[OF q2 this] obtain sc h3 bs' where
    c3: "copyStateContext h2 (oStateContext s) = Some (sc, h3)"
    and q3: "stateStackAt h3 sc bs' (copiedStates ms)" and d3: "distinct bs'"
    and fr3: "\<forall>a\<in>set bs'. nextAddr h2 \<le> a \<and> a < nextAddr h3"
    and ag3: "agreeOn {a. a < nextAddr h2} h2 h3"
    and le3: "nextAddr h2 \<le> nextAddr h3" by blast
  have ag03: "agreeOn {a. a < nextAddr h} h h3"
    using ag02 ag3 n1 le2 by (auto simp: agreeOn_def)
  define h4 where "h4 = h3\<lparr>nextAddr := Suc (nextAddr h3),
    customsObjects := (customsObjects h3)(nextAddr h3 := customsObjects h3 (oCustoms s))\<rparr>"
  define c where "c = s\<lparr>oLayers := Some (nextAddr h), oPatternContext := pc,
    oStateContext := sc, oCustoms := nextAddr h3\<rparr>"
  have r: "copyState h s = Some (c, h4)"
    by (simp add: copyState_def newLayerArray_def h1_def[symmetric] c2 c3 cloneDeep_def
        newCustoms_def h4_def c_def)
  have cu3: "customsObjects h3 (oCustoms s) = cu"
    using ag03 sub cu by (auto simp: agreeOn_def)
  have p4: "patternStackAt h4 (oPatternContext c) xs' ps"
  proof -
    have "\<forall>a\<in>set xs'. patternLinks h4 a = patternLinks h2 a"
      using fr2 ag3 by (auto simp: agreeOn_def h4_def)
    from patternStackAt_links[OF p2 this] show ?thesis by (simp add: c_def)
  qed
  have q4: "stateStackAt h4 (oStateContext c) bs' (copiedStates ms)"
  proof -
    have "\<forall>a\<in>set bs'. stateLinks h4 a = stateLinks h3 a \<and> modeStates h4 a = modeStates h3 a"
      by (simp add: h4_def)
    from stateStackAt_frame[OF q3 this] show ?thesis by (simp add: c_def)
  qed
  have cu4: "customsObjects h4 (oCustoms c) = cu" by (simp add: h4_def c_def cu3)
  have sub4: "set xs' \<union> set bs' \<union> {oCustoms c}
      \<subseteq> {a. nextAddr h \<le> a \<and> a < nextAddr h4}"
    using fr2 fr3 n1 le2 le3 by (auto simp: h4_def c_def)
  have "hasView h4 c {a. nextAddr h \<le> a \<and> a < nextAddr h4} ps (copiedStates ms) cu"
    unfolding hasView_def using p4 q4 cu4 sub4 d3 by blast
  moreover have "agreeOn {a. a < nextAddr h} h h4"
    using ag03 n1 le2 le3 by (auto simp: agreeOn_def h4_def)
  moreover have "nextAddr h \<le> nextAddr h4" using n1 le2 le3 by (simp add: h4_def)
  moreover have "oRegExpCache c = oRegExpCache s" by (simp add: c_def)
  ultimately show ?thesis using r by blast
qed

inductive_cases patternStackAt_NoneE: "patternStackAt h None xs ps"
inductive_cases stateStackAt_NoneE: "stateStackAt h None bs ms"

text \<open>An operation on a state changes the objects of that state and new objects only: when
  the state is made of objects of \<open>A\<close> in use and every free address is in \<open>A\<close>, the
  store outside \<open>A\<close> is left as it was, the state that results is made of objects of
  \<open>A\<close>, and what it stands for is given by what the state stood for.\<close>

lemma applyOp_view:
  assumes v: "hasView h s (A \<inter> {a. a < nextAddr h}) ps ms cu"
    and fresh: "\<forall>a. nextAddr h \<le> a \<longrightarrow> a \<in> A"
  shows "case viewOp ps ms cu op of
           None \<Rightarrow> applyOp h s op = Inl TypeError
         | Some (ps', ms', cu') \<Rightarrow>
             (\<exists>s' h'. applyOp h s op = Inr (s', h')
                \<and> hasView h' s' (A \<inter> {a. a < nextAddr h'}) ps' ms' cu'
                \<and> agreeOn (- A) h h' \<and> nextAddr h \<le> nextAddr h')"
proof -
  from v obtain xs bs where p: "patternStackAt h (oPatternContext s) xs ps"
    and q: "stateStackAt h (oStateContext s) bs ms" and d: "distinct bs"
    and cu: "customsObjects h (oCustoms s) = cu"
    and sub: "set xs \<union> set bs \<union> {oCustoms s} \<subseteq> A \<inter> {a. a < nextAddr h}"
    unfolding hasView_def by blast
  from fresh have nA: "nextAddr h \<in> A" "Suc (nextAddr h) \<in> A" by simp_all
  show ?thesis
  proof (cases op)
    case (PushPattern pat)
    define l where "l = \<lparr>linkPre = oPatternContext s, linkPattern = pat\<rparr>"
    define s' where "s' = s\<lparr>oPatternContext := Some (nextAddr h)\<rparr>"
    define h' where "h' = h\<lparr>nextAddr := Suc (nextAddr h),
                      patternLinks := (patternLinks h)(nextAddr h := l)\<rparr>"
    have ap: "applyOp h s op = Inr (s', h')"
      by (simp add: PushPattern newPatternLink_def l_def s'_def h'_def)
    have "\<forall>a\<in>set xs. patternLinks h' a = patternLinks h a" using sub by (auto simp: h'_def)
    from patternStackAt_links[OF p this]
    have "patternStackAt h' (linkPre (patternLinks h' (nextAddr h))) xs ps"
      by (simp add: h'_def l_def)
    from patternStackAt.intros(2)[OF this]
    have p': "patternStackAt h' (oPatternContext s') (nextAddr h # xs) (pat # ps)"
      by (simp add: h'_def s'_def l_def)
    have q': "stateStackAt h' (oStateContext s') bs ms"
      using stateStackAt_frame[OF q, of h'] by (simp add: h'_def s'_def)
    have c': "customsObjects h' (oCustoms s') = cu" using cu by (simp add: h'_def s'_def)
    have "set (nextAddr h # xs) \<union> set bs \<union> {oCustoms s'} \<subseteq> A \<inter> {a. a < nextAddr h'}"
      using sub nA by (auto simp: h'_def s'_def)
    with p' q' c' d have "hasView h' s' (A \<inter> {a. a < nextAddr h'}) (pat # ps) ms cu"
      unfolding hasView_def by blast
    moreover have "agreeOn (- A) h h'" using nA by (auto simp: agreeOn_def h'_def)
    moreover have "nextAddr h \<le> nextAddr h'" by (simp add: h'_def)
    ultimately show ?thesis using ap by (auto simp: PushPattern)
  next
    case PopPattern
    show ?thesis
    proof (cases "oPatternContext s")
      case None
      with p have "ps = []" by (auto elim: patternStackAt_NoneE)
      with None show ?thesis by (simp add: PopPattern)
    next
      case (Some a)
      define s' where "s' = s\<lparr>oPatternContext := linkPre (patternLinks h a)\<rparr>"
      have ap: "applyOp h s op = Inr (s', h)" by (simp add: PopPattern Some s'_def)
      from p Some obtain xs' ps' where xs: "xs = a # xs'"
        and ps: "ps = linkPattern (patternLinks h a) # ps'"
        and p': "patternStackAt h (linkPre (patternLinks h a)) xs' ps'"
        by (auto elim: patternStackAt_SomeE)
      have "set xs' \<union> set bs \<union> {oCustoms s'} \<subseteq> A \<inter> {a. a < nextAddr h}"
        using sub xs by (auto simp: s'_def)
      with p' q cu d have "hasView h s' (A \<inter> {a. a < nextAddr h}) ps' ms cu"
        unfolding hasView_def by (auto simp: s'_def)
      then show ?thesis using ap by (auto simp: PopPattern ps agreeOn_def)
    qed
  next
    case (PushState m val)
    define l where "l = \<lparr>slinkPre = oStateContext s, slinkMode = m, slinkState = nextAddr h\<rparr>"
    define s' where "s' = s\<lparr>oStateContext := Some (Suc (nextAddr h))\<rparr>"
    define h' where "h' = h\<lparr>nextAddr := Suc (Suc (nextAddr h)),
                      modeStates := (modeStates h)(nextAddr h := val),
                      stateLinks := (stateLinks h)(Suc (nextAddr h) := l)\<rparr>"
    have ap: "applyOp h s op = Inr (s', h')"
      by (simp add: PushState newModeState_def newStateLink_def l_def s'_def h'_def)
    have "\<forall>a\<in>set bs. stateLinks h' a = stateLinks h a \<and> modeStates h' a = modeStates h a"
      using sub by (auto simp: h'_def)
    from stateStackAt_frame[OF q this]
    have "stateStackAt h' (slinkPre (stateLinks h' (Suc (nextAddr h)))) bs ms"
      by (simp add: h'_def l_def)
    from stateStackAt.intros(2)[OF this]
    have q': "stateStackAt h' (oStateContext s') (Suc (nextAddr h) # nextAddr h # bs)
        ((m, val) # ms)"
      by (simp add: h'_def s'_def l_def)
    have d': "distinct (Suc (nextAddr h) # nextAddr h # bs)" using sub d by auto
    have p': "patternStackAt h' (oPatternContext s') xs ps"
      using patternStackAt_links[OF p, of h'] by (simp add: h'_def s'_def)
    have c': "customsObjects h' (oCustoms s') = cu" using cu by (simp add: h'_def s'_def)
    have "set xs \<union> set (Suc (nextAddr h) # nextAddr h # bs) \<union> {oCustoms s'}
        \<subseteq> A \<inter> {a. a < nextAddr h'}"
      using sub nA by (auto simp: h'_def s'_def)
    with p' q' c' d' have "hasView h' s' (A \<inter> {a. a < nextAddr h'}) ps ((m, val) # ms) cu"
      unfolding hasView_def by blast
    moreover have "agreeOn (- A) h h'" using nA by (auto simp: agreeOn_def h'_def)
    moreover have "nextAddr h \<le> nextAddr h'" by (simp add: h'_def)
    ultimately show ?thesis using ap by (auto simp: PushState)
  next
    case PopState
    show ?thesis
    proof (cases "oStateContext s")
      case None
      with q have "ms = []" by (auto elim: stateStackAt_NoneE)
      with None show ?thesis by (simp add: PopState)
    next
      case (Some a)
      define s' where "s' = s\<lparr>oStateContext := slinkPre (stateLinks h a)\<rparr>"
      have ap: "applyOp h s op = Inr (s', h)" by (simp add: PopState Some s'_def)
      from q Some obtain bs' ms' where bs: "bs = a # slinkState (stateLinks h a) # bs'"
        and ms: "ms = (slinkMode (stateLinks h a), modeStates h (slinkState (stateLinks h a))) # ms'"
        and q': "stateStackAt h (slinkPre (stateLinks h a)) bs' ms'"
        by (auto elim: stateStackAt_SomeE)
      have "set xs \<union> set bs' \<union> {oCustoms s'} \<subseteq> A \<inter> {a. a < nextAddr h}"
        using sub bs by (auto simp: s'_def)
      moreover have "distinct bs'" using d bs by simp
      ultimately have "hasView h s' (A \<inter> {a. a < nextAddr h}) ps ms' cu"
        using p q' cu unfolding hasView_def by (auto simp: s'_def)
      then show ?thesis using ap by (auto simp: PopState ms agreeOn_def)
    qed
  next
    case (SetCustom key val)
    define h' where "h' = h\<lparr>customsObjects := (customsObjects h)
                 (oCustoms s := (customsObjects h (oCustoms s))(key \<mapsto> val))\<rparr>"
    have ap: "applyOp h s op = Inr (s, h')" by (simp add: SetCustom h'_def)
    have p': "patternStackAt h' (oPatternContext s) xs ps"
      using patternStackAt_links[OF p, of h'] by (simp add: h'_def)
    have q': "stateStackAt h' (oStateContext s) bs ms"
      using stateStackAt_frame[OF q, of h'] by (simp add: h'_def)
    have c': "customsObjects h' (oCustoms s) = cu(key \<mapsto> val)" using cu by (simp add: h'_def)
    have "set xs \<union> set bs \<union> {oCustoms s} \<subseteq> A \<inter> {a. a < nextAddr h'}"
      using sub by (auto simp: h'_def)
    with p' q' c' d have "hasView h' s (A \<inter> {a. a < nextAddr h'}) ps ms (cu(key \<mapsto> val))"
      unfolding hasView_def by blast
    moreover have "agreeOn (- A) h h'" using sub by (auto simp: agreeOn_def h'_def)
    moreover have "nextAddr h \<le> nextAddr h'" by (simp add: h'_def)
    ultimately show ?thesis using ap by (auto simp: SetCustom)
  next
    case (SetModeState val)
    show ?thesis
    proof (cases "oStateContext s")
      case None
      with q have "ms = []" by (auto elim: stateStackAt_NoneE)
      moreover have "applyOp h s op = Inr (s, h)" by (simp add: SetModeState None)
      ultimately show ?thesis using v by (auto simp: SetModeState agreeOn_def)
    next
      case (Some a)
      let ?c = "slinkState (stateLinks h a)"
      define h' where "h' = h\<lparr>modeStates := (modeStates h)(?c := val)\<rparr>"
      have ap: "applyOp h s op = Inr (s, h')" by (simp add: SetModeState Some h'_def)
      from q Some obtain bs' ms' where bs: "bs = a # ?c # bs'"
        and ms: "ms = (slinkMode (stateLinks h a), modeStates h ?c) # ms'"
        and q0: "stateStackAt h (slinkPre (stateLinks h a)) bs' ms'"
        by (auto elim: stateStackAt_SomeE)
      have "\<forall>b\<in>set bs'. stateLinks h' b = stateLinks h b \<and> modeStates h' b = modeStates h b"
        using d bs by (auto simp: h'_def)
      from stateStackAt_frame[OF q0 this]
      have "stateStackAt h' (slinkPre (stateLinks h' a)) bs' ms'" by (simp add: h'_def)
      from stateStackAt.intros(2)[OF this]
      have q': "stateStackAt h' (oStateContext s) bs ((slinkMode (stateLinks h a), val) # ms')"
        by (simp add: h'_def Some bs)
      have p': "patternStackAt h' (oPatternContext s) xs ps"
        using patternStackAt_links[OF p, of h'] by (simp add: h'_def)
      have c': "customsObjects h' (oCustoms s) = cu" using cu by (simp add: h'_def)
      have "set xs \<union> set bs \<union> {oCustoms s} \<subseteq> A \<inter> {a. a < nextAddr h'}"
        using sub by (auto simp: h'_def)
      with p' q' c' d have "hasView h' s (A \<inter> {a. a < nextAddr h'}) ps
          ((slinkMode (stateLinks h a), val) # ms') cu"
        unfolding hasView_def by blast
      moreover have "agreeOn (- A) h h'" using sub bs by (auto simp: agreeOn_def h'_def)
      moreover have "nextAddr h \<le> nextAddr h'" by (simp add: h'_def)
      ultimately show ?thesis using ap by (auto simp: SetModeState ms)
    qed
  qed
qed

lemma applyOp_step:
  assumes "hasView h s (A \<inter> {a. a < nextAddr h}) ps ms cu"
    and "\<forall>a. nextAddr h \<le> a \<longrightarrow> a \<in> A"
    and "applyOp h s op = Inr (s', h')"
  shows "\<exists>ps' ms' cu'. viewOp ps ms cu op = Some (ps', ms', cu')
      \<and> hasView h' s' (A \<inter> {a. a < nextAddr h'}) ps' ms' cu'
      \<and> agreeOn (- A) h h' \<and> nextAddr h \<le> nextAddr h'"
  using applyOp_view[OF assms(1,2), of op] assms(3)
  by (cases "viewOp ps ms cu op") auto

lemma applyOp_replay:
  assumes "hasView g t {a. a < nextAddr g} ps ms cu"
    and "viewOp ps ms cu op = Some (ps', ms', cu')"
  shows "\<exists>t' g'. applyOp g t op = Inr (t', g')
      \<and> hasView g' t' {a. a < nextAddr g'} ps' ms' cu'"
proof -
  have "hasView g t (UNIV \<inter> {a. a < nextAddr g}) ps ms cu" using assms(1) by simp
  from applyOp_view[OF this, of op] assms(2) show ?thesis by auto
qed

lemma applyOps_frame:
  assumes "hasView h s (A \<inter> {a. a < nextAddr h}) ps ms cu"
    and "\<forall>a. nextAddr h \<le> a \<longrightarrow> a \<in> A"
    and "applyOps h s ops = Inr (s', h')"
  shows "agreeOn (- A) h h' \<and> nextAddr h \<le> nextAddr h'"
  using assms
proof (induction ops arbitrary: h s ps ms cu)
  case Nil
  then show ?case by (simp add: agreeOn_def)
next
  case (Cons op ops)
  from Cons.prems(3) obtain s1 h1 where ap: "applyOp h s op = Inr (s1, h1)"
    and rest: "applyOps h1 s1 ops = Inr (s', h')"
    by (auto split: sum.splits)
  from applyOp_step[OF Cons.prems(1,2) ap] obtain ps1 ms1 cu1 where
    v1: "hasView h1 s1 (A \<inter> {a. a < nextAddr h1}) ps1 ms1 cu1"
    and ag: "agreeOn (- A) h h1" and le: "nextAddr h \<le> nextAddr h1" by blast
  from Cons.prems(2) le have "\<forall>a. nextAddr h1 \<le> a \<longrightarrow> a \<in> A" by auto
  from Cons.IH[OF v1 this rest] ag le show ?case
    by (auto intro: agreeOn_trans)
qed

text \<open>Two states made of disjoint sets of objects: when operations on both follow one
  another in any order, the first state ends standing for what it stands for when its own
  operations alone are applied to a state that stood for the same.\<close>

lemma applyBoth_first:
  assumes "hasView h s SA ps ms cu" and "hasView h c SC ps2 ms2 cu2"
    and "SA \<inter> SC = {}" and "SA \<union> SC \<subseteq> {a. a < nextAddr h}"
    and "hasView g t {a. a < nextAddr g} ps ms cu"
    and "applyBoth h s c ops = Inr (s', c', h')"
  shows "\<exists>t' g' ps' ms' cu'. applyOps g t (opsOn False ops) = Inr (t', g')
      \<and> hasView h' s' UNIV ps' ms' cu' \<and> hasView g' t' UNIV ps' ms' cu'"
  using assms
proof (induction ops arbitrary: h s c g t SA SC ps ms cu ps2 ms2 cu2)
  case Nil
  then have e: "s' = s" "h' = h" by simp_all
  have "hasView h s UNIV ps ms cu" by (rule hasView_mono[OF Nil.prems(1)]) simp
  moreover have "hasView g t UNIV ps ms cu" by (rule hasView_mono[OF Nil.prems(5)]) simp
  ultimately show ?case unfolding e by (auto simp: opsOn_def)
next
  case (Cons top ops)
  obtain onSecond op where top: "top = (onSecond, op)" by (cases top)
  show ?case
  proof (cases onSecond)
    case True
    from Cons.prems(6) top True obtain c1 h1 where ap: "applyOp h c op = Inr (c1, h1)"
      and rest: "applyBoth h1 s c1 ops = Inr (s', c', h')"
      by (auto split: sum.splits)
    have vc: "hasView h c (- SA \<inter> {a. a < nextAddr h}) ps2 ms2 cu2"
      by (rule hasView_mono[OF Cons.prems(2)]) (use Cons.prems(3,4) in auto)
    have fr: "\<forall>a. nextAddr h \<le> a \<longrightarrow> a \<in> - SA" using Cons.prems(4) by auto
    from applyOp_step[OF vc fr ap] obtain ps3 ms3 cu3 where
      v1: "hasView h1 c1 (- SA \<inter> {a. a < nextAddr h1}) ps3 ms3 cu3"
      and ag: "agreeOn SA h h1" and le: "nextAddr h \<le> nextAddr h1" by auto
    have vs: "hasView h1 s SA ps ms cu" by (rule hasView_frame[OF Cons.prems(1) ag])
    have dj: "SA \<inter> (- SA \<inter> {a. a < nextAddr h1}) = {}" by auto
    have un: "SA \<union> (- SA \<inter> {a. a < nextAddr h1}) \<subseteq> {a. a < nextAddr h1}"
      using Cons.prems(4) le by auto
    from Cons.IH[OF vs v1 dj un Cons.prems(5) rest] show ?thesis
      by (simp add: opsOn_def top True)
  next
    case False
    from Cons.prems(6) top False obtain s1 h1 where ap: "applyOp h s op = Inr (s1, h1)"
      and rest: "applyBoth h1 s1 c ops = Inr (s', c', h')"
      by (auto split: sum.splits)
    have vs: "hasView h s (- SC \<inter> {a. a < nextAddr h}) ps ms cu"
      by (rule hasView_mono[OF Cons.prems(1)]) (use Cons.prems(3,4) in auto)
    have fr: "\<forall>a. nextAddr h \<le> a \<longrightarrow> a \<in> - SC" using Cons.prems(4) by auto
    from applyOp_step[OF vs fr ap] obtain ps1 ms1 cu1 where
      vo: "viewOp ps ms cu op = Some (ps1, ms1, cu1)"
      and v1: "hasView h1 s1 (- SC \<inter> {a. a < nextAddr h1}) ps1 ms1 cu1"
      and ag: "agreeOn SC h h1" and le: "nextAddr h \<le> nextAddr h1" by auto
    have vc: "hasView h1 c SC ps2 ms2 cu2" by (rule hasView_frame[OF Cons.prems(2) ag])
    from applyOp_replay[OF Cons.prems(5) vo] obtain t1 g1 where
      apt: "applyOp g t op = Inr (t1, g1)"
      and vt: "hasView g1 t1 {a. a < nextAddr g1} ps1 ms1 cu1" by blast
    have dj: "(- SC \<inter> {a. a < nextAddr h1}) \<inter> SC = {}" by auto
    have un: "(- SC \<inter> {a. a < nextAddr h1}) \<union> SC \<subseteq> {a. a < nextAddr h1}"
      using Cons.prems(4) le by auto
    from Cons.IH[OF v1 vc dj un vt rest] show ?thesis
      by (simp add: opsOn_def top False apt)
  qed
qed

lemma applyBoth_swap:
  "applyBoth h s c ops = Inr (s', c', h')
   \<Longrightarrow> applyBoth h c s (map (\<lambda>t. (\<not> fst t, snd t)) ops) = Inr (c', s', h')"
proof (induction ops arbitrary: h s c)
  case Nil
  then show ?case by simp
next
  case (Cons top ops)
  obtain onSecond op where top: "top = (onSecond, op)" by (cases top)
  show ?case
  proof (cases onSecond)
    case True
    from Cons.prems top True obtain c1 h1 where ap: "applyOp h c op = Inr (c1, h1)"
      and rest: "applyBoth h1 s c1 ops = Inr (s', c', h')"
      by (auto split: sum.splits)
    from Cons.IH[OF rest] show ?thesis by (simp add: top True ap)
  next
    case False
    from Cons.prems top False obtain s1 h1 where ap: "applyOp h s op = Inr (s1, h1)"
      and rest: "applyBoth h1 s1 c ops = Inr (s', c', h')"
      by (auto split: sum.splits)
    from Cons.IH[OF rest] show ?thesis by (simp add: top False ap)
  qed
qed

lemma opsOn_swap: "opsOn False (map (\<lambda>t. (\<not> fst t, snd t)) ops) = opsOn True ops"
  by (induction ops) (auto simp: opsOn_def)

lemma exampleState_view:
  "hasView exampleStore exampleState {a. a < nextAddr exampleStore}
     [code, rootId] [(nullMode, JNull)] [''justExitTemplate'' \<mapsto> JBool True]"
proof -
  have "patternStackAt exampleStore (linkPre (patternLinks exampleStore 2)) [] []"
    by (simp add: exampleStore_def patternStackAt.intros)
  from patternStackAt.intros(2)[OF this]
  have "patternStackAt exampleStore (linkPre (patternLinks exampleStore 3)) [2] [rootId]"
    by (simp add: exampleStore_def)
  from patternStackAt.intros(2)[OF this]
  have p: "patternStackAt exampleStore (oPatternContext exampleState) [3, 2] [code, rootId]"
    by (simp add: exampleStore_def exampleState_def)
  have "stateStackAt exampleStore (slinkPre (stateLinks exampleStore 4)) [] []"
    by (simp add: exampleStore_def stateStackAt.intros)
  from stateStackAt.intros(2)[OF this]
  have q: "stateStackAt exampleStore (oStateContext exampleState) [4, 5] [(nullMode, JNull)]"
    by (simp add: exampleStore_def exampleState_def)
  have c: "customsObjects exampleStore (oCustoms exampleState)
      = [''justExitTemplate'' \<mapsto> JBool True]"
    by (simp add: exampleStore_def exampleState_def)
  have d: "distinct [4, 5::nat]" by simp
  have sub: "set [3, 2] \<union> set [4, 5] \<union> {oCustoms exampleState}
      \<subseteq> {a. a < nextAddr exampleStore}"
    by (simp add: exampleStore_def exampleState_def)
  show ?thesis unfolding hasView_def using p q c d sub by blast
qed

text \<open>
  C6. \<open>copyState\<close> gives an independent snapshot. For a state whose objects are in the
  store and that stands for the pattern-context stack \<open>ps\<close>, the embedded-mode stack \<open>ms\<close>
  and the customs \<open>cu\<close>, \<open>copyState\<close> returns a copy \<open>c\<close>. The copy is made of objects
  that did not exist before (their addresses are not below the first free address of the
  store before the copy, where all the objects of the original are): new links for both
  stacks, new sub-mode states, a new customs object. Its pattern-context stack holds the
  same patterns \<open>ps\<close> (the identities of the pattern objects, which are not copied), its
  embedded-mode stack holds the same modes with the copies that the modes make of their
  states, and its customs have the same content. The original stands for what it stood for;
  the cache is one object for both. Afterwards, operations on the copy (pushing and popping
  on either stack, writing customs, the active sub-mode changing its state) leave what the
  original stands for as it was, and operations on the original leave what the copy stands
  for as it was. When operations on both follow one another in any order, each of the two
  ends standing for what it stands for when its own operations alone are applied after the
  copy.
\<close>

theorem copyState_independent:
  assumes "hasView h s {a. a < nextAddr h} ps ms cu"
  shows "\<exists>c h1. copyState h s = Some (c, h1)
      \<and> hasView h1 c {a. nextAddr h \<le> a \<and> a < nextAddr h1} ps (copiedStates ms) cu
      \<and> hasView h1 s {a. a < nextAddr h} ps ms cu
      \<and> oRegExpCache c = oRegExpCache s
      \<and> (\<forall>ops c' h2. applyOps h1 c ops = Inr (c', h2)
            \<longrightarrow> hasView h2 s {a. a < nextAddr h} ps ms cu)
      \<and> (\<forall>ops s' h2. applyOps h1 s ops = Inr (s', h2)
            \<longrightarrow> hasView h2 c {a. nextAddr h \<le> a \<and> a < nextAddr h1} ps (copiedStates ms) cu)
      \<and> (\<forall>ops s' c' h2. applyBoth h1 s c ops = Inr (s', c', h2)
            \<longrightarrow> (\<exists>s2 g ps' ms' cu'. applyOps h1 s (opsOn False ops) = Inr (s2, g)
                    \<and> hasView h2 s' UNIV ps' ms' cu' \<and> hasView g s2 UNIV ps' ms' cu')
              \<and> (\<exists>c2 g ps' ms' cu'. applyOps h1 c (opsOn True ops) = Inr (c2, g)
                    \<and> hasView h2 c' UNIV ps' ms' cu' \<and> hasView g c2 UNIV ps' ms' cu'))"
proof -
  let ?S = "{a. a < nextAddr h}"
  from copyState_ok[OF assms] obtain c h1 where r: "copyState h s = Some (c, h1)"
    and vc: "hasView h1 c {a. nextAddr h \<le> a \<and> a < nextAddr h1} ps (copiedStates ms) cu"
    and ag: "agreeOn ?S h h1" and le: "nextAddr h \<le> nextAddr h1"
    and ca: "oRegExpCache c = oRegExpCache s" by blast
  let ?C = "{a. nextAddr h \<le> a \<and> a < nextAddr h1}"
  have vs: "hasView h1 s ?S ps ms cu" by (rule hasView_frame[OF assms ag])
  have onCopy: "hasView h2 s ?S ps ms cu" if ap: "applyOps h1 c ops = Inr (c', h2)"
    for ops c' h2
  proof -
    have v: "hasView h1 c ({a. nextAddr h \<le> a} \<inter> {a. a < nextAddr h1}) ps (copiedStates ms) cu"
      by (rule hasView_mono[OF vc]) auto
    have fr: "\<forall>a. nextAddr h1 \<le> a \<longrightarrow> a \<in> {a. nextAddr h \<le> a}" using le by auto
    from applyOps_frame[OF v fr ap] have "agreeOn (- {a. nextAddr h \<le> a}) h1 h2" by simp
    then have "agreeOn ?S h1 h2" by (rule agreeOn_mono) auto
    from hasView_frame[OF vs this] show ?thesis .
  qed
  have onOriginal: "hasView h2 c ?C ps (copiedStates ms) cu"
    if ap: "applyOps h1 s ops = Inr (s', h2)" for ops s' h2
  proof -
    have v: "hasView h1 s (- ?C \<inter> {a. a < nextAddr h1}) ps ms cu"
      by (rule hasView_mono[OF vs]) (use le in auto)
    have fr: "\<forall>a. nextAddr h1 \<le> a \<longrightarrow> a \<in> - ?C" by auto
    from applyOps_frame[OF v fr ap] have "agreeOn ?C h1 h2" by simp
    from hasView_frame[OF vc this] show ?thesis .
  qed
  have dj: "?S \<inter> ?C = {}" by auto
  have un: "?S \<union> ?C \<subseteq> {a. a < nextAddr h1}" using le by auto
  have vs1: "hasView h1 s {a. a < nextAddr h1} ps ms cu"
    by (rule hasView_mono[OF vs]) (use le in auto)
  have vc1: "hasView h1 c {a. a < nextAddr h1} ps (copiedStates ms) cu"
    by (rule hasView_mono[OF vc]) auto
  have both1: "\<exists>s2 g ps' ms' cu'. applyOps h1 s (opsOn False ops) = Inr (s2, g)
      \<and> hasView h2 s' UNIV ps' ms' cu' \<and> hasView g s2 UNIV ps' ms' cu'"
    if ap: "applyBoth h1 s c ops = Inr (s', c', h2)" for ops s' c' h2
    by (rule applyBoth_first[OF vs vc dj un vs1 ap])
  have both2: "\<exists>c2 g ps' ms' cu'. applyOps h1 c (opsOn True ops) = Inr (c2, g)
      \<and> hasView h2 c' UNIV ps' ms' cu' \<and> hasView g c2 UNIV ps' ms' cu'"
    if ap: "applyBoth h1 s c ops = Inr (s', c', h2)" for ops s' c' h2
  proof -
    have dj': "?C \<inter> ?S = {}" by auto
    have un': "?C \<union> ?S \<subseteq> {a. a < nextAddr h1}" using le by auto
    from applyBoth_first[OF vc vs dj' un' vc1 applyBoth_swap[OF ap]]
    show ?thesis by (simp add: opsOn_swap)
  qed
  show ?thesis
  proof (rule exI[of _ c], rule exI[of _ h1], intro conjI allI impI)
    show "copyState h s = Some (c, h1)" by (rule r)
    show "hasView h1 c ?C ps (copiedStates ms) cu" by (rule vc)
    show "hasView h1 s ?S ps ms cu" by (rule vs)
    show "oRegExpCache c = oRegExpCache s" by (rule ca)
    show "hasView h2 s ?S ps ms cu" if "applyOps h1 c ops = Inr (c', h2)" for ops c' h2
      using that by (rule onCopy)
    show "hasView h2 c ?C ps (copiedStates ms) cu" if "applyOps h1 s ops = Inr (s', h2)"
      for ops s' h2
      using that by (rule onOriginal)
    show "\<exists>s2 g ps' ms' cu'. applyOps h1 s (opsOn False ops) = Inr (s2, g)
        \<and> hasView h2 s' UNIV ps' ms' cu' \<and> hasView g s2 UNIV ps' ms' cu'"
      if "applyBoth h1 s c ops = Inr (s', c', h2)" for ops s' c' h2
      using that by (rule both1)
    show "\<exists>c2 g ps' ms' cu'. applyOps h1 c (opsOn True ops) = Inr (c2, g)
        \<and> hasView h2 c' UNIV ps' ms' cu' \<and> hasView g c2 UNIV ps' ms' cu'"
      if "applyBoth h1 s c ops = Inr (s', c', h2)" for ops s' c' h2
      using that by (rule both2)
  qed
qed

text \<open>The state inside a code region is copied; the copy then leaves the code region and
  the sub-mode and clears the flag of the customs: the original still stands for the code
  region, the sub-mode and the flag set.\<close>

theorem copyState_independent_witness:
  "\<exists>c h1 c' h2. copyState exampleStore exampleState = Some (c, h1)
      \<and> applyOps h1 c exampleOps = Inr (c', h2)
      \<and> hasView h1 c {a. nextAddr exampleStore \<le> a \<and> a < nextAddr h1}
           [code, rootId] [(nullMode, JNull)] [''justExitTemplate'' \<mapsto> JBool True]
      \<and> hasView h2 exampleState {a. a < nextAddr exampleStore}
           [code, rootId] [(nullMode, JNull)] [''justExitTemplate'' \<mapsto> JBool True]"
proof -
  from copyState_independent[OF exampleState_view]
  obtain c h1 where r: "copyState exampleStore exampleState = Some (c, h1)"
    and vc: "hasView h1 c {a. nextAddr exampleStore \<le> a \<and> a < nextAddr h1}
       [code, rootId] (copiedStates [(nullMode, JNull)]) [''justExitTemplate'' \<mapsto> JBool True]"
    and onCopy: "\<forall>ops c' h2. applyOps h1 c ops = Inr (c', h2)
       \<longrightarrow> hasView h2 exampleState {a. a < nextAddr exampleStore}
            [code, rootId] [(nullMode, JNull)] [''justExitTemplate'' \<mapsto> JBool True]"
    by blast
  have "map_option (\<lambda>(c, h1). isl (applyOps h1 c exampleOps))
      (copyState exampleStore exampleState) = Some False"
    by code_simp
  with r obtain c' h2 where ap: "applyOps h1 c exampleOps = Inr (c', h2)"
    by (cases "applyOps h1 c exampleOps") auto
  have cs: "copiedStates [(nullMode, JNull)] = [(nullMode, JNull)]"
    by (simp add: copiedStates_def nullMode_def)
  from r ap vc onCopy show ?thesis unfolding cs by blast
qed

subsection \<open>Escapes are looked back once (C2)\<close>

text \<open>The flag \<open>escaped\<close> with which the loop is entered does not matter for the result of
  \<open>matchWithEscape\<close>.\<close>

lemma escapeLoop_flag:
  "(case escapeLoop R ln pat esc p m True st of
      None \<Rightarrow> None
    | Some ((p', m', e'), st') \<Rightarrow>
        (let q = (if e' then - 1 else p')
         in Some ((q, if q \<noteq> - 1 then m' else None), st')))
   = (case escapeLoop R ln pat esc p m False st of
        None \<Rightarrow> None
      | Some ((p', m', e'), st') \<Rightarrow>
          (let q = (if e' then - 1 else p')
           in Some ((q :: int, if q \<noteq> - 1 then m' else None), st' :: ITemplateState)))"
proof (cases "p = - 1")
  case True
  show ?thesis
    unfolding True
    by (simp add: escapeLoop.simps[of R ln pat esc "- 1" m True st]
        escapeLoop.simps[of R ln pat esc "- 1" m False st])
next
  case False
  then have "escapeLoop R ln pat esc p m True st = escapeLoop R ln pat esc p m False st"
    by (simp add: escapeLoop.simps[of R ln pat esc p m True st]
        escapeLoop.simps[of R ln pat esc p m False st])
  then show ?thesis by simp
qed

text \<open>\<open>matchWithEscape\<close> by the first match: none, a match that the escape check lets
  pass, or a match that it skips, and then the search goes on from the end of that match.\<close>

lemma matchWithEscape_first:
  assumes "match R ln position M_DEFAULT pat st = ((p0, m0), st0)"
  shows "(p0 = - 1 \<longrightarrow> matchWithEscape R ln position pat esc st = Some ((- 1, None), st0))
    \<and> (p0 \<noteq> - 1 \<and> checkEscape R st0 ln p0 esc = (False, st1)
         \<longrightarrow> matchWithEscape R ln position pat esc st = Some ((p0, m0), st1))
    \<and> (p0 \<noteq> - 1 \<and> checkEscape R st0 ln p0 esc = (True, st1)
         \<longrightarrow> matchWithEscape R ln position pat esc st
             = matchWithEscape R ln (p0 + matchedLength m0) pat esc st1)"
proof (intro conjI impI)
  assume "p0 = - 1"
  then show "matchWithEscape R ln position pat esc st = Some ((- 1, None), st0)"
    using assms
    by (simp add: matchWithEscape_def escapeLoop.simps[of R ln pat esc "- 1" m0 False st0])
next
  assume a: "p0 \<noteq> - 1 \<and> checkEscape R st0 ln p0 esc = (False, st1)"
  then show "matchWithEscape R ln position pat esc st = Some ((p0, m0), st1)"
    using assms
    by (simp add: matchWithEscape_def escapeLoop.simps[of R ln pat esc p0 m0 False st0])
next
  assume a: "p0 \<noteq> - 1 \<and> checkEscape R st0 ln p0 esc = (True, st1)"
  obtain p2 m2 st2 where mt:
    "match R ln (p0 + matchedLength m0) M_DEFAULT pat st1 = ((p2, m2), st2)"
    by (cases "match R ln (p0 + matchedLength m0) M_DEFAULT pat st1") auto
  have l: "escapeLoop R ln pat esc p0 m0 False st0 = escapeLoop R ln pat esc p2 m2 True st2"
    using a mt by (simp add: escapeLoop.simps[of R ln pat esc p0 m0 False st0])
  show "matchWithEscape R ln position pat esc st
      = matchWithEscape R ln (p0 + matchedLength m0) pat esc st1"
    using assms mt escapeLoop_flag[of R ln pat esc p2 m2 st2]
    by (simp add: matchWithEscape_def l)
qed

lemma occurrence_absorb:
  "occurrence ln c position k = - 1 \<Longrightarrow> k \<le> i \<Longrightarrow> occurrence ln c position i = - 1"
proof (induction i)
  case 0
  then show ?case by simp
next
  case (Suc i)
  show ?case
  proof (cases "k = Suc i")
    case True
    with Suc.prems show ?thesis by simp
  next
    case False
    with Suc.prems have "k \<le> i" by simp
    from Suc.IH[OF Suc.prems(1) this] show ?thesis by simp
  qed
qed

lemma occurrence_valid:
  assumes "c \<noteq> []"
  shows "occurrence ln c position k \<noteq> - 1 \<Longrightarrow>
     int (clampPos ln position) \<le> occurrence ln c position k
     \<and> take (length c) (drop (nat (occurrence ln c position k)) ln) = c
     \<and> nat (occurrence ln c position k) + length c \<le> length ln"
proof (induction k)
  case 0
  with indexOf_cases[of ln c position] show ?case by auto
next
  case (Suc k)
  let ?q = "occurrence ln c position k"
  from Suc.prems have q: "?q \<noteq> - 1"
    and n: "occurrence ln c position (Suc k) = indexOf ln c (?q + int (length c))"
    by (auto split: if_splits)
  from Suc.IH[OF q] have lo: "int (clampPos ln position) \<le> ?q"
    and le: "nat ?q + length c \<le> length ln" by auto
  have cl: "clampPos ln (?q + int (length c)) = nat ?q + length c"
    using lo le by (simp add: clampPos_def nat_add_distrib)
  from indexOf_cases[of ln c "?q + int (length c)"] Suc.prems n cl lo
  show ?case by auto
qed

lemma escapeLoop_occurrence:
  assumes c: "c \<noteq> []" and e: "e \<noteq> []"
  shows "p = occurrence ln c position k \<Longrightarrow> (p \<noteq> - 1 \<longrightarrow> m = Some c) \<Longrightarrow>
     (\<forall>i<k. occurrence ln c position i \<noteq> - 1 \<and> endsWith ln e (occurrence ln c position i)) \<Longrightarrow>
     \<exists>p' m' e'. escapeLoop R ln (Str c) (Some (Str e)) p m e0 st = Some ((p', m', e'), st)
       \<and> (p' = - 1 \<longrightarrow>
            (\<forall>i. occurrence ln c position i \<noteq> - 1 \<longrightarrow> endsWith ln e (occurrence ln c position i)))
       \<and> (p' \<noteq> - 1 \<longrightarrow> m' = Some c \<and> \<not> e' \<and> \<not> endsWith ln e p'
            \<and> (\<exists>k'. occurrence ln c position k' = p'
                  \<and> (\<forall>i<k'. occurrence ln c position i \<noteq> - 1
                              \<and> endsWith ln e (occurrence ln c position i))))"
proof (induction "nat (int (length ln) - p)" arbitrary: p m e0 k rule: less_induct)
  case less
  let ?occ = "occurrence ln c position"
  show ?case
  proof (cases "p = - 1")
    case True
    have r: "escapeLoop R ln (Str c) (Some (Str e)) p m e0 st = Some ((- 1, m, e0), st)"
      using True by (subst escapeLoop.simps) simp
    have "endsWith ln e (?occ i)" if "?occ i \<noteq> - 1" for i
    proof (cases "i < k")
      case True
      with less.prems(3) show ?thesis by simp
    next
      case False
      then have "k \<le> i" by simp
      from occurrence_absorb[OF _ this, of ln c position] less.prems(1) True that
      show ?thesis by simp
    qed
    with r show ?thesis by auto
  next
    case False
    with less.prems have m: "m = Some c" and pk: "?occ k \<noteq> - 1" by auto
    from occurrence_valid[OF c pk] less.prems(1)
    have p: "0 \<le> p" "nat p + length c \<le> length ln"
      by (auto simp: clampPos_def)
    show ?thesis
    proof (cases "endsWith ln e p")
      case notEsc: False
      have "escapeLoop R ln (Str c) (Some (Str e)) p m e0 st = Some ((p, m, False), st)"
        using False notEsc by (subst escapeLoop.simps) (simp add: checkEscape_Str)
      moreover have "\<exists>k'. ?occ k' = p \<and> (\<forall>i<k'. ?occ i \<noteq> - 1 \<and> endsWith ln e (?occ i))"
        using less.prems(1,3) by blast
      ultimately show ?thesis using False m notEsc by auto
    next
      case esc: True
      let ?next = "p + int (length c)"
      let ?p2 = "indexOf ln c ?next"
      have nk: "?occ (Suc k) = ?p2" using less.prems(1) False by simp
      have step: "escapeLoop R ln (Str c) (Some (Str e)) p m e0 st =
          escapeLoop R ln (Str c) (Some (Str e)) ?p2
            (if ?p2 \<ge> 0 then Some c else None) True st"
        using False esc e m
        by (subst escapeLoop.simps) (simp add: checkEscape_Str matchedLength_def Let_def)
      have all: "\<forall>i<Suc k. ?occ i \<noteq> - 1 \<and> endsWith ln e (?occ i)"
        using less.prems(1,3) esc pk by (auto simp: less_Suc_eq)
      show ?thesis
      proof (cases "?p2 = - 1")
        case True
        have r: "escapeLoop R ln (Str c) (Some (Str e)) p m e0 st = Some ((- 1, None, True), st)"
          unfolding step True by (subst escapeLoop.simps) simp
        have "endsWith ln e (?occ i)" if "?occ i \<noteq> - 1" for i
        proof (cases "i < Suc k")
          case True
          with all show ?thesis by blast
        next
          case False
          then have "Suc k \<le> i" by simp
          from occurrence_absorb[OF _ this, of ln c position] nk True that
          show ?thesis by simp
        qed
        with r show ?thesis by auto
      next
        case ne: False
        from occurrence_valid[OF c, of ln position "Suc k"] nk ne
        have v: "take (length c) (drop (nat ?p2) ln) = c" "nat ?p2 + length c \<le> length ln"
          by auto
        have cl: "clampPos ln ?next = nat p + length c"
          using p by (simp add: clampPos_def nat_add_distrib)
        from indexOf_cases[of ln c ?next] ne cl have ge: "int (nat p + length c) \<le> ?p2"
          by auto
        have lt: "nat (int (length ln) - ?p2) < nat (int (length ln) - p)"
          using ge v(2) c p by (cases c) auto
        have m2: "?p2 \<noteq> - 1 \<longrightarrow> (if ?p2 \<ge> 0 then Some c else None) = Some c"
          using ge p by auto
        from less.hyps[OF lt nk[symmetric] m2 all, of True]
        show ?thesis unfolding step .
      qed
    qed
  qed
qed

lemma matchWithEscape_occurrence:
  assumes c: "c \<noteq> []" and e: "e \<noteq> []"
  shows "\<exists>q m. matchWithEscape R ln position (Str c) (Some (Str e)) st = Some ((q, m), st)
     \<and> (q = - 1 \<longrightarrow> m = None
          \<and> (\<forall>i. occurrence ln c position i \<noteq> - 1 \<longrightarrow> endsWith ln e (occurrence ln c position i)))
     \<and> (q \<noteq> - 1 \<longrightarrow> m = Some c \<and> int (clampPos ln position) \<le> q
          \<and> take (length c) (drop (nat q) ln) = c
          \<and> \<not> endsWith ln e q
          \<and> (\<exists>k. occurrence ln c position k = q
                \<and> (\<forall>i<k. occurrence ln c position i \<noteq> - 1
                            \<and> endsWith ln e (occurrence ln c position i))))"
proof -
  let ?first = "indexOf ln c position"
  let ?mfirst = "if ?first \<ge> 0 then Some c else None"
  have m0: "?first \<noteq> - 1 \<longrightarrow> ?mfirst = Some c"
    using indexOf_cases[of ln c position] by auto
  have k0: "?first = occurrence ln c position 0" by simp
  have a0: "\<forall>i<0::nat. occurrence ln c position i \<noteq> - 1
      \<and> endsWith ln e (occurrence ln c position i)" by simp
  from escapeLoop_occurrence[OF c e k0 m0 a0, of R False st]
  obtain p' m' e' where r:
    "escapeLoop R ln (Str c) (Some (Str e)) ?first ?mfirst False st = Some ((p', m', e'), st)"
    "p' = - 1 \<longrightarrow>
       (\<forall>i. occurrence ln c position i \<noteq> - 1 \<longrightarrow> endsWith ln e (occurrence ln c position i))"
    "p' \<noteq> - 1 \<longrightarrow> m' = Some c \<and> \<not> e' \<and> \<not> endsWith ln e p'
        \<and> (\<exists>k'. occurrence ln c position k' = p'
              \<and> (\<forall>i<k'. occurrence ln c position i \<noteq> - 1
                          \<and> endsWith ln e (occurrence ln c position i)))"
    by blast
  let ?res = "if e' then - 1 else p'"
  have res: "matchWithEscape R ln position (Str c) (Some (Str e)) st
      = Some ((?res, if ?res \<noteq> - 1 then m' else None), st)"
    using r(1) by (simp add: matchWithEscape_def Let_def)
  have eq: "?res = p'" using r(3) by auto
  have valid: "p' \<noteq> - 1 \<Longrightarrow> int (clampPos ln position) \<le> p'
      \<and> take (length c) (drop (nat p') ln) = c"
  proof -
    assume ne: "p' \<noteq> - 1"
    with r(3) obtain k' where "occurrence ln c position k' = p'" by blast
    with occurrence_valid[OF c, of ln position k'] ne show ?thesis by auto
  qed
  show ?thesis
    unfolding res eq using r(2,3) valid by auto
qed

text \<open>
  C2 (as amended). For a closer \<open>C\<close> with escape specification \<open>E\<close>, of any kind:
  \<open>matchWithEscape\<close> takes the first match of \<open>C\<close> at or after the position; without a
  match the result is \<open>(-1, null)\<close>; when the escape check at the position of the match
  fails the match is returned; when the check holds the match is skipped and the result is
  that of the search from the end of the skipped match. The check looks at the text before
  the match once: for a literal \<open>E\<close> it holds exactly when that text ends with \<open>E\<close>
  (and \<open>E\<close> is not empty), whatever precedes this \<open>E\<close>; a match preceded by \<open>E E\<close>
  is preceded by \<open>E\<close>, so it is skipped too, not returned. For a literal \<open>C\<close> and a
  literal \<open>E\<close> the search returns, and the position returned is that of the first of the
  occurrences it comes to (the first at or after the position, then the first at or after
  the end of the one before) that is not preceded by \<open>E\<close>; it is -1 when all of them
  are preceded by \<open>E\<close>.
\<close>

theorem matchWithEscape_single_lookback:
  "(match R ln position M_DEFAULT pat st = ((p0, m0), st0) \<longrightarrow>
      (p0 = - 1 \<longrightarrow> matchWithEscape R ln position pat esc st = Some ((- 1, None), st0))
    \<and> (p0 \<noteq> - 1 \<and> checkEscape R st0 ln p0 esc = (False, st1)
         \<longrightarrow> matchWithEscape R ln position pat esc st = Some ((p0, m0), st1))
    \<and> (p0 \<noteq> - 1 \<and> checkEscape R st0 ln p0 esc = (True, st1)
         \<longrightarrow> matchWithEscape R ln position pat esc st
             = matchWithEscape R ln (p0 + matchedLength m0) pat esc st1))
   \<and> checkEscape R st ln p (Some (Str e)) = (e \<noteq> [] \<and> endsWith ln e p, st)
   \<and> (endsWith ln (e @ e) p \<longrightarrow> endsWith ln e p)
   \<and> (c \<noteq> [] \<and> e \<noteq> [] \<longrightarrow>
        (\<exists>q m. matchWithEscape R ln position (Str c) (Some (Str e)) st = Some ((q, m), st)
           \<and> (q = - 1 \<longrightarrow> m = None
                \<and> (\<forall>i. occurrence ln c position i \<noteq> - 1
                         \<longrightarrow> endsWith ln e (occurrence ln c position i)))
           \<and> (q \<noteq> - 1 \<longrightarrow> m = Some c \<and> int (clampPos ln position) \<le> q
                \<and> take (length c) (drop (nat q) ln) = c
                \<and> \<not> endsWith ln e q \<and> \<not> endsWith ln (e @ e) q
                \<and> (\<exists>k. occurrence ln c position k = q
                      \<and> (\<forall>i<k. occurrence ln c position i \<noteq> - 1
                                  \<and> endsWith ln e (occurrence ln c position i))))))"
proof (intro conjI)
  show "match R ln position M_DEFAULT pat st = ((p0, m0), st0) \<longrightarrow>
      (p0 = - 1 \<longrightarrow> matchWithEscape R ln position pat esc st = Some ((- 1, None), st0))
    \<and> (p0 \<noteq> - 1 \<and> checkEscape R st0 ln p0 esc = (False, st1)
         \<longrightarrow> matchWithEscape R ln position pat esc st = Some ((p0, m0), st1))
    \<and> (p0 \<noteq> - 1 \<and> checkEscape R st0 ln p0 esc = (True, st1)
         \<longrightarrow> matchWithEscape R ln position pat esc st
             = matchWithEscape R ln (p0 + matchedLength m0) pat esc st1)"
    using matchWithEscape_first[of R ln position pat st p0 m0 st0 esc st1] by blast
  show "checkEscape R st ln p (Some (Str e)) = (e \<noteq> [] \<and> endsWith ln e p, st)"
    by (rule checkEscape_Str)
  show "endsWith ln (e @ e) p \<longrightarrow> endsWith ln e p"
    using endsWith_append[of ln e e p] by blast
  show "c \<noteq> [] \<and> e \<noteq> [] \<longrightarrow>
        (\<exists>q m. matchWithEscape R ln position (Str c) (Some (Str e)) st = Some ((q, m), st)
           \<and> (q = - 1 \<longrightarrow> m = None
                \<and> (\<forall>i. occurrence ln c position i \<noteq> - 1
                         \<longrightarrow> endsWith ln e (occurrence ln c position i)))
           \<and> (q \<noteq> - 1 \<longrightarrow> m = Some c \<and> int (clampPos ln position) \<le> q
                \<and> take (length c) (drop (nat q) ln) = c
                \<and> \<not> endsWith ln e q \<and> \<not> endsWith ln (e @ e) q
                \<and> (\<exists>k. occurrence ln c position k = q
                      \<and> (\<forall>i<k. occurrence ln c position i \<noteq> - 1
                                  \<and> endsWith ln e (occurrence ln c position i)))))"
  proof
    assume a: "c \<noteq> [] \<and> e \<noteq> []"
    then have c: "c \<noteq> []" and e: "e \<noteq> []" by simp_all
    from matchWithEscape_occurrence[OF c e, of R ln position st]
    obtain q m where r:
      "matchWithEscape R ln position (Str c) (Some (Str e)) st = Some ((q, m), st)"
      "q = - 1 \<longrightarrow> m = None
          \<and> (\<forall>i. occurrence ln c position i \<noteq> - 1 \<longrightarrow> endsWith ln e (occurrence ln c position i))"
      "q \<noteq> - 1 \<longrightarrow> m = Some c \<and> int (clampPos ln position) \<le> q
          \<and> take (length c) (drop (nat q) ln) = c
          \<and> \<not> endsWith ln e q
          \<and> (\<exists>k. occurrence ln c position k = q
                \<and> (\<forall>i<k. occurrence ln c position i \<noteq> - 1
                            \<and> endsWith ln e (occurrence ln c position i)))"
      by blast
    have "q \<noteq> - 1 \<longrightarrow> \<not> endsWith ln (e @ e) q"
      using r(3) endsWith_append[of ln e e q] by blast
    with r show "\<exists>q m. matchWithEscape R ln position (Str c) (Some (Str e)) st = Some ((q, m), st)
           \<and> (q = - 1 \<longrightarrow> m = None
                \<and> (\<forall>i. occurrence ln c position i \<noteq> - 1
                         \<longrightarrow> endsWith ln e (occurrence ln c position i)))
           \<and> (q \<noteq> - 1 \<longrightarrow> m = Some c \<and> int (clampPos ln position) \<le> q
                \<and> take (length c) (drop (nat q) ln) = c
                \<and> \<not> endsWith ln e q \<and> \<not> endsWith ln (e @ e) q
                \<and> (\<exists>k. occurrence ln c position k = q
                      \<and> (\<forall>i<k. occurrence ln c position i \<noteq> - 1
                                  \<and> endsWith ln e (occurrence ln c position i))))"
      by blast
  qed
qed

text \<open>The closer \<open>"\<close> with escape backslash on the line of two backslashes and a quote:
  the quote after the escaped escape is not returned.\<close>

theorem matchWithEscape_double_escape_counterexample:
  "map_option fst (matchWithEscape demoRuntime [CHR 0x5C, CHR 0x5C, CHR 0x22] 0
      (Str [CHR 0x22]) (Some (Str [CHR 0x5C])) demoState) = Some (- 1, None)"
  by code_simp

text \<open>On the line \<open>a\"b"\<close> the first quote is preceded by the escape: it is skipped, the
  search goes on from index 3, and the quote at index 4 is returned.\<close>

theorem matchWithEscape_single_lookback_witness:
  "matchWithEscape demoRuntime [CHR ''a'', CHR 0x5C, CHR 0x22, CHR ''b'', CHR 0x22] 0
       (Str [CHR 0x22]) (Some (Str [CHR 0x5C])) demoState
     = Some ((4, Some [CHR 0x22]), demoState)
   \<and> matchWithEscape demoRuntime [CHR ''a'', CHR 0x5C, CHR 0x22, CHR ''b'', CHR 0x22] 0
       (Str [CHR 0x22]) (Some (Str [CHR 0x5C])) demoState
     = matchWithEscape demoRuntime [CHR ''a'', CHR 0x5C, CHR 0x22, CHR ''b'', CHR 0x22] 3
       (Str [CHR 0x22]) (Some (Str [CHR 0x5C])) demoState
   \<and> endsWith [CHR ''a'', CHR 0x5C, CHR 0x22, CHR ''b'', CHR 0x22] [CHR 0x5C] 2
   \<and> \<not> endsWith [CHR ''a'', CHR 0x5C, CHR 0x22, CHR ''b'', CHR 0x22] [CHR 0x5C] 4"
proof -
  let ?ln = "[CHR ''a'', CHR 0x5C, CHR 0x22, CHR ''b'', CHR 0x22]"
  let ?q = "[CHR 0x22]"
  let ?b = "[CHR 0x5C]"
  have ev: "map_option fst (matchWithEscape demoRuntime ?ln 0
       (Str ?q) (Some (Str ?b)) demoState) = Some (4, Some ?q)"
    by code_simp
  have mt: "match demoRuntime ?ln 0 M_DEFAULT (Str ?q) demoState = ((2, Some ?q), demoState)"
    by (simp add: indexOf_def)
  have e2: "endsWith ?ln ?b 2" by (simp add: endsWith_def)
  have e4: "\<not> endsWith ?ln ?b 4" by (simp add: endsWith_def)
  note t = matchWithEscape_single_lookback[where R = demoRuntime and ln = ?ln
      and position = 0 and pat = "Str ?q" and st = demoState and ?p0.0 = 2
      and ?m0.0 = "Some ?q" and ?st0.0 = demoState and esc = "Some (Str ?b)"
      and ?st1.0 = demoState and p = 2 and e = ?b and c = ?q]
  from t have ce: "checkEscape demoRuntime demoState ?ln 2 (Some (Str ?b)) = (True, demoState)"
    using e2 by simp
  from t mt ce have skip: "matchWithEscape demoRuntime ?ln 0 (Str ?q) (Some (Str ?b)) demoState
     = matchWithEscape demoRuntime ?ln 3 (Str ?q) (Some (Str ?b)) demoState"
    by (simp add: matchedLength_def)
  from t obtain q m where
    r: "matchWithEscape demoRuntime ?ln 0 (Str ?q) (Some (Str ?b)) demoState
          = Some ((q, m), demoState)"
    by auto
  with ev have "q = 4" "m = Some ?q" by simp_all
  with r skip e2 e4 show ?thesis by simp
qed

subsection \<open>Escape exhaustion (C8)\<close>

lemma allMatchesEscapedD:
  assumes "allMatchesEscaped R I ln offset spec esc" and "I st" and "offset \<le> position"
    and "match R ln position M_DEFAULT spec st = ((p, m), st')" and "p \<noteq> - 1"
  shows "fst (checkEscape R st' ln p esc)"
proof -
  from assms(1) have "\<forall>k s. I s \<and> offset \<le> k \<longrightarrow>
        (case match R ln k M_DEFAULT spec s of
           ((q, t), s') \<Rightarrow> q \<noteq> - 1 \<longrightarrow> fst (checkEscape R s' ln q esc))"
    by (simp add: allMatchesEscaped_def)
  with assms(2,3) have "case match R ln position M_DEFAULT spec st of
           ((q, t), s') \<Rightarrow> q \<noteq> - 1 \<longrightarrow> fst (checkEscape R s' ln q esc)"
    by simp
  with assms(4,5) show ?thesis by simp
qed

lemma escapeLoop_exhausted:
  assumes prog: "progressiveIn R I pat" and esc: "escapeKeeps R I esc"
    and all: "allMatchesEscaped R I ln offset pat esc"
  shows "I st \<Longrightarrow>
     p = - 1 \<or> (0 \<le> p \<and> offset \<le> p \<and> 0 < matchedLength m
                  \<and> p + matchedLength m \<le> int (length ln)
                  \<and> fst (checkEscape R st ln p esc)) \<Longrightarrow>
     \<exists>m' e' st'. escapeLoop R ln pat esc p m e st = Some ((- 1, m', e'), st') \<and> I st'"
proof (induction "nat (int (length ln) - p)" arbitrary: p m e st rule: less_induct)
  case less
  show ?case
  proof (cases "p = - 1")
    case True
    then show ?thesis using less.prems(1) by (subst escapeLoop.simps) simp
  next
    case False
    with less.prems have p: "0 \<le> p" "offset \<le> p" "0 < matchedLength m"
      "p + matchedLength m \<le> int (length ln)" "fst (checkEscape R st ln p esc)"
      by auto
    obtain b st1 where ce: "checkEscape R st ln p esc = (b, st1)"
      by (cases "checkEscape R st ln p esc")
    with p(5) have b: b by simp
    from checkEscape_keeps[OF esc less.prems(1) ce] have I1: "I st1" .
    obtain p2 m2 st2 where mt:
      "match R ln (p + matchedLength m) M_DEFAULT pat st1 = ((p2, m2), st2)"
      by (cases "match R ln (p + matchedLength m) M_DEFAULT pat st1") auto
    have step: "escapeLoop R ln pat esc p m e st = escapeLoop R ln pat esc p2 m2 True st2"
      using False b ce mt by (subst escapeLoop.simps) simp
    from progressiveInD[OF prog I1 mt]
    have I2: "I st2" and p2: "p2 = - 1 \<or> (0 \<le> p2 \<and> p + matchedLength m \<le> p2
         \<and> 0 < matchedLength m2 \<and> p2 + matchedLength m2 \<le> int (length ln))" by auto
    show ?thesis
    proof (cases "p2 = - 1")
      case True
      have "escapeLoop R ln pat esc p m e st = Some ((- 1, m2, True), st2)"
        unfolding step True by (subst escapeLoop.simps) simp
      with I2 show ?thesis by blast
    next
      case ne: False
      with p2 have q: "0 \<le> p2" "p + matchedLength m \<le> p2" "0 < matchedLength m2"
        "p2 + matchedLength m2 \<le> int (length ln)" by auto
      have ge: "offset \<le> p + matchedLength m" using p by linarith
      from allMatchesEscapedD[OF all I1 ge mt ne]
      have e2: "fst (checkEscape R st2 ln p2 esc)" .
      have lt: "nat (int (length ln) - p2) < nat (int (length ln) - p)"
        using q p by linarith
      have pre: "p2 = - 1 \<or> (0 \<le> p2 \<and> offset \<le> p2 \<and> 0 < matchedLength m2
                   \<and> p2 + matchedLength m2 \<le> int (length ln)
                   \<and> fst (checkEscape R st2 ln p2 esc))"
        using q p e2 by simp
      from less.hyps[OF lt I2 pre, of True] show ?thesis unfolding step .
    qed
  qed
qed

lemma matchWithEscape_exhausted:
  assumes prog: "progressiveIn R I pat" and esc: "escapeKeeps R I esc"
    and all: "allMatchesEscaped R I ln offset pat esc" and I: "I st"
  shows "\<exists>st'. matchWithEscape R ln offset pat esc st = Some ((- 1, None), st')
     \<and> I st' \<and> cacheGrows st st'"
proof -
  obtain p0 m0 st0 where mt: "match R ln offset M_DEFAULT pat st = ((p0, m0), st0)"
    by (cases "match R ln offset M_DEFAULT pat st") auto
  from progressiveInD[OF prog I mt]
  have I0: "I st0" and p0: "p0 = - 1 \<or> (0 \<le> p0 \<and> offset \<le> p0 \<and> 0 < matchedLength m0
           \<and> p0 + matchedLength m0 \<le> int (length ln))" by auto
  have "p0 \<noteq> - 1 \<Longrightarrow> fst (checkEscape R st0 ln p0 esc)"
    using allMatchesEscapedD[OF all I _ mt] by simp
  with p0 have pre: "p0 = - 1 \<or> (0 \<le> p0 \<and> offset \<le> p0 \<and> 0 < matchedLength m0
           \<and> p0 + matchedLength m0 \<le> int (length ln)
           \<and> fst (checkEscape R st0 ln p0 esc))" by auto
  from escapeLoop_exhausted[OF prog esc all I0 pre, of False]
  obtain m' e' st' where r:
    "escapeLoop R ln pat esc p0 m0 False st0 = Some ((- 1, m', e'), st')" "I st'"
    by blast
  have res: "matchWithEscape R ln offset pat esc st = Some ((- 1, None), st')"
    using mt r(1) by (simp add: matchWithEscape_def Let_def)
  from matchWithEscape_grows[OF res] res r(2) show ?thesis by blast
qed

lemma tryClose_exhausted:
  assumes "exhaustedSpec R I ln offset (close pat) (escape pat)"
    and "escapeKeeps R I (escape pat)" and "I st"
  shows "\<exists>st'. tryClose R ln offset pat cur m st = Some (F_NONE, - 1, m, cur, st')
     \<and> I st' \<and> cacheGrows st st'"
proof (cases "\<exists>c. close pat = Some c \<and> truthy c")
  case False
  then show ?thesis using assms(3)
    by (auto simp: tryClose_def cacheGrows_refl split: option.splits)
next
  case True
  then obtain c where c: "close pat = Some c" "truthy c" by blast
  with assms(1) have "progressiveIn R I c" "allMatchesEscaped R I ln offset c (escape pat)"
    by (simp_all add: exhaustedSpec_def)
  from matchWithEscape_exhausted[OF this(1) assms(2) this(2) assms(3)]
  obtain st' where "matchWithEscape R ln offset c (escape pat) st = Some ((- 1, None), st')"
    "I st'" "cacheGrows st st'" by blast
  with c show ?thesis by (simp add: tryClose_def)
qed

lemma tryChildren_exhausted:
  assumes "escapeKeeps R I esc"
  shows "I st \<Longrightarrow>
     list_all (\<lambda>k. exhaustedSpec R I ln offset (open (getPattern R cfg k)) esc) kids \<Longrightarrow>
     \<exists>st'. tryChildren R cfg ln offset esc kids (F_NONE, - 1, m, cur, st)
              = Some (F_NONE, - 1, m, cur, st')
        \<and> I st' \<and> cacheGrows st st'"
proof (induction kids arbitrary: st)
  case Nil
  then show ?case by (simp add: cacheGrows_refl)
next
  case (Cons k kids)
  from Cons.prems(2) have hd: "exhaustedSpec R I ln offset (open (getPattern R cfg k)) esc"
    and rest: "list_all (\<lambda>k. exhaustedSpec R I ln offset (open (getPattern R cfg k)) esc) kids"
    by simp_all
  show ?case
  proof (cases "\<exists>opn. open (getPattern R cfg k) = Some opn \<and> truthy opn")
    case False
    then have "tryChildren R cfg ln offset esc (k # kids) (F_NONE, - 1, m, cur, st)
          = tryChildren R cfg ln offset esc kids (F_NONE, - 1, m, cur, st)"
      by (auto split: option.splits)
    with Cons.IH[OF Cons.prems(1) rest] show ?thesis by simp
  next
    case True
    then obtain opn where opn: "open (getPattern R cfg k) = Some opn" "truthy opn" by blast
    with hd have "progressiveIn R I opn" "allMatchesEscaped R I ln offset opn esc"
      by (simp_all add: exhaustedSpec_def)
    from matchWithEscape_exhausted[OF this(1) assms this(2) Cons.prems(1)]
    obtain st1 where r: "matchWithEscape R ln offset opn esc st = Some ((- 1, None), st1)"
      "I st1" "cacheGrows st st1" by blast
    have step: "tryChildren R cfg ln offset esc (k # kids) (F_NONE, - 1, m, cur, st)
          = tryChildren R cfg ln offset esc kids (F_NONE, - 1, m, cur, st1)"
      using opn r(1) by simp
    from Cons.IH[OF r(2) rest] obtain st' where
      "tryChildren R cfg ln offset esc kids (F_NONE, - 1, m, cur, st1)
          = Some (F_NONE, - 1, m, cur, st')" "I st'" "cacheGrows st1 st'" by blast
    with step r(3) show ?thesis by (auto intro: cacheGrows_trans)
  qed
qed

lemma cacheGrows_textBefore: "cacheGrows st st' \<Longrightarrow> textBefore st' = textBefore st"
  unfolding cacheGrows_def
  by (metis (no_types, lifting) ITemplateState.select_convs(1) ITemplateState.surjective
      ITemplateState.update_convs(7))

lemma createLayers_exhausted:
  assumes "exhaustedAt R cfg I ln offset cur" and "I st"
    and "patternContext st = cur # rest" and "0 \<le> offset" and "offset < int (length ln)"
  shows "\<exists>st'. createLayers R cfg st ln offset
        = Some (Inr ([], st'\<lparr>textBefore := textBefore st @ drop (nat offset) ln\<rparr>))
     \<and> cacheGrows st st' \<and> I st'"
proof -
  let ?pat = "getPattern R cfg cur"
  from assms(1) have ek: "escapeKeeps R I (escape ?pat)"
    and cl: "exhaustedSpec R I ln offset (close ?pat) (escape ?pat)"
    and ch: "list_all (\<lambda>k. exhaustedSpec R I ln offset (open (getPattern R cfg k)) (escape ?pat))
              (case children ?pat of None \<Rightarrow> [] | Some kids \<Rightarrow> kids)"
    by (simp_all add: exhaustedAt_def Let_def)
  from tryClose_exhausted[OF cl ek assms(2), of cur None]
  obtain st1 where tc: "tryClose R ln offset ?pat cur None st = Some (F_NONE, - 1, None, cur, st1)"
    and I1: "I st1" and g1: "cacheGrows st st1" by blast
  have "\<exists>st2. findTransition R cfg ln offset None cur st = Some (F_NONE, - 1, None, cur, st2)
      \<and> cacheGrows st st2 \<and> I st2"
  proof (cases "children ?pat")
    case None
    with tc g1 I1 show ?thesis by (simp add: findTransition_def)
  next
    case (Some kids)
    with ch have "list_all (\<lambda>k. exhaustedSpec R I ln offset (open (getPattern R cfg k))
        (escape ?pat)) kids" by simp
    from tryChildren_exhausted[OF ek I1 this, of None cur]
    obtain st2 where "tryChildren R cfg ln offset (escape ?pat) kids (F_NONE, - 1, None, cur, st1)
        = Some (F_NONE, - 1, None, cur, st2)" "cacheGrows st1 st2" "I st2" by blast
    with tc Some g1 show ?thesis
      by (auto simp: findTransition_def intro: cacheGrows_trans)
  qed
  then obtain st2 where ft:
    "findTransition R cfg ln offset None cur st = Some (F_NONE, - 1, None, cur, st2)"
    and g2: "cacheGrows st st2" and I2: "I st2" by blast
  have cur: "getCurrentPattern st = Inr cur" using assms(3) by (simp add: getCurrentPattern_def)
  have "createLayers R cfg st ln offset
        = Some (Inr ([], st2\<lparr>textBefore := textBefore st @ drop (nat offset) ln\<rparr>))"
    unfolding createLayers_def
    using assms(4,5) cur ft cacheGrows_textBefore[OF g2]
    by (subst createLayersLoop.simps) (simp add: sliceFrom_drop)
  with g2 I2 show ?thesis by blast
qed

lemma clampPos_mono: "a \<le> b \<Longrightarrow> clampPos ln a \<le> clampPos ln b"
  by (simp add: clampPos_def nat_mono)

lemma allEscaped_matches:
  assumes "c \<noteq> []" and "allEscaped ln offset c e"
  shows "allMatchesEscaped R I ln offset (Str c) (Some (Str e))"
  unfolding allMatchesEscaped_def
proof (intro allI impI)
  fix position st
  assume a: "I st \<and> offset \<le> position"
  from indexOf_cases[of ln c position]
  show "case match R ln position M_DEFAULT (Str c) st of
          ((p, m), st') \<Rightarrow> p \<noteq> - 1 \<longrightarrow> fst (checkEscape R st' ln p (Some (Str e)))"
  proof (elim disjE conjE exE)
    assume "indexOf ln c position = - 1"
    then show ?thesis by (simp add: Let_def)
  next
    fix i assume i: "indexOf ln c position = int i" "clampPos ln position \<le> i"
      "take (length c) (drop i ln) = c"
    from a have "clampPos ln offset \<le> clampPos ln position" by (simp add: clampPos_mono)
    with i(2) have "clampPos ln offset \<le> i" by simp
    with allEscaped_all[OF assms] i(3) have "e \<noteq> [] \<and> endsWith ln e (int i)" by blast
    with i(1) show ?thesis by (simp add: Let_def checkEscape_Str)
  qed
qed

lemma match_star:
  assumes "regexExec R = rxExec"
    and "regExpCache st (cacheKey ''x*'' ''g'') = None
           \<or> regExpCache st (cacheKey ''x*'' ''g'') = Some \<lparr>source = ''x*'', flags = ''g''\<rparr>"
  shows "\<exists>st'. match R ln position M_DEFAULT (Rx \<lparr>source = ''x*'', flags = []\<rparr>) st
            = (execResult (rxExec ''x*'' ''g'' (nat position) ln), st')
          \<and> regExpCache st' (cacheKey ''x*'' ''g'') = Some \<lparr>source = ''x*'', flags = ''g''\<rparr>"
proof -
  have src: "anchoredSource ''x*'' A_NONE = ''x*''"
    by (simp add: anchoredSource_def makeSureAnchor_def startsWith_def endsWith_def)
  have fl: "globalFlags [] True = ''g''" by (simp add: globalFlags_def)
  from assms(2) show ?thesis
    by (auto simp: getCachedRegExp_def src fl assms(1) Let_def)
qed

lemma star_at_1: "execResult (rxExec ''x*'' ''g'' (nat 1) ''(('') = (1, Some [])"
  by code_simp

lemma escapeLoop_never_returns:
  assumes "escapeLoop R ln pat esc p m e st = Some y"
  shows "\<not> (regexExec R = rxExec \<and> ln = ''(('' \<and> pat = Rx \<lparr>source = ''x*'', flags = []\<rparr>
            \<and> esc = Some (Str ''('') \<and> p = 1 \<and> m = Some []
            \<and> (regExpCache st (cacheKey ''x*'' ''g'') = None
                \<or> regExpCache st (cacheKey ''x*'' ''g'')
                     = Some \<lparr>source = ''x*'', flags = ''g''\<rparr>))"
proof (rule escapeLoop.raw_induct[where P = "\<lambda>R ln pat esc p m e st y.
      \<not> (regexExec R = rxExec \<and> ln = ''(('' \<and> pat = Rx \<lparr>source = ''x*'', flags = []\<rparr>
            \<and> esc = Some (Str ''('') \<and> p = 1 \<and> m = Some []
            \<and> (regExpCache st (cacheKey ''x*'' ''g'') = None
                \<or> regExpCache st (cacheKey ''x*'' ''g'')
                     = Some \<lparr>source = ''x*'', flags = ''g''\<rparr>))",
      OF _ assms], goal_cases)
  case (1 f R ln pat esc p m e st y)
  show ?case
  proof
    assume a: "regexExec R = rxExec \<and> ln = ''(('' \<and> pat = Rx \<lparr>source = ''x*'', flags = []\<rparr>
            \<and> esc = Some (Str ''('') \<and> p = 1 \<and> m = Some []
            \<and> (regExpCache st (cacheKey ''x*'' ''g'') = None
                \<or> regExpCache st (cacheKey ''x*'' ''g'')
                     = Some \<lparr>source = ''x*'', flags = ''g''\<rparr>)"
    then have ex: "regexExec R = rxExec"
      and cache: "regExpCache st (cacheKey ''x*'' ''g'') = None
                \<or> regExpCache st (cacheKey ''x*'' ''g'')
                     = Some \<lparr>source = ''x*'', flags = ''g''\<rparr>" by simp_all
    have ce: "checkEscape R st ''(('' 1 (Some (Str ''('')) = (True, st)"
      by (simp add: checkEscape_Str endsWith_def)
    from match_star[OF ex cache, of "''((''" 1] star_at_1 obtain st' where
      mt: "match R ''(('' 1 M_DEFAULT (Rx \<lparr>source = ''x*'', flags = []\<rparr>) st
             = ((1, Some []), st')"
      and k: "regExpCache st' (cacheKey ''x*'' ''g'') = Some \<lparr>source = ''x*'', flags = ''g''\<rparr>"
      by auto
    have "f R ''(('' (Rx \<lparr>source = ''x*'', flags = []\<rparr>) (Some (Str ''('')) 1 (Some []) True st'
            = Some y"
      using 1(2) a ce mt by (simp add: matchedLength_def)
    from 1(1)[OF this] a k show False by simp
  qed
qed

text \<open>
  C8 (as amended). Without a textual match \<open>matchWithEscape\<close> returns \<open>(-1, null)\<close>. When
  the specification makes progress (a match is never empty, starts at or after the search
  position and ends within the line) and every match of it on the rest of the line is
  escaped, \<open>matchWithEscape\<close> returns, and its result is \<open>(-1, null)\<close> too: escape
  exhaustion is not an error. When this holds of the closer of the current pattern and of
  the openers of its children, \<open>createLayers\<close> finds no transition: it returns no layer
  and appends the rest of the line to \<open>textBefore\<close>; the state is otherwise as it was,
  but for the cache. (Progress is on the states of an invariant \<open>I\<close> that the state
  satisfies; the invariant holds again of the state returned.) A literal specification that is not empty, with a literal escape, is
  such a specification when every occurrence of it is preceded by the escape. For a
  specification that matches the empty text the search need not return.
\<close>

theorem escape_exhaustion_no_transition:
  assumes "I st"
  shows "(match R ln offset M_DEFAULT pat st = ((- 1, m0), st0)
            \<longrightarrow> matchWithEscape R ln offset pat esc st = Some ((- 1, None), st0))
    \<and> (progressiveIn R I pat \<and> escapeKeeps R I esc \<and> allMatchesEscaped R I ln offset pat esc
         \<longrightarrow> (\<exists>st'. matchWithEscape R ln offset pat esc st = Some ((- 1, None), st')
                 \<and> cacheGrows st st' \<and> I st'))
    \<and> (exhaustedAt R cfg I ln offset cur \<and> patternContext st = cur # rest
         \<and> 0 \<le> offset \<and> offset < int (length ln)
         \<longrightarrow> (\<exists>st'. createLayers R cfg st ln offset
                       = Some (Inr ([], st'\<lparr>textBefore := textBefore st @ drop (nat offset) ln\<rparr>))
                 \<and> cacheGrows st st' \<and> I st'))
    \<and> (c \<noteq> [] \<and> allEscaped ln offset c e
         \<longrightarrow> progressiveIn R I (Str c) \<and> escapeKeeps R I (Some (Str e))
             \<and> allMatchesEscaped R I ln offset (Str c) (Some (Str e))
             \<and> matchWithEscape R ln offset (Str c) (Some (Str e)) st = Some ((- 1, None), st))"
proof (intro conjI impI)
  assume "match R ln offset M_DEFAULT pat st = ((- 1, m0), st0)"
  from matchWithEscape_first[OF this, of esc]
  show "matchWithEscape R ln offset pat esc st = Some ((- 1, None), st0)" by simp
next
  assume "progressiveIn R I pat \<and> escapeKeeps R I esc \<and> allMatchesEscaped R I ln offset pat esc"
  then have "progressiveIn R I pat" "escapeKeeps R I esc"
    "allMatchesEscaped R I ln offset pat esc" by simp_all
  from matchWithEscape_exhausted[OF this assms]
  show "\<exists>st'. matchWithEscape R ln offset pat esc st = Some ((- 1, None), st')
      \<and> cacheGrows st st' \<and> I st'" by blast
next
  assume "exhaustedAt R cfg I ln offset cur \<and> patternContext st = cur # rest
         \<and> 0 \<le> offset \<and> offset < int (length ln)"
  then have "exhaustedAt R cfg I ln offset cur" "patternContext st = cur # rest"
    "0 \<le> offset" "offset < int (length ln)" by simp_all
  from createLayers_exhausted[OF this(1) assms this(2,3,4)]
  show "\<exists>st'. createLayers R cfg st ln offset
                       = Some (Inr ([], st'\<lparr>textBefore := textBefore st @ drop (nat offset) ln\<rparr>))
                 \<and> cacheGrows st st' \<and> I st'" .
next
  assume a: "c \<noteq> [] \<and> allEscaped ln offset c e"
  then show "progressiveIn R I (Str c)" by (simp add: progressiveIn_Str)
  show "escapeKeeps R I (Some (Str e))" by (rule escapeKeeps_Str)
  from a show "allMatchesEscaped R I ln offset (Str c) (Some (Str e))"
    by (simp add: allEscaped_matches)
  from a show "matchWithEscape R ln offset (Str c) (Some (Str e)) st = Some ((- 1, None), st)"
    by (simp add: matchWithEscape_allEscaped)
qed

text \<open>The closer \<open>/x*/\<close> with the escape \<open>(\<close> on the line \<open>((\<close> from index 1: the matches
  on the rest of the line are the empty text at 1 and at 2, both preceded by the escape;
  the search does not return.\<close>

theorem escape_exhaustion_zero_length_counterexample:
  "matchWithEscape demoRuntime ''(('' 1 (Rx \<lparr>source = ''x*'', flags = []\<rparr>) (Some (Str ''(''))
      demoState = None
   \<and> fst (match demoRuntime ''(('' 1 M_DEFAULT (Rx \<lparr>source = ''x*'', flags = []\<rparr>) demoState)
       = (1, Some [])
   \<and> fst (match demoRuntime ''(('' 2 M_DEFAULT (Rx \<lparr>source = ''x*'', flags = []\<rparr>) demoState)
       = (2, Some [])
   \<and> endsWith ''(('' ''('' 1 \<and> endsWith ''(('' ''('' 2"
proof -
  have ex: "regexExec demoRuntime = rxExec"
    by (simp add: demoRuntime_def modeRuntime_def exampleRuntime_def)
  have cache: "regExpCache demoState (cacheKey ''x*'' ''g'') = None
       \<or> regExpCache demoState (cacheKey ''x*'' ''g'') = Some \<lparr>source = ''x*'', flags = ''g''\<rparr>"
    by (simp add: demoState_def startState_def)
  from match_star[OF ex cache, of "''((''" 1] star_at_1 obtain st0 where
    mt: "match demoRuntime ''(('' 1 M_DEFAULT (Rx \<lparr>source = ''x*'', flags = []\<rparr>) demoState
          = ((1, Some []), st0)"
    and k: "regExpCache st0 (cacheKey ''x*'' ''g'') = Some \<lparr>source = ''x*'', flags = ''g''\<rparr>"
    by auto
  have "escapeLoop demoRuntime ''(('' (Rx \<lparr>source = ''x*'', flags = []\<rparr>) (Some (Str ''(''))
      1 (Some []) False st0 = None"
  proof (cases "escapeLoop demoRuntime ''(('' (Rx \<lparr>source = ''x*'', flags = []\<rparr>)
      (Some (Str ''('')) 1 (Some []) False st0")
    case (Some y)
    from escapeLoop_never_returns[OF Some] ex k show ?thesis by simp
  qed
  with mt have n: "matchWithEscape demoRuntime ''(('' 1 (Rx \<lparr>source = ''x*'', flags = []\<rparr>)
      (Some (Str ''('')) demoState = None"
    by (simp add: matchWithEscape_def)
  have m1: "fst (match demoRuntime ''(('' 1 M_DEFAULT (Rx \<lparr>source = ''x*'', flags = []\<rparr>)
      demoState) = (1, Some [])"
    by code_simp
  have m2: "fst (match demoRuntime ''(('' 2 M_DEFAULT (Rx \<lparr>source = ''x*'', flags = []\<rparr>)
      demoState) = (2, Some [])"
    by code_simp
  have e: "endsWith ''(('' ''('' 1" "endsWith ''(('' ''('' 2"
    by (simp_all add: endsWith_def)
  from n m1 m2 e show ?thesis by simp
qed

text \<open>Inside a double-quoted region, on a line whose only quote is preceded by a backslash:
  no layer, and the line is appended to \<open>textBefore\<close>.\<close>

theorem escape_exhaustion_no_transition_witness:
  "matchWithEscape demoRuntime [CHR ''a'', CHR 0x5C, CHR 0x22, CHR ''b''] 0
      (Str [CHR 0x22]) (Some (Str [CHR 0x5C])) inDoubleQuote = Some ((- 1, None), inDoubleQuote)
   \<and> createLayers demoRuntime demoConfig inDoubleQuote [CHR ''a'', CHR 0x5C, CHR 0x22, CHR ''b''] 0
       = Some (Inr ([], inDoubleQuote\<lparr>textBefore := textBefore inDoubleQuote
                      @ [CHR ''a'', CHR 0x5C, CHR 0x22, CHR ''b'']\<rparr>))"
proof -
  let ?ln = "[CHR ''a'', CHR 0x5C, CHR 0x22, CHR ''b'']"
  let ?I = "\<lambda>s. regExpCache s = regExpCache inDoubleQuote"
  have ne: "[CHR 0x22] \<noteq> []" by simp
  have esc: "allEscaped ?ln 0 [CHR 0x22] [CHR 0x5C]"
    by (simp add: allEscaped_def clampPos_def endsWith_def upt_rec)
  have pat: "getPattern demoRuntime demoConfig doubleQuote
      = plainPattern\<lparr>open := Some (Str [CHR 0x22]), close := Some (Str [CHR 0x22]),
          escape := Some (Str [CHR 0x5C])\<rparr>"
    by (simp add: getPattern_def demoRuntime_def modeRuntime_def defaultPatterns_def
        doubleQuote_def singleQuote_def rootId_def)
  have ctx: "patternContext inDoubleQuote = doubleQuote # [rootId]"
    by (simp add: inDoubleQuote_def)
  have I: "?I inDoubleQuote" by simp
  note t = escape_exhaustion_no_transition[where I = ?I and st = inDoubleQuote
      and R = demoRuntime and ln = ?ln and offset = 0 and c = "[CHR 0x22]" and e = "[CHR 0x5C]"
      and cfg = demoConfig and cur = doubleQuote and rest = "[rootId]", OF I]
  from t ne esc have lit: "progressiveIn demoRuntime ?I (Str [CHR 0x22])"
    "escapeKeeps demoRuntime ?I (Some (Str [CHR 0x5C]))"
    "allMatchesEscaped demoRuntime ?I ?ln 0 (Str [CHR 0x22]) (Some (Str [CHR 0x5C]))"
    "matchWithEscape demoRuntime ?ln 0 (Str [CHR 0x22]) (Some (Str [CHR 0x5C])) inDoubleQuote
       = Some ((- 1, None), inDoubleQuote)"
    by simp_all
  have ex: "exhaustedAt demoRuntime demoConfig ?I ?ln 0 doubleQuote"
    using lit(1,2,3) by (simp add: exhaustedAt_def exhaustedSpec_def pat plainPattern_def)
  have "\<exists>st'. createLayers demoRuntime demoConfig inDoubleQuote ?ln 0
          = Some (Inr ([], st'\<lparr>textBefore := textBefore inDoubleQuote @ ?ln\<rparr>))
        \<and> cacheGrows inDoubleQuote st' \<and> ?I st'"
    using t[THEN conjunct2, THEN conjunct2, THEN conjunct1] ex ctx by simp
  then obtain st' where
    r: "createLayers demoRuntime demoConfig inDoubleQuote ?ln 0
          = Some (Inr ([], st'\<lparr>textBefore := textBefore inDoubleQuote @ ?ln\<rparr>))"
    and g: "cacheGrows inDoubleQuote st'" and I': "regExpCache st' = regExpCache inDoubleQuote"
    by blast
  from g I' have "st' = inDoubleQuote" by (simp add: cacheGrows_def)
  with r lit(4) show ?thesis by simp
qed

subsection \<open>The end anchor in the two modes of the matcher (C3)\<close>

lemma anchored_x:
  "anchoredSource ''x$'' A_NONE = ''x''" "anchoredSource ''x'' A_NONE = ''x''"
  "anchoredSource ''x$'' A_END = ''x$''" "anchoredSource ''x'' A_END = ''x$''"
  by (simp_all add: anchoredSource_def makeSureAnchor_def startsWith_def endsWith_def)

lemma searchFrom_char_eol:
  "searchFrom [One (AChar x), Eol] i s
     = (if s \<noteq> [] \<and> last s = x then Some (i + length s - 1, [x]) else None)"
  by (induction s arbitrary: i) auto

lemma rxExec_char_eol:
  assumes "rxItems (rxTokens src) = Some [One (AChar x), Eol]"
  shows "rxExec src [] 0 s
     = (if s \<noteq> [] \<and> last s = x then Some (length s - 1, [x]) else None)"
  using assms by (simp add: rxExec_def searchFrom_char_eol)

lemma endsWith_char:
  assumes "position \<le> int (length ln)"
  shows "endsWith ln [x] position
     = (take (nat position) ln \<noteq> [] \<and> last (take (nat position) ln) = x)"
proof (cases "0 < position")
  case False
  then show ?thesis by (simp add: endsWith_def)
next
  case True
  let ?n = "nat position"
  from True assms obtain k where k: "?n = Suc k" "k < length ln"
    by (cases ?n) auto
  have e: "nat (min (max position 0) (int (length ln))) = Suc k"
    using k True assms by auto
  have t: "take (Suc k) ln = take k ln @ [ln ! k]"
    using k(2) by (rule take_Suc_conv_app_nth)
  have d: "drop k ln = ln ! k # drop (Suc k) ln"
    using k(2) by (simp add: Cons_nth_drop_Suc)
  show ?thesis by (simp add: endsWith_def e k(1) t d)
qed

text \<open>
  C3 (as amended). For a closer given as \<open>/x$/\<close>: in forward-search mode
  (\<open>MatchMode.DEFAULT\<close>) the end anchor is removed, so that \<open>match\<close> does what it does for
  \<open>/x/\<close>: the expression handed to the engine is \<open>/x/g\<close>, with the search position as
  \<open>lastIndex\<close>, and the result is the first occurrence of \<open>x\<close> at or after the position,
  mid-line or not, as for the literal \<open>x\<close>. The end anchor is kept (and added to \<open>/x/\<close>)
  only in the suffix check (\<open>MatchMode.PREFIX\<close>): there the expression handed to the engine
  is \<open>/x$/\<close>, on the text before the position, and for a position within the line
  the result is that of the literal \<open>x\<close>: a match exactly when that text ends with
  \<open>x\<close>. (The cache entries of the two expressions are absent or the expressions
  themselves.)
\<close>

theorem match_end_anchor_stripped:
  "match R ln position M_DEFAULT (Rx \<lparr>source = ''x$'', flags = []\<rparr>) st
     = match R ln position M_DEFAULT (Rx \<lparr>source = ''x'', flags = []\<rparr>) st
   \<and> match R ln position M_PREFIX (Rx \<lparr>source = ''x'', flags = []\<rparr>) st
     = match R ln position M_PREFIX (Rx \<lparr>source = ''x$'', flags = []\<rparr>) st
   \<and> (regExpCache st (cacheKey ''x'' ''g'') = None
        \<or> regExpCache st (cacheKey ''x'' ''g'') = Some \<lparr>source = ''x'', flags = ''g''\<rparr>
      \<longrightarrow> fst (match R ln position M_DEFAULT (Rx \<lparr>source = ''x$'', flags = []\<rparr>) st)
            = execResult (regexExec R ''x'' ''g'' (nat position) ln)
          \<and> (regexExec R = rxExec
               \<longrightarrow> fst (match R ln position M_DEFAULT (Rx \<lparr>source = ''x$'', flags = []\<rparr>) st)
                     = fst (match R ln position M_DEFAULT (Str ''x'') st)))
   \<and> (regExpCache st (cacheKey ''x$'' []) = None
        \<or> regExpCache st (cacheKey ''x$'' []) = Some \<lparr>source = ''x$'', flags = []\<rparr>
      \<longrightarrow> fst (match R ln position M_PREFIX (Rx \<lparr>source = ''x$'', flags = []\<rparr>) st)
            = execResult (regexExec R ''x$'' [] 0 (take (nat position) ln))
          \<and> (regexExec R = rxExec \<and> position \<le> int (length ln)
               \<longrightarrow> fst (match R ln position M_PREFIX (Rx \<lparr>source = ''x$'', flags = []\<rparr>) st)
                     = fst (match R ln position M_PREFIX (Str ''x'') st)))"
proof (intro conjI impI)
  have flg: "globalFlags [] True = ''g''" and fln: "globalFlags [] False = []"
    by (simp_all add: globalFlags_def)
  show "match R ln position M_DEFAULT (Rx \<lparr>source = ''x$'', flags = []\<rparr>) st
     = match R ln position M_DEFAULT (Rx \<lparr>source = ''x'', flags = []\<rparr>) st"
    by (simp add: getCachedRegExp_def anchored_x Let_def)
  show "match R ln position M_PREFIX (Rx \<lparr>source = ''x'', flags = []\<rparr>) st
     = match R ln position M_PREFIX (Rx \<lparr>source = ''x$'', flags = []\<rparr>) st"
    by (simp add: getCachedRegExp_def anchored_x Let_def)
  {
    assume c: "regExpCache st (cacheKey ''x'' ''g'') = None
        \<or> regExpCache st (cacheKey ''x'' ''g'') = Some \<lparr>source = ''x'', flags = ''g''\<rparr>"
    then have reg: "fst (getCachedRegExp st \<lparr>source = ''x$'', flags = []\<rparr> A_NONE True)
         = \<lparr>source = ''x'', flags = ''g''\<rparr>"
      by (auto simp: getCachedRegExp_def anchored_x flg Let_def)
    then show d: "fst (match R ln position M_DEFAULT (Rx \<lparr>source = ''x$'', flags = []\<rparr>) st)
            = execResult (regexExec R ''x'' ''g'' (nat position) ln)"
      by (simp add: Let_def split_beta)
    assume ex: "regexExec R = rxExec"
    have it: "rxItems (rxTokens ''x'') = Some [One (AChar CHR ''x'')]"
      by (simp add: plainTok_def consItems_def)
    show "fst (match R ln position M_DEFAULT (Rx \<lparr>source = ''x$'', flags = []\<rparr>) st)
            = fst (match R ln position M_DEFAULT (Str ''x'') st)"
      unfolding d ex using rxExec_char[OF it, of position ln] by (simp add: Let_def)
  }
  {
    assume c: "regExpCache st (cacheKey ''x$'' []) = None
        \<or> regExpCache st (cacheKey ''x$'' []) = Some \<lparr>source = ''x$'', flags = []\<rparr>"
    then have reg: "fst (getCachedRegExp st \<lparr>source = ''x$'', flags = []\<rparr> A_END False)
         = \<lparr>source = ''x$'', flags = []\<rparr>"
      by (auto simp: getCachedRegExp_def anchored_x fln Let_def)
    then show d: "fst (match R ln position M_PREFIX (Rx \<lparr>source = ''x$'', flags = []\<rparr>) st)
            = execResult (regexExec R ''x$'' [] 0 (take (nat position) ln))"
      by (simp add: Let_def split_beta)
    assume ex: "regexExec R = rxExec \<and> position \<le> int (length ln)"
    have it: "rxItems (rxTokens ''x$'') = Some [One (AChar CHR ''x''), Eol]"
      by (simp add: plainTok_def consItems_def)
    have len: "int (length (take (nat position) ln) - 1) = position - 1"
      if "take (nat position) ln \<noteq> []"
      using that ex by (cases "0 < position") auto
    show "fst (match R ln position M_PREFIX (Rx \<lparr>source = ''x$'', flags = []\<rparr>) st)
            = fst (match R ln position M_PREFIX (Str ''x'') st)"
      unfolding d using ex rxExec_char_eol[OF it, of "take (nat position) ln"]
        endsWith_char[of position ln "CHR ''x''"] len
      by (auto simp: execResult_def)
  }
qed

text \<open>On the line \<open>axb\<close> the closer \<open>/x$/\<close> matches the \<open>x\<close> in the middle.\<close>

theorem match_end_anchor_counterexample:
  "fst (match demoRuntime ''axb'' 0 M_DEFAULT (Rx \<lparr>source = ''x$'', flags = []\<rparr>) demoState)
     = (1, Some ''x'')"
  by code_simp

text \<open>On the line \<open>axbx\<close>: the forward search from the start finds the first \<open>x\<close>, as the
  search for the literal does; the suffix check at index 2 holds, and at index 3 it does
  not.\<close>

theorem match_end_anchor_stripped_witness:
  "fst (match demoRuntime ''axbx'' 0 M_DEFAULT (Rx \<lparr>source = ''x$'', flags = []\<rparr>) demoState)
     = fst (match demoRuntime ''axbx'' 0 M_DEFAULT (Str ''x'') demoState)
   \<and> fst (match demoRuntime ''axbx'' 0 M_DEFAULT (Rx \<lparr>source = ''x$'', flags = []\<rparr>) demoState)
     = (1, Some ''x'')
   \<and> fst (match demoRuntime ''axbx'' 2 M_PREFIX (Rx \<lparr>source = ''x$'', flags = []\<rparr>) demoState)
     = (1, Some ''x'')
   \<and> fst (match demoRuntime ''axbx'' 3 M_PREFIX (Rx \<lparr>source = ''x$'', flags = []\<rparr>) demoState)
     = (- 1, None)"
proof -
  have a: "regexExec demoRuntime = rxExec"
    by (simp add: demoRuntime_def modeRuntime_def exampleRuntime_def)
  have b: "regExpCache demoState (cacheKey ''x'' ''g'') = None
         \<or> regExpCache demoState (cacheKey ''x'' ''g'') = Some \<lparr>source = ''x'', flags = ''g''\<rparr>"
    "regExpCache demoState (cacheKey ''x$'' []) = None
         \<or> regExpCache demoState (cacheKey ''x$'' []) = Some \<lparr>source = ''x$'', flags = []\<rparr>"
    by (simp_all add: demoState_def startState_def)
  from match_end_anchor_stripped[of demoRuntime "''axbx''" 0 demoState] a b(1)
  have d: "fst (match demoRuntime ''axbx'' 0 M_DEFAULT (Rx \<lparr>source = ''x$'', flags = []\<rparr>)
      demoState) = fst (match demoRuntime ''axbx'' 0 M_DEFAULT (Str ''x'') demoState)"
    by blast
  have le: "(2::int) \<le> int (length ''axbx'')" "(3::int) \<le> int (length ''axbx'')"
    by simp_all
  from match_end_anchor_stripped[of demoRuntime "''axbx''" 2 demoState] a b(2) le(1)
  have p2: "fst (match demoRuntime ''axbx'' 2 M_PREFIX (Rx \<lparr>source = ''x$'', flags = []\<rparr>)
      demoState) = fst (match demoRuntime ''axbx'' 2 M_PREFIX (Str ''x'') demoState)"
    by blast
  from match_end_anchor_stripped[of demoRuntime "''axbx''" 3 demoState] a b(2) le(2)
  have p3: "fst (match demoRuntime ''axbx'' 3 M_PREFIX (Rx \<lparr>source = ''x$'', flags = []\<rparr>)
      demoState) = fst (match demoRuntime ''axbx'' 3 M_PREFIX (Str ''x'') demoState)"
    by blast
  have l: "fst (match demoRuntime ''axbx'' 0 M_DEFAULT (Str ''x'') demoState) = (1, Some ''x'')"
    "fst (match demoRuntime ''axbx'' 2 M_PREFIX (Str ''x'') demoState) = (1, Some ''x'')"
    "fst (match demoRuntime ''axbx'' 3 M_PREFIX (Str ''x'') demoState) = (- 1, None)"
    by (simp_all add: indexOf_def endsWith_def)
  from d p2 p3 l show ?thesis by simp
qed

subsection \<open>The layer recorded for the chosen transition (C1)\<close>

lemma createLayersLoop_prefix:
  assumes "createLayersLoop R cfg ln offset ls m st = Some r"
  shows "\<forall>ls' st'. r = Inr (ls', st') \<longrightarrow> (\<exists>more. ls' = ls @ more)"
proof (rule createLayersLoop.raw_induct[where P = "\<lambda>R cfg ln offset ls m st r.
      \<forall>ls' st'. r = Inr (ls', st') \<longrightarrow> (\<exists>more. ls' = ls @ more)", OF _ assms], goal_cases)
  case (1 f R cfg ln offset ls m st r)
  show ?case
  proof (intro allI impI)
    fix ls' st' assume r: "r = Inr (ls', st')"
    show "\<exists>more. ls' = ls @ more"
    proof (cases "offset < int (length ln)")
      case False
      with 1(2) r show ?thesis by simp
    next
      case inLine: True
      show ?thesis
      proof (cases "getCurrentPattern st")
        case (Inl e)
        with 1(2) inLine r show ?thesis by simp
      next
        case (Inr cur)
        with 1(2) inLine obtain found p m1 nxt st1 where
          ft: "findTransition R cfg ln offset m cur st = Some (found, p, m1, nxt, st1)"
          by (cases "findTransition R cfg ln offset m cur st") auto
        show ?thesis
        proof (cases "found = F_NONE")
          case True
          with 1(2) inLine Inr ft r show ?thesis by simp
        next
          case False
          show ?thesis
          proof (cases "applyTransition cfg ln offset cur found p m1 nxt st1")
            case (Inl e)
            with 1(2) inLine \<open>getCurrentPattern st = Inr cur\<close> ft False r show ?thesis by simp
          next
            case (Inr b)
            obtain st2 nxt2 where b: "b = (st2, nxt2)" by (cases b)
            from 1(2) inLine \<open>getCurrentPattern st = Inr cur\<close> ft False Inr b have
              "f R cfg ln (p + matchedLength m1)
                 (ls @ [\<lparr>pos = p, matched = m1, isOpen = (found = F_PUSH), prePattern = cur,
                         nextPattern = nxt2\<rparr>]) m1 st2 = Some r"
              by simp
            from 1(1)[OF this] r show ?thesis by auto
          qed
        qed
      qed
    qed
  qed
qed

text \<open>What a transition does to the stack, when the hooks leave the stack as it is.\<close>

lemma applyTransition_effect:
  assumes hk: "hooksKeepStack cfg" and cur: "patternContext st = cur # rest"
  shows "(\<exists>st3. applyTransition cfg ln offset cur F_PUSH p m nxt st = Inr (st3, nxt)
            \<and> patternContext st3 = nxt # cur # rest \<and> textBefore st3 = [])
    \<and> (rest = [] \<longrightarrow> applyTransition cfg ln offset cur F_POP p m nxt st = Inl TypeError)
    \<and> (rest \<noteq> [] \<longrightarrow>
          (\<exists>st3. applyTransition cfg ln offset cur F_POP p m nxt st = Inr (st3, hd rest)
             \<and> patternContext st3 = rest \<and> textBefore st3 = []))"
proof -
  let ?st1 = "st\<lparr>textBefore := textBefore st @ slice ln offset p\<rparr>"
  have c1: "patternContext ?st1 = cur # rest" using cur by simp
  have push: "patternContext (enterPattern cfg ?st1 ln p m nxt) = nxt # cur # rest"
    using c1 by (simp add: enterPattern_def Let_def pushPatternContext_def runHook_stack[OF hk])
  let ?a = "runHook (beforeExit cfg) ?st1 (hookInfo ?st1 ln p m cur)"
  have a: "patternContext ?a = cur # rest" using c1 by (simp add: runHook_stack[OF hk])
  then have p1: "popPatternContext ?a = Inr (?a\<lparr>patternContext := rest\<rparr>)"
    by (simp add: popPatternContext_def)
  let ?b = "?a\<lparr>patternContext := rest\<rparr>"
  let ?c = "runHook (afterExit cfg) ?b (hookInfo ?b ln p m cur)"
  have c: "patternContext ?c = rest" by (simp add: runHook_stack[OF hk])
  have e0: "rest = [] \<Longrightarrow> exitPattern cfg ?st1 ln p m cur = Inl TypeError"
    using p1 c by (simp add: exitPattern_def Let_def getCurrentPattern_def)
  have e1: "rest \<noteq> [] \<Longrightarrow> exitPattern cfg ?st1 ln p m cur = Inr (?c, hd rest)"
    using p1 c by (cases rest) (simp_all add: exitPattern_def Let_def getCurrentPattern_def)
  show ?thesis
    using push e0 e1 c by (simp add: applyTransition_def Let_def)
qed

text \<open>
  C1. In a pass of \<open>createLayers\<close> in which the closer of the current pattern matches at
  \<open>pc\<close> and the openers of the children give the candidates \<open>cands\<close> (in declaration
  order): the transition found is at the smallest matched position \<open>p\<close>; at the closer's
  position it is the closer (found is POP, the closer's text, the current pattern), so an
  opener at the same position loses; an opener is chosen only at a strictly smaller
  position, and then it is the first child, in declaration order, that matches at that
  position. The layer that \<open>createLayers\<close> records first is the layer of this transition:
  at \<open>p\<close>, with the matched text, closing (\<open>open\<close> false) exactly when the closer was
  chosen, with the current pattern as \<open>prePattern\<close>. When the hooks leave the stack as it
  is, the scan goes on after the matched text with the stack popped (the layer's
  \<open>nextPattern\<close> is the pattern beneath; with nothing beneath, reading the current
  pattern is a TypeError) or with the chosen child pushed (the layer's \<open>nextPattern\<close>).
\<close>

theorem closer_wins_ties:
  assumes "patternContext st = cur # rest" and "offset < int (length ln)"
    and "close (getPattern R cfg cur) = Some c" and "truthy c"
    and "matchWithEscape R ln offset c (escape (getPattern R cfg cur)) st = Some ((pc, mc), st1)"
    and "0 \<le> pc"
    and "children (getPattern R cfg cur) = Some kids"
    and "openerMatches R cfg ln offset (escape (getPattern R cfg cur)) kids st1 = Some (cands, st2)"
  shows "\<exists>found p m nxt.
      (\<forall>m0. findTransition R cfg ln offset m0 cur st = Some (found, p, m, nxt, st2))
    \<and> 0 \<le> p \<and> p \<le> pc \<and> (\<forall>(k, q, mq) \<in> set cands. 0 \<le> q \<longrightarrow> p \<le> q)
    \<and> (p = pc \<longrightarrow> found = F_POP \<and> m = mc \<and> nxt = cur)
    \<and> (p < pc \<longrightarrow> found = F_PUSH
          \<and> (\<exists>i<length cands. cands ! i = (nxt, p, m) \<and> (\<forall>j<i. fst (snd (cands ! j)) \<noteq> p)))
    \<and> (\<forall>ls st'. createLayers R cfg st ln offset = Some (Inr (ls, st'))
          \<longrightarrow> ls \<noteq> [] \<and> pos (hd ls) = p \<and> matched (hd ls) = m
              \<and> isOpen (hd ls) = (p < pc) \<and> prePattern (hd ls) = cur)
    \<and> (hooksKeepStack cfg \<longrightarrow>
          (p = pc \<and> rest = [] \<longrightarrow> createLayers R cfg st ln offset = Some (Inl TypeError))
        \<and> (p < pc \<or> rest \<noteq> [] \<longrightarrow>
              (\<exists>st3. createLayers R cfg st ln offset
                        = createLayersLoop R cfg ln (p + matchedLength m)
                            [\<lparr>pos = p, matched = m, isOpen = (p < pc), prePattern = cur,
                              nextPattern = (if p < pc then nxt else hd rest)\<rparr>] m st3
                    \<and> patternContext st3 = (if p < pc then nxt # cur # rest else rest)
                    \<and> textBefore st3 = [])))"
proof -
  let ?esc = "escape (getPattern R cfg cur)"
  have cl: "tryClose R ln offset (getPattern R cfg cur) cur m0 st = Some (F_POP, pc, mc, cur, st1)"
    for m0
    using assms(3-6) by (simp add: tryClose_def)
  have ft0: "findTransition R cfg ln offset m0 cur st
      = tryChildren R cfg ln offset ?esc kids (F_POP, pc, mc, cur, st1)" for m0
    using cl assms(7) by (simp add: findTransition_def)
  from tryChildren_choice[OF assms(8,6), of F_POP mc cur]
  obtain found p m nxt where
    tc: "tryChildren R cfg ln offset ?esc kids (F_POP, pc, mc, cur, st1)
          = Some (found, p, m, nxt, st2)"
    and p0: "0 \<le> p" and ple: "p \<le> pc"
    and least: "\<forall>(k, q, mq) \<in> set cands. 0 \<le> q \<longrightarrow> p \<le> q"
    and eq: "p = pc \<longrightarrow> found = F_POP \<and> m = mc \<and> nxt = cur"
    and lt: "p < pc \<longrightarrow> found = F_PUSH
          \<and> (\<exists>i<length cands. cands ! i = (nxt, p, m) \<and> (\<forall>j<i. fst (snd (cands ! j)) \<noteq> p))"
    by blast
  have ft: "findTransition R cfg ln offset m0 cur st = Some (found, p, m, nxt, st2)" for m0
    unfolding ft0 by (rule tc)
  have fnd: "found = (if p < pc then F_PUSH else F_POP)" using eq lt ple by auto
  then have nn: "found \<noteq> F_NONE" and op: "(found = F_PUSH) = (p < pc)" by auto
  have gc: "getCurrentPattern st = Inr cur" using assms(1) by (simp add: getCurrentPattern_def)
  have unf: "createLayers R cfg st ln offset
      = (case applyTransition cfg ln offset cur found p m nxt st2 of
           Inl e \<Rightarrow> Some (Inl e)
         | Inr (st3, nxt2) \<Rightarrow>
             createLayersLoop R cfg ln (p + matchedLength m)
               [\<lparr>pos = p, matched = m, isOpen = (p < pc), prePattern = cur,
                 nextPattern = nxt2\<rparr>] m st3)"
    unfolding createLayers_def
    using assms(2) gc ft[of None] nn op
    by (subst createLayersLoop.simps) (simp split: sum.splits)
  have layer: "ls \<noteq> [] \<and> pos (hd ls) = p \<and> matched (hd ls) = m
      \<and> isOpen (hd ls) = (p < pc) \<and> prePattern (hd ls) = cur"
    if r: "createLayers R cfg st ln offset = Some (Inr (ls, st'))" for ls st'
  proof (cases "applyTransition cfg ln offset cur found p m nxt st2")
    case (Inl e)
    with unf r show ?thesis by simp
  next
    case (Inr b)
    obtain st3 nxt2 where b: "b = (st3, nxt2)" by (cases b)
    let ?l = "\<lparr>pos = p, matched = m, isOpen = (p < pc), prePattern = cur, nextPattern = nxt2\<rparr>"
    from unf r Inr b have
      "createLayersLoop R cfg ln (p + matchedLength m) [?l] m st3 = Some (Inr (ls, st'))"
      by simp
    from createLayersLoop_prefix[OF this] obtain more where "ls = [?l] @ more" by blast
    then show ?thesis by simp
  qed
  have stack: "(p = pc \<and> rest = [] \<longrightarrow> createLayers R cfg st ln offset = Some (Inl TypeError))
        \<and> (p < pc \<or> rest \<noteq> [] \<longrightarrow>
              (\<exists>st3. createLayers R cfg st ln offset
                        = createLayersLoop R cfg ln (p + matchedLength m)
                            [\<lparr>pos = p, matched = m, isOpen = (p < pc), prePattern = cur,
                              nextPattern = (if p < pc then nxt else hd rest)\<rparr>] m st3
                    \<and> patternContext st3 = (if p < pc then nxt # cur # rest else rest)
                    \<and> textBefore st3 = []))"
    if hk: "hooksKeepStack cfg"
  proof -
    from findTransition_result[OF ft[of None]] have "cacheGrows st st2" by simp
    from cacheGrows_patternContext[OF this] assms(1)
    have ctx: "patternContext st2 = cur # rest" by simp
    note eff = applyTransition_effect[OF hk ctx, of ln offset p m nxt]
    show ?thesis
    proof (cases "p < pc")
      case True
      with fnd have f: "found = F_PUSH" by simp
      from eff obtain st3 where
        "applyTransition cfg ln offset cur F_PUSH p m nxt st2 = Inr (st3, nxt)"
        "patternContext st3 = nxt # cur # rest" "textBefore st3 = []" by blast
      with unf f True show ?thesis by auto
    next
      case False
      with fnd ple have f: "found = F_POP" and pp: "p = pc" by simp_all
      show ?thesis
      proof (cases "rest = []")
        case True
        with eff have "applyTransition cfg ln offset cur F_POP p m nxt st2 = Inl TypeError"
          by blast
        with unf f True pp show ?thesis by simp
      next
        case ne: False
        with eff obtain st3 where
          "applyTransition cfg ln offset cur F_POP p m nxt st2 = Inr (st3, hd rest)"
          "patternContext st3 = rest" "textBefore st3 = []" by blast
        with unf f ne False show ?thesis by auto
      qed
    qed
  qed
  from ft p0 ple least eq lt layer stack show ?thesis by blast
qed

text \<open>Inside pattern 4 on the line \<open>xab\<close>, the closer \<open>ab\<close> and the openers \<open>a\<close> and
  \<open>ab\<close> all match at index 1: a closing layer is recorded and the stack is popped. Inside
  pattern 5 on the line \<open>ab\<close>, the openers match at 0 and the closer \<open>b\<close> at 1: an
  opening layer of the first child is recorded and the child is pushed.\<close>

theorem closer_wins_ties_witness:
  "findTransition tieRuntime demoConfig ''xab'' 0 None 4 inPattern4
     = Some (F_POP, 1, Some ''ab'', 4, inPattern4)
   \<and> map_option (map_sum id (\<lambda>(ls, st). (ls, patternContext st)))
        (createLayers tieRuntime demoConfig inPattern4 ''xab'' 0)
     = Some (Inr ([\<lparr>pos = 1, matched = Some ''ab'', isOpen = False, prePattern = 4,
                     nextPattern = rootId\<rparr>], [rootId]))
   \<and> findTransition tieRuntime demoConfig ''ab'' 0 None 5 inPattern5
     = Some (F_PUSH, 0, Some ''a'', 2, inPattern5)
   \<and> map_option (map_sum id (\<lambda>(ls, st). (ls, patternContext st)))
        (createLayers tieRuntime demoConfig inPattern5 ''ab'' 0)
     = Some (Inr ([\<lparr>pos = 0, matched = Some ''a'', isOpen = True, prePattern = 5,
                     nextPattern = 2\<rparr>], [2, 5, rootId]))"
proof -
  have pats: "getPattern tieRuntime demoConfig 5
        = plainPattern\<lparr>close := Some (Str ''b''), children := Some [2, 3]\<rparr>"
    "getPattern tieRuntime demoConfig 4
        = plainPattern\<lparr>close := Some (Str ''ab''), children := Some [2, 3]\<rparr>"
    "getPattern tieRuntime demoConfig 2 = plainPattern\<lparr>open := Some (Str ''a'')\<rparr>"
    "getPattern tieRuntime demoConfig 3 = plainPattern\<lparr>open := Some (Str ''ab'')\<rparr>"
    by (simp_all add: getPattern_def tieRuntime_def rootId_def)
  have fields: "close (getPattern tieRuntime demoConfig 4) = Some (Str ''ab'')"
    "close (getPattern tieRuntime demoConfig 5) = Some (Str ''b'')"
    "escape (getPattern tieRuntime demoConfig 4) = None"
    "escape (getPattern tieRuntime demoConfig 5) = None"
    "children (getPattern tieRuntime demoConfig 4) = Some [2, 3]"
    "children (getPattern tieRuntime demoConfig 5) = Some [2, 3]"
    "open (getPattern tieRuntime demoConfig 2) = Some (Str ''a'')"
    "open (getPattern tieRuntime demoConfig 3) = Some (Str ''ab'')"
    by (simp_all add: pats plainPattern_def)
  have ctx: "patternContext inPattern4 = 4 # [rootId]" "patternContext inPattern5 = 5 # [rootId]"
    by (simp_all add: inPattern4_def inPattern5_def)
  have a1: "matchWithEscape tieRuntime ''xab'' 0 (Str ''ab'')
              (escape (getPattern tieRuntime demoConfig 4)) inPattern4
            = Some ((1, Some ''ab''), inPattern4)"
    by (simp add: fields matchWithEscape_no_escape indexOf_def)
  have a2: "openerMatches tieRuntime demoConfig ''xab'' 0
              (escape (getPattern tieRuntime demoConfig 4)) [2, 3] inPattern4
            = Some ([(2, 1, Some ''a''), (3, 1, Some ''ab'')], inPattern4)"
    by (simp add: fields matchWithEscape_no_escape indexOf_def)
  have b1: "matchWithEscape tieRuntime ''ab'' 0 (Str ''b'')
              (escape (getPattern tieRuntime demoConfig 5)) inPattern5
            = Some ((1, Some ''b''), inPattern5)"
    by (simp add: fields matchWithEscape_no_escape indexOf_def)
  have b2: "openerMatches tieRuntime demoConfig ''ab'' 0
              (escape (getPattern tieRuntime demoConfig 5)) [2, 3] inPattern5
            = Some ([(2, 0, Some ''a''), (3, 0, Some ''ab'')], inPattern5)"
    by (simp add: fields matchWithEscape_no_escape indexOf_def)
  have evA: "map_option (map_sum id (\<lambda>(ls, st). (ls, patternContext st)))
        (createLayers tieRuntime demoConfig inPattern4 ''xab'' 0)
     = Some (Inr ([\<lparr>pos = 1, matched = Some ''ab'', isOpen = False, prePattern = 4,
                     nextPattern = rootId\<rparr>], [rootId]))"
    by code_simp
  have evB: "map_option (map_sum id (\<lambda>(ls, st). (ls, patternContext st)))
        (createLayers tieRuntime demoConfig inPattern5 ''ab'' 0)
     = Some (Inr ([\<lparr>pos = 0, matched = Some ''a'', isOpen = True, prePattern = 5,
                     nextPattern = 2\<rparr>], [2, 5, rootId]))"
    by code_simp
  let ?candsA = "[(2::nat, 1::int, Some ''a''), (3, 1, Some ''ab'')]"
  have "\<exists>found p m nxt.
      (\<forall>m0. findTransition tieRuntime demoConfig ''xab'' 0 m0 4 inPattern4
        = Some (found, p, m, nxt, inPattern4))
    \<and> 0 \<le> p \<and> p \<le> 1 \<and> (\<forall>(k, q, mq) \<in> set ?candsA. 0 \<le> q \<longrightarrow> p \<le> q)
    \<and> (p = 1 \<longrightarrow> found = F_POP \<and> m = Some ''ab'' \<and> nxt = 4)
    \<and> (p < 1 \<longrightarrow> found = F_PUSH
          \<and> (\<exists>i<length ?candsA. ?candsA ! i = (nxt, p, m)
                \<and> (\<forall>j<i. fst (snd (?candsA ! j)) \<noteq> p)))
    \<and> (\<forall>ls st'. createLayers tieRuntime demoConfig inPattern4 ''xab'' 0 = Some (Inr (ls, st'))
          \<longrightarrow> ls \<noteq> [] \<and> pos (hd ls) = p \<and> matched (hd ls) = m
              \<and> isOpen (hd ls) = (p < 1) \<and> prePattern (hd ls) = 4)
    \<and> (hooksKeepStack demoConfig \<longrightarrow>
          (p = 1 \<and> [rootId] = [] \<longrightarrow>
             createLayers tieRuntime demoConfig inPattern4 ''xab'' 0 = Some (Inl TypeError))
        \<and> (p < 1 \<or> [rootId] \<noteq> [] \<longrightarrow>
              (\<exists>st3. createLayers tieRuntime demoConfig inPattern4 ''xab'' 0
                        = createLayersLoop tieRuntime demoConfig ''xab'' (p + matchedLength m)
                            [\<lparr>pos = p, matched = m, isOpen = (p < 1), prePattern = 4,
                              nextPattern = (if p < 1 then nxt else hd [rootId])\<rparr>] m st3
                    \<and> patternContext st3 = (if p < 1 then nxt # 4 # [rootId] else [rootId])
                    \<and> textBefore st3 = [])))"
    by (rule closer_wins_ties[OF ctx(1) _ fields(1) _ a1 _ fields(5) a2]) simp_all
  then obtain found p m nxt where r:
    "findTransition tieRuntime demoConfig ''xab'' 0 None 4 inPattern4
       = Some (found, p, m, nxt, inPattern4)"
    "p \<le> 1" "\<forall>(k, q, mq) \<in> set ?candsA. 0 \<le> q \<longrightarrow> p \<le> q"
    "p = 1 \<longrightarrow> found = F_POP \<and> m = Some ''ab'' \<and> nxt = 4"
    "p < 1 \<longrightarrow> (\<exists>i<length ?candsA. ?candsA ! i = (nxt, p, m))"
    by blast
  have "p = 1"
  proof (rule ccontr)
    assume "p \<noteq> 1"
    with r(2) have "p < 1" by simp
    with r(5) obtain i where i: "i < length ?candsA" "?candsA ! i = (nxt, p, m)" by blast
    from i(1) have "i = 0 \<or> i = 1" by auto
    with i(2) have "p = 1" by auto
    with \<open>p \<noteq> 1\<close> show False by simp
  qed
  with r have A: "findTransition tieRuntime demoConfig ''xab'' 0 None 4 inPattern4
     = Some (F_POP, 1, Some ''ab'', 4, inPattern4)" by simp
  let ?candsB = "[(2::nat, 0::int, Some ''a''), (3, 0, Some ''ab'')]"
  have "\<exists>found p m nxt.
      (\<forall>m0. findTransition tieRuntime demoConfig ''ab'' 0 m0 5 inPattern5
        = Some (found, p, m, nxt, inPattern5))
    \<and> 0 \<le> p \<and> p \<le> 1 \<and> (\<forall>(k, q, mq) \<in> set ?candsB. 0 \<le> q \<longrightarrow> p \<le> q)
    \<and> (p = 1 \<longrightarrow> found = F_POP \<and> m = Some ''b'' \<and> nxt = 5)
    \<and> (p < 1 \<longrightarrow> found = F_PUSH
          \<and> (\<exists>i<length ?candsB. ?candsB ! i = (nxt, p, m)
                \<and> (\<forall>j<i. fst (snd (?candsB ! j)) \<noteq> p)))
    \<and> (\<forall>ls st'. createLayers tieRuntime demoConfig inPattern5 ''ab'' 0 = Some (Inr (ls, st'))
          \<longrightarrow> ls \<noteq> [] \<and> pos (hd ls) = p \<and> matched (hd ls) = m
              \<and> isOpen (hd ls) = (p < 1) \<and> prePattern (hd ls) = 5)
    \<and> (hooksKeepStack demoConfig \<longrightarrow>
          (p = 1 \<and> [rootId] = [] \<longrightarrow>
             createLayers tieRuntime demoConfig inPattern5 ''ab'' 0 = Some (Inl TypeError))
        \<and> (p < 1 \<or> [rootId] \<noteq> [] \<longrightarrow>
              (\<exists>st3. createLayers tieRuntime demoConfig inPattern5 ''ab'' 0
                        = createLayersLoop tieRuntime demoConfig ''ab'' (p + matchedLength m)
                            [\<lparr>pos = p, matched = m, isOpen = (p < 1), prePattern = 5,
                              nextPattern = (if p < 1 then nxt else hd [rootId])\<rparr>] m st3
                    \<and> patternContext st3 = (if p < 1 then nxt # 5 # [rootId] else [rootId])
                    \<and> textBefore st3 = [])))"
    by (rule closer_wins_ties[OF ctx(2) _ fields(2) _ b1 _ fields(6) b2]) simp_all
  then obtain found p m nxt where s:
    "findTransition tieRuntime demoConfig ''ab'' 0 None 5 inPattern5
       = Some (found, p, m, nxt, inPattern5)"
    "0 \<le> p" "\<forall>(k, q, mq) \<in> set ?candsB. 0 \<le> q \<longrightarrow> p \<le> q"
    "p < 1 \<longrightarrow> found = F_PUSH \<and> (\<exists>i<length ?candsB. ?candsB ! i = (nxt, p, m)
        \<and> (\<forall>j<i. fst (snd (?candsB ! j)) \<noteq> p))"
    by blast
  from s(2,3) have p0: "p = 0" by simp
  with s(4) obtain i where i: "i < length ?candsB" "?candsB ! i = (nxt, 0, m)"
    "\<forall>j<i. fst (snd (?candsB ! j)) \<noteq> 0"
    and push: "found = F_PUSH" by auto
  have "i = 0"
  proof (rule ccontr)
    assume "i \<noteq> 0"
    with i(3) have "fst (snd (?candsB ! 0)) \<noteq> 0" by blast
    then show False by simp
  qed
  with i(2) have "nxt = 2" "m = Some ''a''" by simp_all
  with s(1) p0 push have B: "findTransition tieRuntime demoConfig ''ab'' 0 None 5 inPattern5
     = Some (F_PUSH, 0, Some ''a'', 2, inPattern5)" by simp
  from A evA B evB show ?thesis by simp
qed

subsection \<open>A boundary without styles (C4)\<close>

lemma tokenUntil_bound:
  assumes "tokenUntil R cfg stream st until shift sync = Inr (style, stream', st')"
  shows "spos stream' \<le> until"
proof -
  obtain style1 stream1 st1 where t:
    "(case (case getLocalMode st of None \<Rightarrow> None | Some m \<Rightarrow> mtoken m) of
        Some tok \<Rightarrow>
          (case tok stream (getLocalState st) of
             (style, stream1, sub) \<Rightarrow>
               (style,
                if spos stream1 > until then stream1\<lparr>spos := until\<rparr> else stream1,
                setLocalState st sub))
      | None \<Rightarrow> (None, stream\<lparr>spos := until\<rparr>, st)) = (style1, stream1, st1)"
    using prod_cases3 by blast
  then have b: "spos stream1 \<le> until"
    by (auto split: option.splits prod.splits if_splits)
  from assms have "stream' = stream1"
    unfolding tokenUntil_def Let_def t
    by (auto split: option.splits sum.splits if_splits)
  with b show ?thesis by simp
qed

lemma token_dispatch:
  assumes "if start st \<and> \<not> sol stream then sd = st
           else createLayers R cfg (st\<lparr>start := True, useRoot := False\<rparr>)
                  (sstring stream) (sstart stream) = Some (Inr (ls, st1))
                \<and> sd = st1\<lparr>layers := Some ls\<rparr>"
  shows "token R cfg stream st = Some (dispatch R cfg stream sd)"
  using assms by (auto simp: token_def split: if_splits)

text \<open>
  C4 (as amended). \<open>token\<close> dispatches on the first layer of the state \<open>sd\<close>: the state
  itself or, at the start of a line, the state after the scan with the layers of the line.
  When the token starts at the position of the first layer and the transitioning pattern
  has no \<open>patternStyles\<close>, \<open>token\<close> does not raise the internal-invariant error: in each
  of its three branches the delimiter is forwarded to the active sub-mode by \<open>tokenUntil\<close>
  up to the end of the delimiter, with a shift of the layers: for an opening layer with
  \<open>includePattern\<close> after the sub-mode of the pattern was entered, for a closing layer
  without \<open>includePattern\<close> after the sub-mode was left (leaving can be a TypeError), and
  otherwise (an opening layer without \<open>includePattern\<close>, a closing layer with it) with
  the embedded-mode stack synchronised when the end is reached. The token returned ends at
  or before the end of the delimiter. \<open>tokenPattern\<close>, which raises the internal-invariant
  error for a pattern without \<open>patternStyles\<close>, is called only for a pattern that has
  them. The internal-invariant error is raised when the start of the token lies past the
  position of the first layer and not before the end of its delimiter.
\<close>

theorem boundary_without_styles:
  assumes "if start st \<and> \<not> sol stream then sd = st
           else createLayers R cfg (st\<lparr>start := True, useRoot := False\<rparr>)
                  (sstring stream) (sstart stream) = Some (Inr (ls, st1))
                \<and> sd = st1\<lparr>layers := Some ls\<rparr>"
    and "firstLayer sd = Some layer"
    and "pat = getPattern R cfg (if isOpen layer then nextPattern layer else prePattern layer)"
    and "fin = pos layer + matchedLength (matched layer)"
  shows "token R cfg stream st = Some (dispatch R cfg stream sd)
    \<and> (sstart stream = pos layer \<and> patternStyles pat = None \<longrightarrow>
          token R cfg stream st \<noteq> Some (Inl Impossible)
        \<and> (isOpen layer \<and> includePattern pat \<longrightarrow>
              token R cfg stream st
                = Some (tokenUntil R cfg stream
                          (if modeTruthy (mode pat)
                           then pushStateContext R sd (the (mode pat)) (Some stream) else sd)
                          fin True False))
        \<and> (\<not> isOpen layer \<and> \<not> includePattern pat \<longrightarrow>
              token R cfg stream st
                = (case (if modeTruthy (mode pat) then popStateContext sd else Inr sd) of
                     Inl e \<Rightarrow> Some (Inl e)
                   | Inr s1 \<Rightarrow> Some (tokenUntil R cfg stream s1 fin True False)))
        \<and> (isOpen layer = (\<not> includePattern pat) \<longrightarrow>
              token R cfg stream st = Some (tokenUntil R cfg stream sd fin True True))
        \<and> (\<forall>style stream' st'. token R cfg stream st = Some (Inr (style, stream', st'))
              \<longrightarrow> spos stream' \<le> fin))
    \<and> (sstart stream = pos layer \<and> patternStyles pat \<noteq> None
          \<longrightarrow> token R cfg stream st = Some (tokenPattern R cfg stream sd))
    \<and> (patternStyles pat = None \<longrightarrow> tokenPattern R cfg stream sd = Inl Impossible)
    \<and> (pos layer < sstart stream \<and> fin \<le> sstart stream
          \<longrightarrow> token R cfg stream st = Some (Inl Impossible))"
proof -
  note td = token_dispatch[OF assms(1)]
  let ?push = "if modeTruthy (mode pat)
               then pushStateContext R sd (the (mode pat)) (Some stream) else sd"
  let ?pop = "if modeTruthy (mode pat) then popStateContext sd else Inr sd"
  have d: "dispatch R cfg stream sd
      = (if sstart stream < pos layer then tokenUntil R cfg stream sd (pos layer) False False
         else if sstart stream = pos layer then
           (if patternStyles pat \<noteq> None then tokenPattern R cfg stream sd
            else if isOpen layer \<and> includePattern pat
            then tokenUntil R cfg stream ?push fin True False
            else if \<not> isOpen layer \<and> \<not> includePattern pat
            then (case ?pop of Inl e \<Rightarrow> Inl e
                  | Inr s1 \<Rightarrow> tokenUntil R cfg stream s1 fin True False)
            else tokenUntil R cfg stream sd fin True True)
         else if sstart stream < fin then tokenUntil R cfg stream sd fin True True
         else Inl Impossible)"
  proof (cases "isOpen layer")
    case True
    with assms(3) have "pat = getPattern R cfg (nextPattern layer)" by simp
    with True assms(2,4) show ?thesis by (simp add: dispatch_def Let_def)
  next
    case False
    with assms(3) have "pat = getPattern R cfg (prePattern layer)" by simp
    with False assms(2,4) show ?thesis by (simp add: dispatch_def Let_def split: sum.splits)
  qed
  have inc: "token R cfg stream st
                = Some (tokenUntil R cfg stream
                          (if modeTruthy (mode pat)
                           then pushStateContext R sd (the (mode pat)) (Some stream) else sd)
                          fin True False)"
    if "sstart stream = pos layer" "patternStyles pat = None" "isOpen layer \<and> includePattern pat"
    unfolding td d using that by simp
  have exc: "token R cfg stream st
                = (case (if modeTruthy (mode pat) then popStateContext sd else Inr sd) of
                     Inl e \<Rightarrow> Some (Inl e)
                   | Inr s1 \<Rightarrow> Some (tokenUntil R cfg stream s1 fin True False))"
    if "sstart stream = pos layer" "patternStyles pat = None"
      "\<not> isOpen layer \<and> \<not> includePattern pat"
    unfolding td d using that by (simp split: sum.splits)
  have oth: "token R cfg stream st = Some (tokenUntil R cfg stream sd fin True True)"
    if "sstart stream = pos layer" "patternStyles pat = None"
      "isOpen layer = (\<not> includePattern pat)"
    unfolding td d using that by (cases "isOpen layer") simp_all
  have cases3: "(isOpen layer \<and> includePattern pat) \<or> (\<not> isOpen layer \<and> \<not> includePattern pat)
      \<or> isOpen layer = (\<not> includePattern pat)" by auto
  have ni: "token R cfg stream st \<noteq> Some (Inl Impossible)"
    if a: "sstart stream = pos layer" "patternStyles pat = None"
    using cases3
  proof (elim disjE)
    assume "isOpen layer \<and> includePattern pat"
    from inc[OF a this] show ?thesis by (simp add: tokenUntil_not_Impossible)
  next
    assume "\<not> isOpen layer \<and> \<not> includePattern pat"
    from exc[OF a this] show ?thesis
      by (auto simp: tokenUntil_not_Impossible popStateContext_def
          split: sum.splits list.splits if_splits)
  next
    assume "isOpen layer = (\<not> includePattern pat)"
    from oth[OF a this] show ?thesis by (simp add: tokenUntil_not_Impossible)
  qed
  have bnd: "spos stream' \<le> fin"
    if a: "sstart stream = pos layer" "patternStyles pat = None"
      and r: "token R cfg stream st = Some (Inr (style, stream', st'))" for style stream' st'
    using cases3
  proof (elim disjE)
    assume "isOpen layer \<and> includePattern pat"
    from inc[OF a this] r
    have "tokenUntil R cfg stream ?push fin True False = Inr (style, stream', st')" by simp
    then show ?thesis by (rule tokenUntil_bound)
  next
    assume c: "\<not> isOpen layer \<and> \<not> includePattern pat"
    show ?thesis
    proof (cases ?pop)
      case (Inl e)
      with exc[OF a c] r show ?thesis by simp
    next
      case (Inr s1)
      with exc[OF a c] r
      have "tokenUntil R cfg stream s1 fin True False = Inr (style, stream', st')" by simp
      then show ?thesis by (rule tokenUntil_bound)
    qed
  next
    assume "isOpen layer = (\<not> includePattern pat)"
    from oth[OF a this] r
    have "tokenUntil R cfg stream sd fin True True = Inr (style, stream', st')" by simp
    then show ?thesis by (rule tokenUntil_bound)
  qed
  have sty: "token R cfg stream st = Some (tokenPattern R cfg stream sd)"
    if "sstart stream = pos layer" "patternStyles pat \<noteq> None"
    unfolding td d using that by simp
  have tp: "tokenPattern R cfg stream sd = Inl Impossible" if "patternStyles pat = None"
    using that assms(2,3) by (simp add: tokenPattern_def Let_def)
  have imp: "token R cfg stream st = Some (Inl Impossible)"
    if "pos layer < sstart stream \<and> fin \<le> sstart stream"
    unfolding td d using that by simp
  from td inc exc oth ni bnd sty tp imp show ?thesis by blast
qed

text \<open>At the opening quote of the line \<open>'a'\<close>, whose pattern has neither styles nor
  \<open>includePattern\<close>, the token call returns the unstyled token of the quote.\<close>

theorem boundary_without_styles_counterexample:
  "map_option (map_sum id (\<lambda>(style, stream, st). (style, spos stream, sstart stream)))
     (token demoRuntime demoConfig quotedLine demoState) = Some (Inr (None, 1, 0))"
  by code_simp

text \<open>On the line \<open>'a'\<close>: at the opening quote \<open>token\<close> is \<open>tokenUntil\<close> to index 1 with
  synchronisation; at the closing quote it is \<open>tokenUntil\<close> to index 3 without, the token
  ends at 3 and the layer is shifted; with the token starting at the end of the closing
  quote and its layer still there, the internal-invariant error is raised.\<close>

theorem boundary_without_styles_witness:
  "(\<exists>sd. token demoRuntime demoConfig quotedLine demoState
            = Some (tokenUntil demoRuntime demoConfig quotedLine sd 1 True True))
   \<and> token demoRuntime demoConfig atClosingQuote atCloseLayer
       = Some (tokenUntil demoRuntime demoConfig atClosingQuote atCloseLayer 3 True False)
   \<and> map_option (map_sum id (\<lambda>(style, stream, st). (style, spos stream, layers st)))
        (token demoRuntime demoConfig atClosingQuote atCloseLayer)
       = Some (Inr (None, 3, Some []))
   \<and> token demoRuntime demoConfig (atClosingQuote\<lparr>spos := 3, sstart := 3\<rparr>) atCloseLayer
       = Some (Inl Impossible)"
proof -
  let ?open = "\<lparr>pos = 0, matched = Some [CHR 0x27], isOpen = True, prePattern = rootId,
       nextPattern = singleQuote\<rparr>"
  let ?close = "\<lparr>pos = 2, matched = Some [CHR 0x27], isOpen = False, prePattern = singleQuote,
       nextPattern = rootId\<rparr>"
  have pat: "getPattern demoRuntime demoConfig singleQuote
      = plainPattern\<lparr>open := Some (Str [CHR 0x27]), close := Some (Str [CHR 0x27]),
          escape := Some (Str [CHR 0x5C])\<rparr>"
    by (simp add: demo_getPattern defaultPatterns_def singleQuote_def rootId_def)
  have sty: "patternStyles (getPattern demoRuntime demoConfig singleQuote) = None"
    and inc: "\<not> includePattern (getPattern demoRuntime demoConfig singleQuote)"
    and md: "\<not> modeTruthy (mode (getPattern demoRuntime demoConfig singleQuote))"
    by (simp_all add: pat plainPattern_def modeTruthy_def)
  have ev: "map_option (map_sum id fst)
      (createLayers demoRuntime demoConfig (demoState\<lparr>start := True, useRoot := False\<rparr>)
         (sstring quotedLine) (sstart quotedLine)) = Some (Inr [?open, ?close])"
    by code_simp
  then obtain st1 where cl:
    "createLayers demoRuntime demoConfig (demoState\<lparr>start := True, useRoot := False\<rparr>)
         (sstring quotedLine) (sstart quotedLine) = Some (Inr ([?open, ?close], st1))"
    by (cases "createLayers demoRuntime demoConfig (demoState\<lparr>start := True, useRoot := False\<rparr>)
         (sstring quotedLine) (sstart quotedLine)") (auto simp: map_sum_def split: sum.splits)
  let ?sd = "st1\<lparr>layers := Some [?open, ?close]\<rparr>"
  have h1: "if start demoState \<and> \<not> sol quotedLine then ?sd = demoState
      else createLayers demoRuntime demoConfig (demoState\<lparr>start := True, useRoot := False\<rparr>)
                  (sstring quotedLine) (sstart quotedLine) = Some (Inr ([?open, ?close], st1))
           \<and> ?sd = st1\<lparr>layers := Some [?open, ?close]\<rparr>"
    using cl by (simp add: demoState_def startState_def)
  have f1: "firstLayer ?sd = Some ?open" by (simp add: firstLayer_def)
  let ?pat = "getPattern demoRuntime demoConfig singleQuote"
  have p1: "?pat = getPattern demoRuntime demoConfig
      (if isOpen ?open then nextPattern ?open else prePattern ?open)" by simp
  have e1: "1 = pos ?open + matchedLength (matched ?open)" by (simp add: matchedLength_def)
  have c1: "sstart quotedLine = pos ?open" by (simp add: quotedLine_def)
  have o1: "isOpen ?open = (\<not> includePattern ?pat)" using inc by simp
  from boundary_without_styles[OF h1 f1 p1 e1] c1 sty o1
  have A: "token demoRuntime demoConfig quotedLine demoState
            = Some (tokenUntil demoRuntime demoConfig quotedLine ?sd 1 True True)"
    by blast
  have h2: "if start atCloseLayer \<and> \<not> sol atClosingQuote then atCloseLayer = atCloseLayer
      else createLayers demoRuntime demoConfig (atCloseLayer\<lparr>start := True, useRoot := False\<rparr>)
                  (sstring atClosingQuote) (sstart atClosingQuote) = Some (Inr ([], atCloseLayer))
           \<and> atCloseLayer = atCloseLayer\<lparr>layers := Some []\<rparr>"
    by (simp add: atCloseLayer_def atClosingQuote_def sol_def)
  have f2: "firstLayer atCloseLayer = Some ?close"
    by (simp add: firstLayer_def atCloseLayer_def)
  have p2: "?pat = getPattern demoRuntime demoConfig
      (if isOpen ?close then nextPattern ?close else prePattern ?close)" by simp
  have e2: "3 = pos ?close + matchedLength (matched ?close)" by (simp add: matchedLength_def)
  have c2: "sstart atClosingQuote = pos ?close" by (simp add: atClosingQuote_def)
  have o2: "\<not> isOpen ?close \<and> \<not> includePattern ?pat" using inc by simp
  from boundary_without_styles[OF h2 f2 p2 e2] c2 sty o2
  have "token demoRuntime demoConfig atClosingQuote atCloseLayer
       = (case (if modeTruthy (mode ?pat) then popStateContext atCloseLayer
                else Inr atCloseLayer) of
            Inl e \<Rightarrow> Some (Inl e)
          | Inr s1 \<Rightarrow> Some (tokenUntil demoRuntime demoConfig atClosingQuote s1 3 True False))"
    by blast
  with md have B: "token demoRuntime demoConfig atClosingQuote atCloseLayer
       = Some (tokenUntil demoRuntime demoConfig atClosingQuote atCloseLayer 3 True False)"
    by simp
  have evB: "map_option (map_sum id (\<lambda>(style, stream, st). (style, spos stream, layers st)))
        (token demoRuntime demoConfig atClosingQuote atCloseLayer)
       = Some (Inr (None, 3, Some []))"
    by code_simp
  let ?past = "atClosingQuote\<lparr>spos := 3, sstart := 3\<rparr>"
  have h3: "if start atCloseLayer \<and> \<not> sol ?past then atCloseLayer = atCloseLayer
      else createLayers demoRuntime demoConfig (atCloseLayer\<lparr>start := True, useRoot := False\<rparr>)
                  (sstring ?past) (sstart ?past) = Some (Inr ([], atCloseLayer))
           \<and> atCloseLayer = atCloseLayer\<lparr>layers := Some []\<rparr>"
    by (simp add: atCloseLayer_def sol_def)
  have c3: "pos ?close < sstart ?past \<and> 3 \<le> sstart ?past" by simp
  from boundary_without_styles[OF h3 f2 p2 e2] c3
  have C: "token demoRuntime demoConfig ?past atCloseLayer = Some (Inl Impossible)"
    by blast
  from A B evB C show ?thesis by blast
qed

subsection \<open>The model on concrete inputs\<close>

text \<open>The header of a template: the opening delimiter has the style of the pattern, and
  the word after it is tokenized by the flag mode, as a keyword.\<close>

lemma flagMode_in_header:
  "(case token demoRuntime demoConfig \<lparr>sstring = ''#[if]'', spos = 0, sstart = 0\<rparr> demoState of
      Some (Inr (style1, stream1, st1)) \<Rightarrow>
        (case token demoRuntime demoConfig (stream1\<lparr>sstart := spos stream1\<rparr>) st1 of
           Some (Inr (style2, stream2, st2)) \<Rightarrow>
             Some (style1, spos stream1, style2, spos stream2)
         | _ \<Rightarrow> None)
    | _ \<Rightarrow> None)
   = Some (Some ''bracket cxj-template cxj-template-flag open'', 2,
           Some ''keyword cxj-template-flag-keyword cxj-template-flag-keyword-if'', 4)"
  by code_simp

text \<open>The no-break space is white space for \<open>REG_SPACE\<close>.\<close>

lemma REG_SPACE_nbsp: "rxTest REG_SPACE [CHR '' '', CHR 0xA0, CHR 0x09]"
  by code_simp

text \<open>In forward mode a source that ends with an escaped dollar sign is normalized to the
  source that ends with the backslash alone, which the constructor of the runtime does not
  accept.\<close>

lemma anchoredSource_escaped_dollar:
  "anchoredSource (''a'' @ [CHR 0x5C] @ ''$'') A_NONE = ''a'' @ [CHR 0x5C]"
  by (simp add: anchoredSource_def makeSureAnchor_def startsWith_def endsWith_def)

end
